(* ===== verification/CRT_Prelude.thy ===== *)
theory CRT_Prelude
  imports "HOL-Library.Word"
begin

text \<open>
  Shared vocabulary of the development: the theorem collection \<open>unat_simps\<close> that moves
  word operations to natural-number arithmetic, the number of significant bits \<open>nbits\<close>
  and the number of trailing zero bits \<open>ntz\<close> of a natural number (the references for
  every count-leading-zeros and count-trailing-zeros of the library), and arithmetic
  lemmas used by several components.

  A C shift \<open>x << n\<close> of an unsigned value is \<open>push_bit n x\<close>, \<open>x >> n\<close> is
  \<open>drop_bit n x\<close> for an unsigned and \<open>signed_drop_bit n x\<close> for a signed left operand
  (\<open>int_lib.h\<close> states both assumptions: two's complement and arithmetic right shift).
\<close>

unbundle bit_operations_syntax

named_theorems unat_simps \<open>word operations as arithmetic on \<open>unat\<close>\<close>

section \<open>Words as natural numbers\<close>

lemma unat_lt [simp]: "unat (w :: 'a::len word) < 2 ^ LENGTH('a)"
  by simp

lemma unat_eqI: "unat x = unat y \<Longrightarrow> x = y"
  by (simp add: word_unat_eq_iff)

lemma unat_drop_bit_div [unat_simps]: "unat (drop_bit n w) = unat w div 2 ^ n"
  by (simp only: unat_drop_bit_eq) (simp add: drop_bit_eq_div)

lemma unat_push_bit [unat_simps]:
  "unat (push_bit n (w :: 'a::len word)) = (unat w * 2 ^ n) mod 2 ^ LENGTH('a)"
proof -
  have "push_bit n w = word_of_nat (unat w * 2 ^ n)"
    by (simp add: push_bit_eq_mult)
  then show ?thesis
    by (simp only: unat_of_nat)
qed

lemma unat_push_bit_small:
  "unat (w :: 'a::len word) * 2 ^ n < 2 ^ LENGTH('a) \<Longrightarrow> unat (push_bit n w) = unat w * 2 ^ n"
  by (simp add: unat_push_bit)

lemma unat_take_bit_mod [unat_simps]: "unat (take_bit n (w :: 'a::len word)) = unat w mod 2 ^ n"
proof -
  have "take_bit n w = word_of_nat (take_bit n (unat w))"
    by (simp add: of_nat_take_bit)
  moreover have "take_bit n (unat w) < 2 ^ LENGTH('a)"
    by (rule le_less_trans [OF take_bit_nat_less_eq_self]) simp
  ultimately show ?thesis
    by (simp add: unat_of_nat take_bit_eq_mod)
qed

lemma unat_and_mask [unat_simps]: "unat (w AND mask n) = unat w mod 2 ^ n"
  by (simp add: take_bit_eq_mask [symmetric] unat_take_bit_mod)

lemma unat_mask_and [unat_simps]: "unat (mask n AND w) = unat w mod 2 ^ n"
  by (simp add: and.commute [of "mask n"] unat_and_mask)

lemma unat_ucast_mod [unat_simps]:
  "unat (ucast (w :: 'a::len word) :: 'b::len word) = unat w mod 2 ^ LENGTH('b)"
proof -
  have "(ucast w :: 'b word) = word_of_nat (unat w)" by simp
  then show ?thesis by (simp only: unat_of_nat)
qed

lemma unat_ucast_up:
  "LENGTH('a) \<le> LENGTH('b) \<Longrightarrow> unat (ucast (w :: 'a::len word) :: 'b::len word) = unat w"
proof -
  assume "LENGTH('a) \<le> LENGTH('b)"
  then have "unat w < 2 ^ LENGTH('b)"
    by (meson less_le_trans one_le_numeral power_increasing unat_lt)
  then show ?thesis by (simp only: unat_ucast_mod mod_less)
qed

lemma unat_add_mod [unat_simps]:
  "unat ((x :: 'a::len word) + y) = (unat x + unat y) mod 2 ^ LENGTH('a)"
  by (simp add: unat_word_ariths)

lemma unat_mult_mod [unat_simps]:
  "unat ((x :: 'a::len word) * y) = (unat x * unat y) mod 2 ^ LENGTH('a)"
  by (simp add: unat_word_ariths)

lemma unat_add_small:
  "unat (x :: 'a::len word) + unat y < 2 ^ LENGTH('a) \<Longrightarrow> unat (x + y) = unat x + unat y"
  by (simp add: unat_add_mod)

lemma unat_mult_small:
  "unat (x :: 'a::len word) * unat y < 2 ^ LENGTH('a) \<Longrightarrow> unat (x * y) = unat x * unat y"
  by (simp add: unat_mult_mod)

lemma unat_and_eq: "unat (x AND y) = unat x AND unat y"
  by (rule bit_eqI) (simp add: bit_simps)

lemma unat_or_eq: "unat (x OR y) = unat x OR unat y"
  by (rule bit_eqI) (simp add: bit_simps)

lemma unat_xor_eq: "unat (x XOR y) = unat x XOR unat y"
  by (rule bit_eqI) (simp add: bit_simps)

lemma nat_bit_small: "n < 2 ^ k \<Longrightarrow> k \<le> i \<Longrightarrow> \<not> bit (n :: nat) i"
  by (simp add: bit_iff_odd) (metis div_less even_zero less_le_trans one_le_numeral power_increasing)

lemma nat_bit_aligned: "2 ^ k dvd n \<Longrightarrow> i < k \<Longrightarrow> \<not> bit (n :: nat) i"
  by (metis bit_take_bit_iff bit_0_eq bot_fun_def bot_bool_def dvd_imp_mod_0 take_bit_eq_mod)

lemma nat_bit_top: "n < 2 ^ Suc k \<Longrightarrow> bit n k \<longleftrightarrow> 2 ^ k \<le> (n :: nat)"
proof -
  assume "n < 2 ^ Suc k"
  then have "n div 2 ^ k < 2" by (simp add: less_mult_imp_div_less)
  then have "odd (n div 2 ^ k) \<longleftrightarrow> 0 < n div 2 ^ k" by (auto simp: less_2_cases_iff)
  then show ?thesis by (simp add: bit_iff_odd div_greater_zero_iff)
qed

lemma nat_and_aligned:
  assumes "2 ^ k dvd (a :: nat)" "b < 2 ^ k"
  shows "a AND b = 0"
proof (rule bit_eqI)
  fix i
  show "bit (a AND b) i \<longleftrightarrow> bit (0 :: nat) i"
    using nat_bit_small [OF assms(2), of i] nat_bit_aligned [OF assms(1), of i]
    by (cases "i < k") (auto simp: bit_and_iff)
qed

lemma nat_or_aligned: "2 ^ k dvd (a :: nat) \<Longrightarrow> b < 2 ^ k \<Longrightarrow> a OR b = a + b"
  by (rule disjunctive_add_eq_or [symmetric]) (rule nat_and_aligned)

lemma unat_or_aligned:
  "2 ^ k dvd unat x \<Longrightarrow> unat y < 2 ^ k \<Longrightarrow> unat (x OR y) = unat x + unat y"
  by (simp only: unat_or_eq) (rule nat_or_aligned)

lemma nat_and_le: "a AND b \<le> (a :: nat)"
  using AND_upper1 [of "int a" "int b"] by (simp flip: of_nat_and_eq)

lemma nat_and_split:
  assumes "a < 2 ^ j" "c < 2 ^ j"
  shows "(a + 2 ^ j * b) AND (c + 2 ^ j * d) = (a AND c) + 2 ^ j * (b AND (d :: nat))"
proof -
  have s: "u + 2 ^ j * v = push_bit j v OR u" if "u < 2 ^ j" for u v :: nat
    using that nat_or_aligned [of j "push_bit j v" u] by (simp add: push_bit_eq_mult mult.commute add.commute)
  have ac: "a AND c < 2 ^ j"
    using assms(1) using le_less_trans [OF nat_and_le] by blast
  show ?thesis
    unfolding s [OF assms(1)] s [OF assms(2)] s [OF ac]
    by (rule bit_eqI)
      (use nat_bit_small [OF assms(1)] nat_bit_small [OF assms(2)] in \<open>auto simp: bit_simps not_less\<close>)
qed

lemma nat_and_mask: "x AND (2 ^ k - 1) = x mod (2 ^ k :: nat)"
proof -
  have "2 ^ k - 1 = (mask k :: nat)" by (simp add: mask_eq_exp_minus_1)
  then show ?thesis by (simp only: take_bit_eq_mask [symmetric] take_bit_eq_mod)
qed

section \<open>Significant bits and trailing zero bits\<close>

fun nbits :: "nat \<Rightarrow> nat" where
  "nbits n = (if n = 0 then 0 else Suc (nbits (n div 2)))"

declare nbits.simps [simp del]

lemma nbits_0 [simp]: "nbits 0 = 0"
  by (simp add: nbits.simps)

lemma nbits_pos: "0 < n \<Longrightarrow> nbits n = Suc (nbits (n div 2))"
  by (subst nbits.simps) simp

lemma nbits_eq_0 [simp]: "nbits n = 0 \<longleftrightarrow> n = 0"
  by (cases "n = 0") (simp_all add: nbits_pos)

lemma nbits_le_iff: "nbits n \<le> k \<longleftrightarrow> n < 2 ^ k"
proof (induction n arbitrary: k rule: nbits.induct)
  case (1 n)
  show ?case
  proof (cases "n = 0")
    case False
    then have IH: "\<And>k. nbits (n div 2) \<le> k \<longleftrightarrow> n div 2 < 2 ^ k" using "1" by simp
    show ?thesis
      using False by (cases k) (auto simp: nbits_pos IH)
  qed simp
qed

lemma less_exp_nbits: "n < 2 ^ nbits n"
  using nbits_le_iff [of n "nbits n"] by simp

lemma exp_nbits_le: "0 < n \<Longrightarrow> 2 ^ (nbits n - 1) \<le> n"
  using nbits_le_iff [of n "nbits n - 1"] by (cases "nbits n") auto

lemma nbits_eqI: "2 ^ k \<le> n \<Longrightarrow> n < 2 ^ Suc k \<Longrightarrow> nbits n = Suc k"
  by (meson le_less_Suc_eq le_Suc_eq nbits_le_iff not_less)

lemma nbits_mono: "m \<le> n \<Longrightarrow> nbits m \<le> nbits n"
  by (meson le_less_trans less_exp_nbits nbits_le_iff)

lemma nbits_mult_exp: "0 < n \<Longrightarrow> nbits (n * 2 ^ k) = nbits n + k"
proof (induction k)
  case (Suc k)
  then show ?case
    using nbits_pos [of "n * 2 ^ Suc k"] by simp
qed simp

lemma nbits_div_exp: "nbits (n div 2 ^ k) = nbits n - k"
proof (induction k arbitrary: n)
  case (Suc k)
  have "nbits (n div 2 ^ Suc k) = nbits (n div 2) - k"
    using Suc [of "n div 2"] by (simp add: div_mult2_eq)
  then show ?case
    by (cases "n = 0") (simp_all add: nbits_pos)
qed simp

lemma nbits_exp [simp]: "nbits (2 ^ k) = Suc k"
  by (rule nbits_eqI) simp_all

lemma nbits_unat_le: "nbits (unat (w :: 'a::len word)) \<le> LENGTH('a)"
  by (simp add: nbits_le_iff)

fun ntz :: "nat \<Rightarrow> nat" where
  "ntz n = (if n = 0 \<or> odd n then 0 else Suc (ntz (n div 2)))"

declare ntz.simps [simp del]

lemma ntz_odd: "odd n \<Longrightarrow> ntz n = 0"
  by (simp add: ntz.simps)

lemma ntz_even: "0 < n \<Longrightarrow> even n \<Longrightarrow> ntz n = Suc (ntz (n div 2))"
  by (subst ntz.simps) simp

lemma ntz_eqI: "odd m \<Longrightarrow> ntz (m * 2 ^ k) = k"
proof (induction k)
  case (Suc k)
  then have "0 < m * 2 ^ Suc k" by (auto intro!: Nat.gr0I)
  then show ?case using Suc ntz_even [of "m * 2 ^ Suc k"] by simp
qed (simp add: ntz_odd)

lemma ntz_decomp:
  assumes "0 < n"
  obtains m where "odd m" "n = m * 2 ^ ntz n"
  using assms
proof (induction n arbitrary: thesis rule: ntz.induct)
  case (1 n)
  show ?case
  proof (cases "odd n")
    case True
    then show ?thesis using "1.prems"(1) [of n] by (simp add: ntz_odd)
  next
    case False
    with "1.prems"(2) have "0 < n div 2" by auto
    with False "1.IH" "1.prems"(2) obtain m where m: "odd m" "n div 2 = m * 2 ^ ntz (n div 2)" by auto
    then have "n = m * 2 ^ ntz n"
      using False "1.prems"(2) by (simp add: ntz_even) (metis dvd_mult_div_cancel mult.left_commute)
    with m show ?thesis using "1.prems"(1) by blast
  qed
qed

lemma ntz_mod_exp: "n mod 2 ^ k \<noteq> 0 \<Longrightarrow> ntz (n mod 2 ^ k) = ntz n"
proof (induction k arbitrary: n)
  case (Suc k)
  have split: "n mod 2 ^ Suc k = n mod 2 + 2 * (n div 2 mod 2 ^ k)"
    by (simp add: mod_mult2_eq)
  show ?case
  proof (cases "odd n")
    case True
    then show ?thesis using split by (simp add: ntz_odd)
  next
    case False
    then have e: "n mod 2 ^ Suc k = 2 * (n div 2 mod 2 ^ k)" using split by (simp add: even_iff_mod_2_eq_zero)
    with Suc.prems have "n div 2 mod 2 ^ k \<noteq> 0" by auto
    moreover from this have "0 < n" by (auto intro: Nat.gr0I)
    ultimately show ?thesis using Suc.IH [of "n div 2"] e False by (simp add: ntz_even)
  qed
qed simp

lemma ntz_div_exp: "2 ^ k dvd n \<Longrightarrow> 0 < n \<Longrightarrow> ntz n = k + ntz (n div 2 ^ k)"
proof -
  assume "2 ^ k dvd n" "0 < n"
  then obtain q where q: "n = q * 2 ^ k" "0 < q" by (auto simp: mult.commute elim: dvdE)
  then obtain m where "odd m" "q = m * 2 ^ ntz q" using ntz_decomp by blast
  then have "ntz n = ntz q + k"
    using q ntz_eqI [of m "ntz q + k"] by (metis mult.assoc power_add)
  then show ?thesis using q by simp
qed

section \<open>Signed readings\<close>

lemma sint_unat:
  "sint (w :: 'a::len word) =
    (if unat w < 2 ^ (LENGTH('a) - 1) then int (unat w) else int (unat w) - 2 ^ LENGTH('a))"
proof -
  obtain n where n: "LENGTH('a) = Suc n" using len_not_eq_0 by (metis not0_implies_Suc)
  have "uint w < 2 ^ Suc n" using n by (metis uint_lt2p)
  moreover have "sint w = signed_take_bit n (uint w)" using n by (simp add: sint_uint)
  moreover have "signed_take_bit n (uint w) = uint w - 2 ^ Suc n * of_bool (bit (uint w) n)"
    using calculation(1) by (simp add: signed_take_bit_eq_take_bit_minus take_bit_int_eq_self_iff)
  moreover have "bit (uint w) n \<longleftrightarrow> \<not> unat w < 2 ^ n"
    using nat_bit_top [of "unat w" n] unat_lt [of w] n
    by (simp add: bit_simps not_less)
  ultimately show ?thesis by (simp add: n)
qed

lemma sint_neg_iff: "sint (w :: 'a::len word) < 0 \<longleftrightarrow> 2 ^ (LENGTH('a) - 1) \<le> unat w"
proof -
  have "int (unat w) < 2 ^ LENGTH('a)" by simp
  then show ?thesis by (simp add: sint_unat)
qed

lemma sign_mask_eq:
  "signed_drop_bit (LENGTH('a) - 1) (w :: 'a::len word) = (if sint w < 0 then - 1 else 0)"
  by (rule bit_word_eqI) (auto simp: bit_signed_drop_bit_iff bit_last_iff [symmetric] Suc_le_eq)

lemma sign_mask_eq_Suc:
  "signed_drop_bit (LENGTH('a) - Suc 0) (w :: 'a::len word) = (if sint w < 0 then - 1 else 0)"
  using sign_mask_eq [of w] by simp

lemma xor_sign_mask:
  "(x XOR (if b then - 1 else 0)) - (if b then - 1 else 0) = (if b then - x else (x :: 'a::len word))"
  by (simp add: not_eq_complement)

lemma unat_uminus: "unat (- w :: 'a::len word) = (if w = 0 then 0 else 2 ^ LENGTH('a) - unat w)"
  using unat_sub_if' [of 0 w] by (auto simp: unat_eq_zero)

lemma unat_abs_sint:
  "unat (if sint w < 0 then - w else w :: 'a::len word) = nat \<bar>sint w\<bar>"
proof (cases "sint w < 0")
  case True
  then have "w \<noteq> 0" by auto
  then have "int (unat (- w)) = 2 ^ LENGTH('a) - int (unat w)"
    by (simp only: unat_uminus) (simp add: of_nat_diff less_imp_le)
  moreover have "sint w = int (unat w) - 2 ^ LENGTH('a)"
    using True by (simp only: sint_neg_iff) (simp add: sint_unat)
  ultimately show ?thesis
    using True by (simp del: of_nat_unat)
next
  case False
  then show ?thesis by (simp add: sint_unat split: if_splits)
qed

lemma sint_range: "- (2 ^ (LENGTH('a) - 1)) \<le> sint (w :: 'a::len word)" "sint w < 2 ^ (LENGTH('a) - 1)"
  by (rule sint_ge) (rule sint_lt)

lemma word_eq_of_int: "sint (w :: 'a::len word) = k \<Longrightarrow> w = word_of_int k"
  by auto

lemma sint_of_int_small:
  "- (2 ^ (LENGTH('a) - 1)) \<le> k \<Longrightarrow> k < 2 ^ (LENGTH('a) - 1) \<Longrightarrow> sint (word_of_int k :: 'a::len word) = k"
  by (simp only: sint_sbintrunc') (rule signed_take_bit_int_eq_self)

end
