(* ===== verification/Int_Types.thy ===== *)
theory Int_Types
  imports CRT_Prelude
begin

text \<open>
  The integer types of \<open>int_types.h\<close>. A C integer of width \<open>w\<close> is a \<open>w word\<close>
  whether it is signed or not; the reading (\<open>sint\<close> or \<open>uint\<close>, \<open><s\<close> or \<open><\<close>,
  \<open>signed_drop_bit\<close> or \<open>drop_bit\<close>) is chosen by each operation. The unions
  \<open>dwords\<close>, \<open>udwords\<close>, \<open>twords\<close> and \<open>utwords\<close>, which give access to the two
  halves of a value, are the record \<open>halves\<close>; \<open>of_all\<close> and \<open>all\<close> are the
  accesses to the member \<open>all\<close>. In both byte orders the member \<open>s.low\<close> is the
  less significant half.
\<close>

type_synonym si_int = "32 word"
type_synonym su_int = "32 word"
type_synonym di_int = "64 word"
type_synonym du_int = "64 word"
type_synonym ti_int = "128 word"
type_synonym tu_int = "128 word"

record 'w halves =
  low :: 'w
  high :: 'w

definition of_all :: "'d::len word \<Rightarrow> 'h::len word halves" where
  "of_all x = \<lparr>low = ucast x, high = ucast (drop_bit LENGTH('h) x)\<rparr>"

definition all :: "'h::len word halves \<Rightarrow> 'd::len word" where
  "all h = push_bit LENGTH('h) (ucast (high h)) OR ucast (low h)"

definition make_ti :: "di_int \<Rightarrow> di_int \<Rightarrow> ti_int" where
  "make_ti h l = all \<lparr>low = l, high = h\<rparr>"

definition make_tu :: "du_int \<Rightarrow> du_int \<Rightarrow> tu_int" where
  "make_tu h l = all \<lparr>low = l, high = h\<rparr>"

text \<open>
  A double-width word is determined by its halves; the arithmetic value of the union is
  \<open>high * 2 ^ w + low\<close>.
\<close>

lemma unat_low [unat_simps]: "unat (low (of_all x :: 'h::len word halves)) = unat x mod 2 ^ LENGTH('h)"
  by (simp add: of_all_def unat_ucast_mod)

lemma unat_high [unat_simps]:
  assumes "LENGTH('d) \<le> 2 * LENGTH('h)"
  shows "unat (high (of_all (x :: 'd::len word) :: 'h::len word halves)) = unat x div 2 ^ LENGTH('h)"
proof -
  have "unat x < 2 ^ (2 * LENGTH('h))"
    by (rule less_le_trans [OF unat_lt]) (use assms in simp)
  then have "unat x div 2 ^ LENGTH('h) < 2 ^ LENGTH('h)"
    by (simp add: less_mult_imp_div_less mult_2 power_add)
  then show ?thesis by (simp add: of_all_def unat_ucast_mod unat_drop_bit_div)
qed

lemma unat_all [unat_simps]:
  assumes "2 * LENGTH('h) \<le> LENGTH('d)"
  shows "unat (all (h :: 'h::len word halves) :: 'd::len word) = unat (high h) * 2 ^ LENGTH('h) + unat (low h)"
proof -
  have up: "unat (ucast w :: 'd word) = unat w" for w :: "'h word"
    by (rule unat_ucast_up) (use assms in simp)
  have "unat (high h) * 2 ^ LENGTH('h) < 2 ^ LENGTH('h) * 2 ^ LENGTH('h)" by simp
  also have "\<dots> \<le> 2 ^ LENGTH('d)" using assms by (simp add: mult_2 flip: power_add)
  finally have p: "unat (push_bit LENGTH('h) (ucast (high h) :: 'd word)) = unat (high h) * 2 ^ LENGTH('h)"
    by (simp add: unat_push_bit_small up)
  show ?thesis
    unfolding all_def by (subst unat_or_aligned [where k = "LENGTH('h)"]) (simp_all add: p up)
qed

lemma all_of_all [simp]:
  assumes "LENGTH('d) = 2 * LENGTH('h)"
  shows "all (of_all (x :: 'd::len word) :: 'h::len word halves) = x"
  by (rule unat_eqI) (simp add: assms unat_simps div_mult_mod_eq)

lemma of_all_all [simp]:
  assumes "LENGTH('d) = 2 * LENGTH('h)"
  shows "of_all (all h :: 'd::len word) = (h :: 'h::len word halves)"
proof -
  have "low (of_all (all h :: 'd word) :: 'h word halves) = low h"
    by (rule unat_eqI) (simp add: assms unat_simps)
  moreover have "high (of_all (all h :: 'd word) :: 'h word halves) = high h"
    by (rule unat_eqI) (simp add: assms unat_simps)
  ultimately show ?thesis by (simp add: halves.equality)
qed

lemma of_all_eq_iff:
  assumes "LENGTH('d) = 2 * LENGTH('h)"
  shows "(of_all (x :: 'd::len word) :: 'h::len word halves) = of_all y \<longleftrightarrow> x = y"
  by (metis all_of_all assms)

end
