(* ===== verification/Int_Bits.thy ===== *)
theory Int_Bits
  imports Int_Types
begin

text \<open>
  Bit counting: \<open>clz?i2.c\<close>, \<open>ctz?i2.c\<close>, \<open>ffs?i2.c\<close>, \<open>popcount?i2.c\<close>,
  \<open>parity?i2.c\<close> and \<open>bswap?i2.c\<close>. The compiler intrinsics \<open>__builtin_clz\<close>,
  \<open>__builtin_ctz\<close> and their 64-bit variants (\<open>clzsi\<close>, \<open>ctzsi\<close>) are
  \<open>builtin_clz\<close> and \<open>builtin_ctz\<close>, defined from the number of significant bits
  and of trailing zero bits. C leaves both undefined at zero, where the definitions give the
  width and zero. The routines have the precondition \<open>a != 0\<close>; \<open>__clzdi2\<close> and
  \<open>__clzti2\<close> reach the intrinsic at zero only for \<open>a = 0\<close>, so a value
  computed there stands for no behaviour of the source.
\<close>

section \<open>Compiler intrinsics\<close>

definition builtin_clz :: "'a::len word \<Rightarrow> nat" where
  "builtin_clz w = LENGTH('a) - nbits (unat w)"

definition builtin_ctz :: "'a::len word \<Rightarrow> nat" where
  "builtin_ctz w = ntz (unat w)"

lemma nbits_builtin_clz: "nbits (unat (w :: 'a::len word)) = LENGTH('a) - builtin_clz w"
  using nbits_unat_le [of w] by (simp add: builtin_clz_def)

lemma builtin_clz_less: "w \<noteq> 0 \<Longrightarrow> builtin_clz (w :: 'a::len word) < LENGTH('a)"
  by (simp add: builtin_clz_def unat_eq_0 neq0_conv [symmetric] del: neq0_conv)

lemma builtin_clz_le: "builtin_clz (w :: 'a::len word) \<le> LENGTH('a)"
  by (simp add: builtin_clz_def)

section \<open>Leading zeros\<close>

definition clzsi2 :: "si_int \<Rightarrow> si_int" where
  "clzsi2 a =
    (let x = a;
         t = push_bit 4 (of_bool (x AND 0xFFFF0000 = 0)) :: si_int;
         x = drop_bit (unat (16 - t)) x;
         r = t;
         t = push_bit 3 (of_bool (x AND 0xFF00 = 0));
         x = drop_bit (unat (8 - t)) x;
         r = r + t;
         t = push_bit 2 (of_bool (x AND 0xF0 = 0));
         x = drop_bit (unat (4 - t)) x;
         r = r + t;
         t = push_bit 1 (of_bool (x AND 0xC = 0));
         x = drop_bit (unat (2 - t)) x;
         r = r + t
     in r + ((2 - x) AND - of_bool (x AND 2 = 0)))"

definition clzdi2 :: "di_int \<Rightarrow> si_int" where
  "clzdi2 a =
    (let x = of_all a :: si_int halves;
         f = - of_bool (high x = 0) :: si_int
     in of_nat (builtin_clz ((high x AND NOT f) OR (low x AND f))) + (f AND 32))"

definition clzti2 :: "ti_int \<Rightarrow> si_int" where
  "clzti2 a =
    (let x = of_all a :: di_int halves;
         f = - of_bool (high x = 0) :: di_int
     in of_nat (builtin_clz ((high x AND NOT f) OR (low x AND f))) + (scast f AND 64))"

lemma nat_and_shifted_mask:
  "n AND 2 ^ k * (2 ^ m - 1) = (n div 2 ^ k mod 2 ^ m) * (2 ^ k :: nat)"
proof -
  have "n AND push_bit k (mask m) = push_bit k (take_bit m (drop_bit k n))"
    by (rule bit_eqI) (auto simp: bit_simps)
  then show ?thesis
    by (simp add: push_bit_eq_mult take_bit_eq_mod drop_bit_eq_div mask_eq_exp_minus_1 mult.commute)
qed

lemma and_field_eq_0:
  assumes "unat c = 2 ^ k * (2 ^ m - 1)"
  shows "x AND c = 0 \<longleftrightarrow> unat x div 2 ^ k mod 2 ^ m = 0"
proof -
  have "unat (x AND c) = (unat x div 2 ^ k mod 2 ^ m) * 2 ^ k"
    by (simp only: unat_and_eq assms nat_and_shifted_mask)
  then show ?thesis by (metis unat_eq_zero mult_eq_0_iff power_not_zero zero_neq_numeral)
qed

text \<open>One halving step of the branch-free search: \<open>k\<close> is the width still to be searched.\<close>

definition clz_step :: "nat \<Rightarrow> nat \<times> nat \<Rightarrow> nat \<times> nat" where
  "clz_step k = (\<lambda>(x, r). if x < 2 ^ k then (x, r + k) else (x div 2 ^ k, r))"

lemma clz_step_inv:
  assumes "x < 2 ^ (2 * k)" "clz_step k (x, r) = (x', r')"
  shows "x' < 2 ^ k" "r' + (k - nbits x') = r + (2 * k - nbits x)"
proof -
  have "x div 2 ^ k < 2 ^ k"
    using assms(1) by (simp add: less_mult_imp_div_less mult_2 power_add)
  then show "x' < 2 ^ k" using assms(2) by (auto simp: clz_step_def split: if_splits)
  have "nbits x \<le> k \<longleftrightarrow> x < 2 ^ k" by (rule nbits_le_iff)
  moreover have "nbits x \<le> 2 * k" using assms(1) by (simp add: nbits_le_iff)
  ultimately show "r' + (k - nbits x') = r + (2 * k - nbits x)"
    using assms(2) by (auto simp: clz_step_def nbits_div_exp split: if_splits)
qed

lemma unat_push_of_bool:
  "n < LENGTH('a) \<Longrightarrow> unat (push_bit n (of_bool b :: 'a::len word)) = (if b then 2 ^ n else 0)"
  by (simp add: unat_push_bit)

lemma clz_word_step:
  fixes x t K r :: si_int
  assumes "unat c = 2 ^ k * (2 ^ k - 1)" "unat x < 2 ^ (2 * k)" "t = push_bit j (of_bool (x AND c = 0))"
    "unat K = k" "k = 2 ^ j" "j < 5" "unat r \<le> 32"
  shows "clz_step k (unat x, unat r) = (unat (drop_bit (unat (K - t)) x), unat (r + t))"
proof -
  have "unat x div 2 ^ k < 2 ^ k"
    using assms(2) by (simp add: less_mult_imp_div_less mult_2 power_add)
  then have c: "x AND c = 0 \<longleftrightarrow> unat x < 2 ^ k"
    using and_field_eq_0 [OF assms(1)] by (simp add: div_eq_0_iff)
  have "(2 :: nat) ^ j \<le> 2 ^ 4" using assms(6) by (intro power_increasing) simp_all
  then have "k \<le> 16" using assms(5) by simp
  moreover have "unat t = (if unat x < 2 ^ k then k else 0)"
    unfolding assms(3) c by (subst unat_push_of_bool) (use assms(5,6) in simp_all)
  moreover from calculation have "unat (K - t) = (if unat x < 2 ^ k then 0 else k)"
    using assms(4) by (simp add: unat_sub_if')
  ultimately show ?thesis
    using assms(7) by (auto simp: clz_step_def unat_drop_bit_div unat_add_mod)
qed

lemma word_of_nat_cases4:
  assumes "unat (x :: si_int) < 4"
  shows "x = 0 \<or> x = 1 \<or> x = 2 \<or> x = 3"
proof -
  have "unat x = 0 \<or> unat x = 1 \<or> unat x = 2 \<or> unat x = 3" using assms by linarith
  then have "unat x = unat (0 :: si_int) \<or> unat x = unat (1 :: si_int) \<or>
      unat x = unat (2 :: si_int) \<or> unat x = unat (3 :: si_int)" by simp
  then show ?thesis by (simp only: word_unat_eq_iff)
qed

lemma clzsi2_final:
  fixes x :: si_int
  assumes "unat x < 4"
  shows "unat ((2 - x) AND - of_bool (x AND 2 = 0)) = 2 - nbits (unat x)"
proof -
  consider "x = 0" | "x = 1" | "x = 2" | "x = 3"
    using assms word_of_nat_cases4 [of x] by blast
  then show ?thesis
    by cases (simp_all add: nbits.simps)
qed

theorem unat_clzsi2: "unat (clzsi2 a) = builtin_clz a"
proof -
  define t1 where "t1 = (push_bit 4 (of_bool (a AND 0xFFFF0000 = 0)) :: si_int)"
  define x1 where "x1 = drop_bit (unat (16 - t1)) a"
  define t2 where "t2 = (push_bit 3 (of_bool (x1 AND 0xFF00 = 0)) :: si_int)"
  define x2 where "x2 = drop_bit (unat (8 - t2)) x1"
  define t3 where "t3 = (push_bit 2 (of_bool (x2 AND 0xF0 = 0)) :: si_int)"
  define x3 where "x3 = drop_bit (unat (4 - t3)) x2"
  define t4 where "t4 = (push_bit 1 (of_bool (x3 AND 0xC = 0)) :: si_int)"
  define x4 where "x4 = drop_bit (unat (2 - t4)) x3"
  have s1: "clz_step 16 (unat a, unat (0 :: si_int)) = (unat x1, unat (0 + t1))"
    unfolding x1_def by (rule clz_word_step [of "0xFFFF0000" 16, OF _ _ t1_def]) (use unat_lt [of a] in simp_all)
  from clz_step_inv [OF _ s1] have i1: "unat x1 < 2 ^ 16" "unat t1 + (16 - nbits (unat x1)) = 32 - nbits (unat a)"
    using unat_lt [of a] by simp_all
  have s2: "clz_step 8 (unat x1, unat t1) = (unat x2, unat (t1 + t2))"
    unfolding x2_def by (rule clz_word_step [of "0xFF00" 8, OF _ _ t2_def]) (use i1 in simp_all)
  from clz_step_inv [OF _ s2] have i2: "unat x2 < 2 ^ 8"
      "unat (t1 + t2) + (8 - nbits (unat x2)) = 32 - nbits (unat a)"
    using i1 by simp_all
  have s3: "clz_step 4 (unat x2, unat (t1 + t2)) = (unat x3, unat (t1 + t2 + t3))"
    unfolding x3_def by (rule clz_word_step [of "0xF0" 4, OF _ _ t3_def]) (use i2 in simp_all)
  from clz_step_inv [OF _ s3] have i3: "unat x3 < 2 ^ 4"
      "unat (t1 + t2 + t3) + (4 - nbits (unat x3)) = 32 - nbits (unat a)"
    using i2 by simp_all
  have s4: "clz_step 2 (unat x3, unat (t1 + t2 + t3)) = (unat x4, unat (t1 + t2 + t3 + t4))"
    unfolding x4_def by (rule clz_word_step [of "0xC" 2, OF _ _ t4_def]) (use i3 in simp_all)
  from clz_step_inv [OF _ s4] have i4: "unat x4 < 2 ^ 2"
      "unat (t1 + t2 + t3 + t4) + (2 - nbits (unat x4)) = 32 - nbits (unat a)"
    using i3 by simp_all
  have "clzsi2 a = t1 + t2 + t3 + t4 + ((2 - x4) AND - of_bool (x4 AND 2 = 0))"
    unfolding clzsi2_def Let_def x4_def t4_def x3_def t3_def x2_def t2_def x1_def t1_def by (rule refl)
  moreover have "unat ((2 - x4) AND - of_bool (x4 AND 2 = 0)) = 2 - nbits (unat x4)"
    by (rule clzsi2_final) (use i4 in simp)
  ultimately show ?thesis
    using i4 by (simp add: unat_add_mod builtin_clz_def)
qed

lemma unat_eq_halves:
  assumes "LENGTH('d) = 2 * LENGTH('h)"
  shows "unat (a :: 'd::len word) =
    unat (high (of_all a :: 'h::len word halves)) * 2 ^ LENGTH('h) + unat (low (of_all a :: 'h word halves))"
  using assms by (simp add: unat_simps div_mult_mod_eq)

lemma halves_zero_iff:
  assumes "LENGTH('d) = 2 * LENGTH('h)" "x = (of_all (a :: 'd::len word) :: 'h::len word halves)"
  shows "a = 0 \<longleftrightarrow> low x = 0 \<and> high x = 0"
  using unat_eq_halves [OF assms(1), of a] assms(2)
  by (metis add_is_0 mult_is_0 power_not_zero unat_eq_zero zero_neq_numeral)

lemma nbits_halves:
  assumes "LENGTH('d) = 2 * LENGTH('h)" "x = (of_all (a :: 'd::len word) :: 'h::len word halves)"
  shows "nbits (unat a) =
    (if high x = 0 then nbits (unat (low x)) else LENGTH('h) + nbits (unat (high x)))"
proof (cases "high x = 0")
  case True
  then show ?thesis using unat_eq_halves [of a, where 'h = 'h] assms by simp
next
  case False
  have "nbits (unat (high x)) = nbits (unat a) - LENGTH('h)"
    using assms by (simp add: unat_simps nbits_div_exp)
  moreover have "nbits (unat (high x)) \<noteq> 0" using False by (simp add: unat_eq_zero)
  ultimately show ?thesis using False by simp
qed

lemma mask_select:
  "f = - of_bool b \<Longrightarrow> (x AND NOT f) OR (y AND f) = (if b then y else (x :: 'a::len word))"
  "f = - of_bool b \<Longrightarrow> (x AND f) OR (y AND NOT f) = (if b then x else (y :: 'a::len word))"
  by auto

lemma unat_of_nat_clz:
  "unat (of_nat (builtin_clz (w :: 'a::len word)) :: si_int) = builtin_clz w" if "LENGTH('a) \<le> 64"
  using builtin_clz_le [of w] that by (simp add: unat_of_nat)

theorem unat_clzdi2: "unat (clzdi2 a) = builtin_clz a"
proof -
  define x where "x = (of_all a :: si_int halves)"
  have "clzdi2 a = of_nat (builtin_clz (if high x = 0 then low x else high x)) + (if high x = 0 then 32 else 0)"
    unfolding clzdi2_def Let_def x_def [symmetric] by (cases "high x = 0") simp_all
  moreover have "nbits (unat a) = (if high x = 0 then nbits (unat (low x)) else 32 + nbits (unat (high x)))"
    using nbits_halves [OF _ x_def] by simp
  moreover have "nbits (unat w) \<le> 32" for w :: si_int using nbits_unat_le [of w] by simp
  ultimately show ?thesis
    by (simp add: unat_add_mod unat_of_nat_clz) (simp add: builtin_clz_def le_less_trans [of _ 64])
qed

theorem unat_clzti2: "unat (clzti2 a) = builtin_clz a"
proof -
  define x where "x = (of_all a :: di_int halves)"
  have "clzti2 a = of_nat (builtin_clz (if high x = 0 then low x else high x)) + (if high x = 0 then 64 else 0)"
    unfolding clzti2_def Let_def x_def [symmetric] by (cases "high x = 0") simp_all
  moreover have "nbits (unat a) = (if high x = 0 then nbits (unat (low x)) else 64 + nbits (unat (high x)))"
    using nbits_halves [OF _ x_def] by simp
  moreover have "nbits (unat w) \<le> 64" for w :: di_int using nbits_unat_le [of w] by simp
  ultimately show ?thesis
    by (simp add: unat_add_mod unat_of_nat_clz) (simp add: builtin_clz_def le_less_trans [of _ 128])
qed

section \<open>Trailing zeros\<close>

definition ctzsi2 :: "si_int \<Rightarrow> si_int" where
  "ctzsi2 a =
    (let x = a;
         t = push_bit 4 (of_bool (x AND 0x0000FFFF = 0)) :: si_int;
         x = drop_bit (unat t) x;
         r = t;
         t = push_bit 3 (of_bool (x AND 0x00FF = 0));
         x = drop_bit (unat t) x;
         r = r + t;
         t = push_bit 2 (of_bool (x AND 0x0F = 0));
         x = drop_bit (unat t) x;
         r = r + t;
         t = push_bit 1 (of_bool (x AND 0x3 = 0));
         x = drop_bit (unat t) x;
         x = x AND 3;
         r = r + t
     in r + ((2 - drop_bit 1 x) AND - of_bool (x AND 1 = 0)))"

definition ctzdi2 :: "di_int \<Rightarrow> si_int" where
  "ctzdi2 a =
    (let x = of_all a :: si_int halves;
         f = - of_bool (low x = 0) :: si_int
     in of_nat (builtin_ctz ((high x AND f) OR (low x AND NOT f))) + (f AND 32))"

definition ctzti2 :: "ti_int \<Rightarrow> si_int" where
  "ctzti2 a =
    (let x = of_all a :: di_int halves;
         f = - of_bool (low x = 0) :: di_int
     in of_nat (builtin_ctz ((high x AND f) OR (low x AND NOT f))) + (scast f AND 64))"

definition ffssi2 :: "si_int \<Rightarrow> si_int" where
  "ffssi2 a = (if a = 0 then 0 else of_nat (builtin_ctz a) + 1)"

definition ffsdi2 :: "di_int \<Rightarrow> si_int" where
  "ffsdi2 a =
    (let x = of_all a :: si_int halves
     in if low x = 0
        then (if high x = 0 then 0 else of_nat (builtin_ctz (high x)) + (1 + 32))
        else of_nat (builtin_ctz (low x)) + 1)"

definition ffsti2 :: "ti_int \<Rightarrow> si_int" where
  "ffsti2 a =
    (let x = of_all a :: di_int halves
     in if low x = 0
        then (if high x = 0 then 0 else of_nat (builtin_ctz (high x)) + (1 + 64))
        else of_nat (builtin_ctz (low x)) + 1)"

lemma unat_and_low:
  "unat c = 2 ^ k - 1 \<Longrightarrow> x AND c = 0 \<longleftrightarrow> unat x mod 2 ^ k = 0"
  using and_field_eq_0 [of c 0 k x] by simp

text \<open>One halving step of the search from below.\<close>

lemma ctz_word_step:
  fixes x t r :: si_int
  assumes "unat c = 2 ^ k - 1" "t = push_bit j (of_bool (x AND c = 0))" "k = 2 ^ j" "j < 5"
    and inv: "unat x mod 2 ^ (2 * k) \<noteq> 0" "unat r + ntz (unat x) = n" "n < 32"
  shows "unat (drop_bit (unat t) x) mod 2 ^ k \<noteq> 0"
    "unat (r + t) + ntz (unat (drop_bit (unat t) x)) = n"
proof -
  have c: "x AND c = 0 \<longleftrightarrow> unat x mod 2 ^ k = 0" by (rule unat_and_low) fact
  have t: "unat t = (if unat x mod 2 ^ k = 0 then k else 0)"
    unfolding assms(2) c by (subst unat_push_of_bool) (use assms(3,4) in simp_all)
  have "unat x mod 2 ^ (2 * k) = unat x mod 2 ^ k + 2 ^ k * (unat x div 2 ^ k mod 2 ^ k)"
    by (simp add: mult_2 power_add mod_mult2_eq)
  then have m: "unat x mod 2 ^ k = 0 \<Longrightarrow> unat x div 2 ^ k mod 2 ^ k \<noteq> 0" using inv(1) by auto
  then show "unat (drop_bit (unat t) x) mod 2 ^ k \<noteq> 0" by (simp add: t unat_drop_bit_div)
  have "unat x mod 2 ^ k = 0 \<Longrightarrow> ntz (unat x) = k + ntz (unat x div 2 ^ k)"
    by (rule ntz_div_exp) (use inv(1) in \<open>auto intro!: Nat.gr0I\<close>)
  then show "unat (r + t) + ntz (unat (drop_bit (unat t) x)) = n"
    using inv(2,3) t by (auto simp: unat_add_mod unat_drop_bit_div)
qed

lemma ctzsi2_final:
  fixes x :: si_int
  assumes "unat x mod 4 \<noteq> 0"
  shows "unat ((2 - drop_bit 1 (x AND 3)) AND - of_bool ((x AND 3) AND 1 = 0)) = ntz (unat x)"
proof -
  define y where "y = x AND 3"
  have u: "unat y = unat x mod 4"
    using unat_and_mask [of x 2] by (simp add: y_def mask_eq_exp_minus_1)
  then have "unat y < 4" by simp
  moreover have "y \<noteq> 0" using u assms by auto
  ultimately have "y = 1 \<or> y = 2 \<or> y = 3" using word_of_nat_cases4 [of y] by blast
  then have "unat ((2 - drop_bit 1 y) AND - of_bool (y AND 1 = 0)) = ntz (unat y)"
    by (elim disjE) (simp_all add: ntz.simps)
  moreover have "ntz (unat x) = ntz (unat y)"
    using ntz_mod_exp [of "unat x" 2] assms u by simp
  ultimately show ?thesis by (simp add: y_def)
qed

theorem unat_ctzsi2:
  assumes "a \<noteq> 0"
  shows "unat (ctzsi2 a) = builtin_ctz a"
proof -
  define t1 where "t1 = (push_bit 4 (of_bool (a AND 0x0000FFFF = 0)) :: si_int)"
  define x1 where "x1 = drop_bit (unat t1) a"
  define t2 where "t2 = (push_bit 3 (of_bool (x1 AND 0x00FF = 0)) :: si_int)"
  define x2 where "x2 = drop_bit (unat t2) x1"
  define t3 where "t3 = (push_bit 2 (of_bool (x2 AND 0x0F = 0)) :: si_int)"
  define x3 where "x3 = drop_bit (unat t3) x2"
  define t4 where "t4 = (push_bit 1 (of_bool (x3 AND 0x3 = 0)) :: si_int)"
  define x4 where "x4 = drop_bit (unat t4) x3"
  have pos: "unat a mod 2 ^ 32 \<noteq> 0" using assms unat_lt [of a] by (simp add: unat_eq_zero)
  obtain m where m: "odd m" "unat a = m * 2 ^ ntz (unat a)"
    using ntz_decomp [of "unat a"] assms by (auto simp: unat_gt_0)
  have n: "ntz (unat a) < 32"
  proof (rule ccontr)
    assume "\<not> ntz (unat a) < 32"
    then have "(2 :: nat) ^ 32 dvd unat a" using m(2) by (metis dvd_mult le_imp_power_dvd not_less)
    then show False using pos by simp
  qed
  have i1: "unat x1 mod 2 ^ 16 \<noteq> 0" "unat (0 + t1) + ntz (unat x1) = ntz (unat a)"
    unfolding x1_def by (rule ctz_word_step [where c = "0x0000FFFF" and k = 16 and j = 4 and r = "0" and n = "ntz (unat a)", OF _ t1_def]; use pos n in simp)+
  have i2: "unat x2 mod 2 ^ 8 \<noteq> 0" "unat (t1 + t2) + ntz (unat x2) = ntz (unat a)"
    unfolding x2_def by (rule ctz_word_step [where c = "0x00FF" and k = 8 and j = 3 and r = "t1" and n = "ntz (unat a)", OF _ t2_def]; use i1 n in simp)+
  have i3: "unat x3 mod 2 ^ 4 \<noteq> 0" "unat (t1 + t2 + t3) + ntz (unat x3) = ntz (unat a)"
    unfolding x3_def by (rule ctz_word_step [where c = "0x0F" and k = 4 and j = 2 and r = "t1 + t2" and n = "ntz (unat a)", OF _ t3_def]; use i2 n in simp)+
  have i4: "unat x4 mod 2 ^ 2 \<noteq> 0" "unat (t1 + t2 + t3 + t4) + ntz (unat x4) = ntz (unat a)"
    unfolding x4_def by (rule ctz_word_step [where c = "0x3" and k = 2 and j = 1 and r = "t1 + t2 + t3" and n = "ntz (unat a)", OF _ t4_def]; use i3 n in simp)+
  have "ctzsi2 a = t1 + t2 + t3 + t4 + ((2 - drop_bit 1 (x4 AND 3)) AND - of_bool ((x4 AND 3) AND 1 = 0))"
    unfolding ctzsi2_def Let_def x4_def t4_def x3_def t3_def x2_def t2_def x1_def t1_def by (rule refl)
  moreover have "unat ((2 - drop_bit 1 (x4 AND 3)) AND - of_bool ((x4 AND 3) AND 1 = 0)) = ntz (unat x4)"
    by (rule ctzsi2_final) (use i4 in simp)
  ultimately show ?thesis
    using i4 n by (simp add: unat_add_mod builtin_ctz_def)
qed

lemma builtin_ctz_halves:
  assumes "LENGTH('d) = 2 * LENGTH('h)" "x = (of_all (a :: 'd::len word) :: 'h::len word halves)" "a \<noteq> 0"
  shows "builtin_ctz a =
    (if low x = 0 then LENGTH('h) + builtin_ctz (high x) else builtin_ctz (low x))"
proof (cases "low x = 0")
  case True
  then have "unat a mod 2 ^ LENGTH('h) = 0" using assms by (simp add: unat_eq_zero flip: unat_low)
  then have "ntz (unat a) = LENGTH('h) + ntz (unat a div 2 ^ LENGTH('h))"
    using assms(3) by (intro ntz_div_exp) (auto simp: unat_gt_0)
  then show ?thesis using True assms by (simp add: builtin_ctz_def unat_simps)
next
  case False
  then have "unat a mod 2 ^ LENGTH('h) \<noteq> 0" using assms by (simp add: unat_eq_zero flip: unat_low)
  then show ?thesis using False assms ntz_mod_exp by (simp add: builtin_ctz_def unat_simps)
qed

lemma builtin_ctz_less: "w \<noteq> 0 \<Longrightarrow> builtin_ctz (w :: 'a::len word) < LENGTH('a)"
proof -
  assume "w \<noteq> 0"
  then obtain m where m: "odd m" "unat w = m * 2 ^ ntz (unat w)"
    using ntz_decomp [of "unat w"] by (auto simp: unat_gt_0)
  from m(1) have "1 * 2 ^ ntz (unat w) \<le> m * 2 ^ ntz (unat w)" by (intro mult_le_mono1) (auto elim: oddE)
  then have "(2 :: nat) ^ ntz (unat w) < 2 ^ LENGTH('a)" using m(2) unat_lt [of w] by linarith
  then show ?thesis by (simp add: builtin_ctz_def)
qed

theorem unat_ctzdi2: "a \<noteq> 0 \<Longrightarrow> unat (ctzdi2 a) = builtin_ctz a"
proof -
  assume nz: "a \<noteq> 0"
  define x where "x = (of_all a :: si_int halves)"
  have "ctzdi2 a = of_nat (builtin_ctz (if low x = 0 then high x else low x)) + (if low x = 0 then 32 else 0)"
    unfolding ctzdi2_def Let_def x_def [symmetric] by (cases "low x = 0") simp_all
  then show ?thesis
    using builtin_ctz_halves [OF _ x_def nz] builtin_ctz_less [OF nz]
    by (auto simp: unat_add_mod unat_of_nat)
qed

theorem unat_ctzti2: "a \<noteq> 0 \<Longrightarrow> unat (ctzti2 a) = builtin_ctz a"
proof -
  assume nz: "a \<noteq> 0"
  define x where "x = (of_all a :: di_int halves)"
  have "ctzti2 a = of_nat (builtin_ctz (if low x = 0 then high x else low x)) + (if low x = 0 then 64 else 0)"
    unfolding ctzti2_def Let_def x_def [symmetric] by (cases "low x = 0") simp_all
  then show ?thesis
    using builtin_ctz_halves [OF _ x_def nz] builtin_ctz_less [OF nz]
    by (auto simp: unat_add_mod unat_of_nat)
qed

end
