(* ===== verification/Int_Popcount.thy ===== *)
theory Int_Popcount
  imports Int_Bits
begin

text \<open>
  \<open>popcount?i2.c\<close>, \<open>parity?i2.c\<close>, \<open>bswap?i2.c\<close> and \<open>ffs?i2.c\<close>. The reference for
  the first two is \<open>pop\<close>, the number of one bits of a natural number. The parallel bit
  counts of \<open>popcount?i2.c\<close> are proved through \<open>fsum k m x\<close>, the sum of the \<open>m\<close> fields
  of \<open>k\<close> bits of \<open>x\<close>, which every stage of the computation keeps while the fields
  double in width.
\<close>

section \<open>Find first set\<close>

theorem unat_ffssi2: "unat (ffssi2 a) = (if a = 0 then 0 else Suc (builtin_ctz a))"
  using builtin_ctz_less [of a] by (cases "a = 0") (simp_all add: ffssi2_def unat_add_mod unat_of_nat)

theorem unat_ffsdi2: "unat (ffsdi2 a) = (if a = 0 then 0 else Suc (builtin_ctz a))"
proof -
  define x where "x = (of_all a :: si_int halves)"
  have z: "a = 0 \<longleftrightarrow> low x = 0 \<and> high x = 0" using halves_zero_iff [OF _ x_def] by simp
  have e: "ffsdi2 a = (if a = 0 then 0 else of_nat (Suc (builtin_ctz a)))"
    using builtin_ctz_halves [OF _ x_def] z unfolding ffsdi2_def Let_def x_def [symmetric] by auto
  show ?thesis
    using builtin_ctz_less [of a] by (subst e, cases "a = 0") (simp_all add: unat_of_nat del: of_nat_Suc)
qed

theorem unat_ffsti2: "unat (ffsti2 a) = (if a = 0 then 0 else Suc (builtin_ctz a))"
proof -
  define x where "x = (of_all a :: di_int halves)"
  have z: "a = 0 \<longleftrightarrow> low x = 0 \<and> high x = 0" using halves_zero_iff [OF _ x_def] by simp
  have e: "ffsti2 a = (if a = 0 then 0 else of_nat (Suc (builtin_ctz a)))"
    using builtin_ctz_halves [OF _ x_def] z unfolding ffsti2_def Let_def x_def [symmetric] by auto
  show ?thesis
    using builtin_ctz_less [of a] by (subst e, cases "a = 0") (simp_all add: unat_of_nat del: of_nat_Suc)
qed

section \<open>Population count: reference\<close>

fun pop :: "nat \<Rightarrow> nat" where
  "pop n = (if n = 0 then 0 else n mod 2 + pop (n div 2))"

declare pop.simps [simp del]

lemma pop_0 [simp]: "pop 0 = 0"
  by (simp add: pop.simps)

lemma pop_rec: "pop n = n mod 2 + pop (n div 2)"
  by (cases "n = 0") (simp_all add: pop.simps [of n])

lemma pop_split: "pop n = pop (n mod 2 ^ k) + pop (n div 2 ^ k)"
proof (induction k arbitrary: n)
  case (Suc k)
  have "pop (n mod 2 ^ Suc k) = n mod 2 + pop (n div 2 mod 2 ^ k)"
    by (subst pop_rec) (simp add: mod_mult2_eq)
  moreover have "pop (n div 2) = pop (n div 2 mod 2 ^ k) + pop (n div 2 div 2 ^ k)" by (rule Suc)
  ultimately show ?case by (subst pop_rec [of n]) (simp add: div_mult2_eq)
qed simp

lemma pop_card_bits: "n < 2 ^ k \<Longrightarrow> pop n = card {i. i < k \<and> bit n i}"
proof (induction k arbitrary: n)
  case (Suc k)
  have "{i. i < Suc k \<and> bit n i} = (if odd n then {0} else {}) \<union> Suc ` {i. i < k \<and> bit (n div 2) i}"
    by (auto simp: bit_Suc bit_0 image_iff less_Suc_eq_0_disj)
  then have "card {i. i < Suc k \<and> bit n i} = n mod 2 + card {i. i < k \<and> bit (n div 2) i}"
    by (simp add: card_image odd_iff_mod_2_eq_one)
  moreover have "pop (n div 2) = card {i. i < k \<and> bit (n div 2) i}"
    by (rule Suc.IH) (use Suc.prems in simp)
  ultimately show ?case by (simp add: pop_rec [of n])
qed simp

fun fsum :: "nat \<Rightarrow> nat \<Rightarrow> nat \<Rightarrow> nat" where
  "fsum k 0 x = 0"
| "fsum k (Suc m) x = x mod 2 ^ k + fsum k m (x div 2 ^ k)"

fun pairs :: "nat \<Rightarrow> nat \<Rightarrow> nat \<Rightarrow> nat" where
  "pairs k 0 x = 0"
| "pairs k (Suc m) x =
     (x mod 2 ^ k + x div 2 ^ k mod 2 ^ k) + 2 ^ (2 * k) * pairs k m (x div 2 ^ (2 * k))"

fun fmask :: "nat \<Rightarrow> nat \<Rightarrow> nat" where
  "fmask k 0 = 0"
| "fmask k (Suc m) = (2 ^ k - 1) + 2 ^ (2 * k) * fmask k m"

fun fields_le :: "nat \<Rightarrow> nat \<Rightarrow> nat \<Rightarrow> nat \<Rightarrow> bool" where
  "fields_le b k 0 x = True"
| "fields_le b k (Suc m) x = (x mod 2 ^ k \<le> b \<and> fields_le b k m (x div 2 ^ k))"

lemma fsum_1_pop: "n < 2 ^ m \<Longrightarrow> fsum 1 m n = pop n"
proof (induction m arbitrary: n)
  case (Suc m)
  then have "fsum 1 m (n div 2) = pop (n div 2)" by simp
  then show ?case using pop_rec [of n] by simp
qed simp

lemma pair_less: "x mod 2 ^ k + y mod 2 ^ k < (2 ^ (2 * k) :: nat)" if "0 < k"
proof -
  have "x mod 2 ^ k < 2 ^ k" "y mod 2 ^ k < 2 ^ k" by simp_all
  then have "x mod 2 ^ k + y mod 2 ^ k < 2 * 2 ^ k" by linarith
  also have "\<dots> \<le> 2 ^ (2 * k)" using that by (simp flip: power_Suc)
  finally show ?thesis .
qed

lemma fsum_pairs: "0 < k \<Longrightarrow> fsum (2 * k) m (pairs k m x) = fsum k (2 * m) x"
proof (induction m arbitrary: x)
  case (Suc m)
  have "fsum (2 * k) (Suc m) (pairs k (Suc m) x) =
      (x mod 2 ^ k + x div 2 ^ k mod 2 ^ k) + fsum (2 * k) m (pairs k m (x div 2 ^ (2 * k)))"
    using pair_less [OF Suc.prems, of x "x div 2 ^ k"] by simp
  then show ?case using Suc by (simp add: mult_2 power_add div_mult2_eq)
qed simp

lemma fmask_less: "0 < k \<Longrightarrow> fmask k m < 2 ^ (2 * k * m)"
proof (induction m)
  case (Suc m)
  have "(2 :: nat) ^ k \<le> 2 ^ (2 * k)" by simp
  then have "(2 :: nat) ^ k - 1 < 2 ^ (2 * k)" by (simp add: less_le_trans [of _ "2 ^ k"])
  then have "fmask k (Suc m) < 2 ^ (2 * k) * (1 + fmask k m)" by simp
  also have "\<dots> \<le> 2 ^ (2 * k) * 2 ^ (2 * k * m)" using Suc by (intro mult_le_mono2) simp
  finally show ?case by (simp add: power_add)
qed simp

lemma and_fmask_step:
  assumes "0 < k"
  shows "x AND fmask k (Suc m) = x mod 2 ^ k + 2 ^ (2 * k) * (x div 2 ^ (2 * k) AND fmask k m)"
proof -
  have "x AND fmask k (Suc m) =
      (x mod 2 ^ (2 * k) + 2 ^ (2 * k) * (x div 2 ^ (2 * k))) AND ((2 ^ k - 1) + 2 ^ (2 * k) * fmask k m)"
    by simp
  also have "\<dots> = (x mod 2 ^ (2 * k) AND (2 ^ k - 1)) + 2 ^ (2 * k) * (x div 2 ^ (2 * k) AND fmask k m)"
    by (rule nat_and_split) (simp_all add: less_le_trans [of _ "2 ^ k"])
  also have "x mod 2 ^ (2 * k) AND (2 ^ k - 1) = x mod 2 ^ (2 * k) mod 2 ^ k"
    by (rule nat_and_mask)
  also have "\<dots> = x mod 2 ^ k" by (simp add: mod_mod_cancel le_imp_power_dvd)
  finally show ?thesis .
qed

declare fmask.simps(2) [simp del]

lemma pairs_and_fmask:
  "0 < k \<Longrightarrow> pairs k m x = (x AND fmask k m) + (x div 2 ^ k AND fmask k m)"
proof (induction m arbitrary: x)
  case (Suc m)
  have c: "x div 2 ^ k div 2 ^ (2 * k) = x div 2 ^ (2 * k) div 2 ^ k"
    by (simp add: mult.commute flip: div_mult2_eq)
  show ?case
    using Suc by (simp add: and_fmask_step c distrib_left)
qed simp

lemma split_fmask: "0 < k \<Longrightarrow> x < 2 ^ (2 * k * m) \<Longrightarrow> x = (x AND fmask k m) + 2 ^ k * (x div 2 ^ k AND fmask k m)"
proof (induction m arbitrary: x)
  case (Suc m)
  let ?y = "x div 2 ^ (2 * k)"
  have "?y < 2 ^ (2 * k * m)"
    using Suc.prems by (simp add: less_mult_imp_div_less power_add mult.commute)
  with Suc have IH: "?y = (?y AND fmask k m) + 2 ^ k * (?y div 2 ^ k AND fmask k m)" by blast
  have "x = x mod 2 ^ (2 * k) + 2 ^ (2 * k) * ?y" by simp
  also have "x mod 2 ^ (2 * k) = x mod 2 ^ k + 2 ^ k * (x div 2 ^ k mod 2 ^ k)"
    by (simp add: mult_2 power_add mod_mult2_eq)
  also have "2 ^ (2 * k) * ?y = 2 ^ (2 * k) * (?y AND fmask k m) + 2 ^ k * (2 ^ (2 * k) * (?y div 2 ^ k AND fmask k m))"
    by (subst IH) (simp add: distrib_left)
  finally show ?case
    using Suc.prems(1) by (simp add: and_fmask_step distrib_left div_mult2_eq [symmetric] mult.commute)
qed simp

lemma fields_le_pairs: "0 < k \<Longrightarrow> fields_le b k (2 * m) x \<Longrightarrow> fields_le (2 * b) (2 * k) m (pairs k m x)"
proof (induction m arbitrary: x)
  case (Suc m)
  have "pairs k (Suc m) x mod 2 ^ (2 * k) = x mod 2 ^ k + x div 2 ^ k mod 2 ^ k"
    "pairs k (Suc m) x div 2 ^ (2 * k) = pairs k m (x div 2 ^ (2 * k))"
    using pair_less [OF Suc.prems(1), of x "x div 2 ^ k"] by simp_all
  moreover have "fields_le b k (2 * m) (x div 2 ^ (2 * k))"
    using Suc.prems(2) by (simp add: mult_2 power_add div_mult2_eq)
  ultimately show ?case using Suc by simp
qed simp

lemma fields_le_1: "fields_le 1 1 m x"
proof (induction m arbitrary: x)
  case (Suc m)
  have "x mod 2 \<le> 1" by simp
  then show ?case using Suc by simp
qed simp

text \<open>
  When every field is at most \<open>b\<close> and two of them still fit, adding the word to its
  shift before masking gives the same pairwise sums.
\<close>

lemma add_then_mask:
  assumes "0 < k" "2 * b < 2 ^ k"
  shows "fields_le b k (2 * m) x \<Longrightarrow> x < 2 ^ (2 * k * m) \<Longrightarrow> (x + x div 2 ^ k) AND fmask k m = pairs k m x"
proof (induction m arbitrary: x)
  case (Suc m)
  define u where "u = x mod 2 ^ k"
  define v where "v = x div 2 ^ k mod 2 ^ k"
  define y where "y = x div 2 ^ (2 * k)"
  define w where "w = y mod 2 ^ k"
  have yd: "y = x div 2 ^ k div 2 ^ k" by (simp add: y_def mult_2 power_add div_mult2_eq)
  have fl: "u \<le> b" "v \<le> b" "fields_le b k (2 * m) y"
    using Suc.prems(1) by (simp_all add: u_def v_def yd)
  have "w \<le> b"
  proof (cases m)
    case 0
    then show ?thesis using Suc.prems(2) by (simp add: w_def y_def)
  next
    case (Suc m')
    then show ?thesis using fl(3) by (simp add: w_def)
  qed
  with fl assms(2) have uv: "u + v < 2 ^ k" and vw: "v + w < 2 ^ k" by linarith+
  have x: "x = u + 2 ^ k * v + 2 ^ (2 * k) * y"
  proof -
    have "x = u + 2 ^ k * (x div 2 ^ k)" by (simp add: u_def)
    also have "x div 2 ^ k = v + 2 ^ k * y" by (simp add: v_def yd)
    finally show ?thesis by (simp add: distrib_left mult_2 power_add mult.assoc)
  qed
  have xd: "x div 2 ^ k = v + 2 ^ k * y"
    by (simp add: v_def yd)
  have y': "y = w + 2 ^ k * (y div 2 ^ k)" by (simp add: w_def)
  have sum: "x + x div 2 ^ k = (u + v + 2 ^ k * (v + w)) + 2 ^ (2 * k) * (y + y div 2 ^ k)"
    unfolding xd by (subst x, subst (2) y') (simp add: algebra_simps mult_2_right power_add)
  moreover have "u + v + 2 ^ k * (v + w) < 2 ^ (2 * k)"
  proof -
    have "u + v + 2 ^ k * (v + w) < 2 ^ k * (1 + (v + w))" using uv by (simp add: distrib_left)
    also have "\<dots> \<le> 2 ^ k * 2 ^ k" using vw by (intro mult_le_mono2) simp
    finally show ?thesis by (simp add: mult_2 power_add)
  qed
  ultimately have d: "(x + x div 2 ^ k) div 2 ^ (2 * k) = y + y div 2 ^ k" by simp
  have "x + x div 2 ^ k = (u + v) + 2 ^ k * (v + w + 2 ^ k * (y + y div 2 ^ k))"
    using sum by (simp add: algebra_simps mult_2_right power_add)
  then have md: "(x + x div 2 ^ k) mod 2 ^ k = u + v" using uv by simp
  have "y < 2 ^ (2 * k * m)"
    using Suc.prems(2) by (simp add: y_def less_mult_imp_div_less power_add mult.commute)
  with fl(3) have "(y + y div 2 ^ k) AND fmask k m = pairs k m y" by (rule Suc.IH)
  then show ?case
    using assms(1) d md by (simp only: and_fmask_step pairs.simps) (simp add: u_def v_def y_def)
qed simp

lemma fsum_append: "fsum k (m + n) x = fsum k m x + fsum k n (x div 2 ^ (k * m))"
  by (induction m arbitrary: x) (simp_all add: power_add div_mult2_eq)

lemma fields_le_append:
  "fields_le b k (m + n) x \<longleftrightarrow> fields_le b k m x \<and> fields_le b k n (x div 2 ^ (k * m))"
  by (induction m arbitrary: x) (simp_all add: power_add div_mult2_eq)

lemma mod_exp_div: "x mod 2 ^ (j + k) div 2 ^ j = x div 2 ^ j mod (2 ^ k :: nat)"
  by (simp add: power_add mod_mult2_eq)

lemma fsum_mod: "k * m \<le> n \<Longrightarrow> fsum k m (x mod 2 ^ n) = fsum k m x"
proof (induction m arbitrary: x n)
  case (Suc m)
  then obtain n' where n: "n = k + n'" using le_Suc_ex [of k n] by auto
  have "x mod 2 ^ n mod 2 ^ k = x mod 2 ^ k" by (simp add: n mod_mod_cancel le_imp_power_dvd)
  moreover have "k * m \<le> n'" using Suc.prems n by simp
  ultimately show ?case using Suc.IH by (simp add: n mod_exp_div)
qed simp

lemma fields_le_mod: "k * m \<le> n \<Longrightarrow> fields_le b k m (x mod 2 ^ n) = fields_le b k m x"
proof (induction m arbitrary: x n)
  case (Suc m)
  then obtain n' where n: "n = k + n'" using le_Suc_ex [of k n] by auto
  have "x mod 2 ^ n mod 2 ^ k = x mod 2 ^ k" by (simp add: n mod_mod_cancel le_imp_power_dvd)
  moreover have "k * m \<le> n'" using Suc.prems n by simp
  ultimately show ?case using Suc.IH by (simp add: n mod_exp_div)
qed simp

lemma fields_add:
  assumes "a + b < 2 ^ k"
  shows "fields_le a k m u \<Longrightarrow> fields_le b k m v \<Longrightarrow>
    fsum k m (u + v) = fsum k m u + fsum k m v \<and> fields_le (a + b) k m (u + v)"
proof (induction m arbitrary: u v)
  case (Suc m)
  have lt: "u mod 2 ^ k + v mod 2 ^ k < 2 ^ k" using Suc.prems assms by simp
  have "(u + v) mod 2 ^ k = u mod 2 ^ k + v mod 2 ^ k"
    using lt by (metis mod_add_eq mod_less)
  moreover have "(u + v) div 2 ^ k = u div 2 ^ k + v div 2 ^ k"
    using lt by (subst div_add1_eq) simp
  moreover have "fsum k m (u div 2 ^ k + v div 2 ^ k) = fsum k m (u div 2 ^ k) + fsum k m (v div 2 ^ k)
      \<and> fields_le (a + b) k m (u div 2 ^ k + v div 2 ^ k)"
    by (rule Suc.IH) (use Suc.prems in simp_all)
  ultimately show ?case using Suc.prems by simp
qed simp

text \<open>Adding the upper half of the fields onto the lower half keeps their sum.\<close>

lemma fold_fields:
  assumes "fields_le b k (m + m) x" "2 * b < 2 ^ k"
  shows "fsum k m (x + x div 2 ^ (k * m)) = fsum k (m + m) x" "fields_le (2 * b) k m (x + x div 2 ^ (k * m))"
  using fields_add [of b b k m x "x div 2 ^ (k * m)"] assms by (simp_all add: fsum_append fields_le_append mult_2)

section \<open>Population count: the code\<close>

definition popcountsi2 :: "si_int \<Rightarrow> si_int" where
  "popcountsi2 a =
    (let x = a;
         x = x - (drop_bit 1 x AND 0x55555555);
         x = (drop_bit 2 x AND 0x33333333) + (x AND 0x33333333);
         x = (x + drop_bit 4 x) AND 0x0F0F0F0F;
         x = x + drop_bit 16 x
     in (x + drop_bit 8 x) AND 0x0000003F)"

definition popcountdi2 :: "di_int \<Rightarrow> si_int" where
  "popcountdi2 a =
    (let x2 = a;
         x2 = x2 - (drop_bit 1 x2 AND 0x5555555555555555);
         x2 = (drop_bit 2 x2 AND 0x3333333333333333) + (x2 AND 0x3333333333333333);
         x2 = (x2 + drop_bit 4 x2) AND 0x0F0F0F0F0F0F0F0F;
         x = ucast (x2 + drop_bit 32 x2) :: su_int;
         x = x + drop_bit 16 x
     in (x + drop_bit 8 x) AND 0x0000007F)"

definition popcountti2 :: "ti_int \<Rightarrow> si_int" where
  "popcountti2 a =
    (let x3 = a;
         x3 = x3 - (drop_bit 1 x3 AND (push_bit 64 0x5555555555555555 OR 0x5555555555555555));
         x3 = (drop_bit 2 x3 AND (push_bit 64 0x3333333333333333 OR 0x3333333333333333)) +
              (x3 AND (push_bit 64 0x3333333333333333 OR 0x3333333333333333));
         x3 = (x3 + drop_bit 4 x3) AND (push_bit 64 0x0F0F0F0F0F0F0F0F OR 0x0F0F0F0F0F0F0F0F);
         x2 = ucast (x3 + drop_bit 64 x3) :: du_int;
         x = ucast (x2 + drop_bit 32 x2) :: su_int;
         x = x + drop_bit 16 x
     in (x + drop_bit 8 x) AND 0xFF)"

text \<open>The three stages shared by the widths, on a word of \<open>8 * n\<close> bits.\<close>

lemma unat_pairs_step:
  fixes x c :: "'a::len word"
  assumes "0 < k" "unat c = fmask k m" "2 * k * m = LENGTH('a)"
  shows "unat ((drop_bit k x AND c) + (x AND c)) = pairs k m (unat x)"
proof -
  have e: "unat (drop_bit k x AND c) + unat (x AND c) = pairs k m (unat x)"
    using assms(1,2) by (simp add: unat_and_eq unat_drop_bit_div pairs_and_fmask)
  have "(unat x AND fmask k m) + (unat x div 2 ^ k AND fmask k m) \<le>
      (unat x AND fmask k m) + 2 ^ k * (unat x div 2 ^ k AND fmask k m)" by simp
  also have "\<dots> = unat x"
    by (rule split_fmask [symmetric]) (use assms unat_lt [of x] in simp_all)
  finally have "pairs k m (unat x) < 2 ^ LENGTH('a)"
    using assms(1) unat_lt [of x] by (simp add: pairs_and_fmask le_less_trans)
  then show ?thesis using e by (simp add: unat_add_mod)
qed

lemma unat_pairs_first:
  fixes x c :: "'a::len word"
  assumes "unat c = fmask 1 m" "2 * m = LENGTH('a)"
  shows "unat (x - (drop_bit 1 x AND c)) = pairs 1 m (unat x)"
proof -
  have s: "unat x = (unat x AND fmask 1 m) + 2 * (unat x div 2 AND fmask 1 m)"
    using split_fmask [of 1 "unat x" m] assms(2) unat_lt [of x] by simp
  have u: "unat (drop_bit 1 x AND c) = (unat x div 2 AND fmask 1 m)"
    using assms(1) by (simp add: unat_and_eq unat_drop_bit_div)
  have "unat (x - (drop_bit 1 x AND c)) = unat x - (unat x div 2 AND fmask 1 m)"
    using s u by (simp add: unat_sub_if')
  then show ?thesis using s by (simp add: pairs_and_fmask)
qed

lemma unat_pairs_mask:
  fixes x c :: "'a::len word"
  assumes "0 < k" "unat c = fmask k m" "2 * k * m = LENGTH('a)" "2 * b < 2 ^ k" "fields_le b k (2 * m) (unat x)"
  shows "unat ((x + drop_bit k x) AND c) = pairs k m (unat x)"
proof -
  have "unat ((x + drop_bit k x) AND c) = (unat x + unat x div 2 ^ k) mod 2 ^ LENGTH('a) AND fmask k m"
    using assms(2) by (simp add: unat_and_eq unat_add_mod unat_drop_bit_div)
  also have "\<dots> = take_bit LENGTH('a) ((unat x + unat x div 2 ^ k) AND fmask k m)"
    using fmask_less [OF assms(1), of m] assms(3)
    by (simp add: take_bit_eq_mod [symmetric] take_bit_and take_bit_nat_eq_self)
  also have "\<dots> = take_bit LENGTH('a) (pairs k m (unat x))"
    using add_then_mask [OF assms(1,4,5)] assms(3) unat_lt [of x] by simp
  also have "\<dots> = unat ((drop_bit k x AND c) + (x AND c))"
    using unat_pairs_step [OF assms(1-3), of x] by (metis take_bit_nat_eq_self unat_lt)
  finally show ?thesis using unat_pairs_step [OF assms(1-3), of x] by simp
qed

lemma popcount_stages:
  fixes x c1 c2 c4 :: "'a::len word"
  assumes len: "LENGTH('a) = 8 * n"
    and c: "unat c1 = fmask 1 (4 * n)" "unat c2 = fmask 2 (2 * n)" "unat c4 = fmask 4 n"
    and x: "x1 = x - (drop_bit 1 x AND c1)" "x2 = (drop_bit 2 x1 AND c2) + (x1 AND c2)"
      "x3 = (x2 + drop_bit 4 x2) AND c4"
  shows "fsum 8 n (unat x3) = pop (unat x)" "fields_le 8 8 n (unat x3)"
proof -
  have u1: "unat x1 = pairs 1 (4 * n) (unat x)"
    unfolding x by (rule unat_pairs_first) (use len c in simp_all)
  have u2: "unat x2 = pairs 2 (2 * n) (unat x1)"
    unfolding x(2) by (rule unat_pairs_step) (use len c in simp_all)
  have f1: "fields_le 2 2 (4 * n) (unat x1)"
    using fields_le_pairs [of 1 1 "4 * n" "unat x"] fields_le_1 by (simp add: u1)
  then have f2: "fields_le 4 4 (2 * n) (unat x2)"
    using fields_le_pairs [of 2 2 "2 * n" "unat x1"] by (simp add: u2)
  have u3: "unat x3 = pairs 4 n (unat x2)"
    unfolding x(3) by (rule unat_pairs_mask [where b = 4]) (use len c f2 in simp_all)
  show "fields_le 8 8 n (unat x3)"
    using fields_le_pairs [of 4 4 n "unat x2"] f2 by (simp add: u3)
  have "fsum 8 n (unat x3) = fsum 4 (2 * n) (unat x2)" using fsum_pairs [of 4 n] by (simp add: u3)
  also have "\<dots> = fsum 2 (4 * n) (unat x1)" using fsum_pairs [of 2 "2 * n"] by (simp add: u2)
  also have "\<dots> = fsum 1 (8 * n) (unat x)" using fsum_pairs [of 1 "4 * n"] by (simp add: u1)
  also have "\<dots> = pop (unat x)" by (rule fsum_1_pop) (use len unat_lt [of x] in simp)
  finally show "fsum 8 n (unat x3) = pop (unat x)" .
qed

text \<open>The last two foldings, on the 32-bit word with four byte sums.\<close>

lemma popcount_tail:
  fixes x :: su_int
  assumes "fields_le b 8 4 (unat x)" "4 * b < 2 ^ 8" "fsum 8 4 (unat x) < 2 ^ j" "j \<le> 8"
    "unat c = 2 ^ j - 1" "y = x + drop_bit 16 x"
  shows "unat ((y + drop_bit 8 y) AND c) = fsum 8 4 (unat x)"
proof -
  have uy: "unat y = (unat x + unat x div 2 ^ 16) mod 2 ^ 32"
    using assms(6) by (simp add: unat_add_mod unat_drop_bit_div)
  have a: "fsum 8 2 (unat y) = fsum 8 4 (unat x)"
    using fold_fields(1) [of b 8 2 "unat x"] assms(1,2) fsum_mod [of 8 2 32 "unat x + unat x div 2 ^ 16"]
    by (simp add: uy)
  have b: "fields_le (2 * b) 8 2 (unat y)"
    using fold_fields(2) [of b 8 2 "unat x"] assms(1,2)
      fields_le_mod [of 8 2 32 "2 * b" "unat x + unat x div 2 ^ 16"]
    by (simp add: uy)
  define z where "z = unat y + unat y div 2 ^ 8"
  have z: "z mod 2 ^ 8 = fsum 8 4 (unat x)"
    using fold_fields(1) [of "2 * b" 8 1 "unat y"] a b assms(2) by (simp add: z_def numeral_2_eq_2)
  have j: "j \<le> 32" "j \<le> 8" using assms(4) by simp_all
  have "unat ((y + drop_bit 8 y) AND c) = z mod 2 ^ 32 AND (2 ^ j - 1)"
    using assms(5) by (simp add: z_def unat_and_eq unat_add_mod unat_drop_bit_div)
  also have "\<dots> = z mod 2 ^ 32 mod 2 ^ j" by (rule nat_and_mask)
  also have "\<dots> = z mod 2 ^ 8 mod 2 ^ j"
    by (simp only: mod_mod_cancel [OF le_imp_power_dvd [OF j(1)]] mod_mod_cancel [OF le_imp_power_dvd [OF j(2)]])
  finally show ?thesis using z assms(3) by simp
qed

lemma fsum_bound: "fields_le b k m x \<Longrightarrow> fsum k m x \<le> b * m"
  by (induction m arbitrary: x) (simp, fastforce intro: add_mono)

lemma pop_bound: "n < 2 ^ k \<Longrightarrow> pop n \<le> k"
proof -
  assume "n < 2 ^ k"
  then have "pop n = card {i. i < k \<and> bit n i}" by (rule pop_card_bits)
  also have "\<dots> \<le> card {i. i < k}" by (rule card_mono) auto
  finally show ?thesis by simp
qed

lemma fmask_closed: "fmask k m = (2 ^ (2 * k * m) - 1) div (2 ^ k + 1)"
proof -
  have "fmask k m * (2 ^ k + 1) + 1 = 2 ^ (2 * k * m)"
  proof (induction m)
    case (Suc m)
    have "2 ^ k - 1 + 1 = (2 ^ k :: nat)" by simp
    then have *: "(2 ^ k - 1) * (2 ^ k + 1) + 1 = (2 ^ (2 * k) :: nat)"
      by (cases "2 ^ k :: nat") (simp_all add: mult_2 power_add)
    have "fmask k (Suc m) * (2 ^ k + 1) + 1 =
        ((2 ^ k - 1) * (2 ^ k + 1) + 1) + 2 ^ (2 * k) * (fmask k m * (2 ^ k + 1))"
      by (simp only: fmask.simps add_mult_distrib)
    also have "\<dots> = 2 ^ (2 * k) * (fmask k m * (2 ^ k + 1) + 1)" unfolding * by simp
    also have "\<dots> = 2 ^ (2 * k * Suc m)" unfolding Suc.IH by (simp add: power_add [symmetric])
    finally show ?case .
  qed simp
  then have "2 ^ (2 * k * m) - 1 = fmask k m * (2 ^ k + 1)" by simp
  then show ?thesis by (simp only: nonzero_mult_div_cancel_right)
qed

theorem unat_popcountsi2: "unat (popcountsi2 a) = pop (unat a)"
proof -
  define x1 where "x1 = a - (drop_bit 1 a AND 0x55555555)"
  define x2 where "x2 = (drop_bit 2 x1 AND 0x33333333) + (x1 AND 0x33333333)"
  define x3 where "x3 = (x2 + drop_bit 4 x2) AND 0x0F0F0F0F"
  have s: "fsum 8 4 (unat x3) = pop (unat a)" "fields_le 8 8 4 (unat x3)"
    by (rule popcount_stages [OF _ _ _ _ x1_def x2_def x3_def]; simp add: fmask_closed)+
  have "popcountsi2 a = ((x3 + drop_bit 16 x3) + drop_bit 8 (x3 + drop_bit 16 x3)) AND 0x3F"
    unfolding popcountsi2_def Let_def x1_def x2_def x3_def by (rule refl)
  moreover have "pop (unat a) < 2 ^ 6" using pop_bound [of "unat a" 32] unat_lt [of a] by simp
  ultimately show ?thesis
    using popcount_tail [of 8 x3 6 "0x3F", OF s(2) _ _ _ _ refl] s(1) by simp
qed

text \<open>Folding a word onto its lower half and truncating to it.\<close>

lemma unat_fold_half:
  fixes x :: "'a::len word"
  assumes "LENGTH('a) = 2 * (8 * n)" "LENGTH('b::len) = 8 * n" "2 * b < 2 ^ 8" "fields_le b 8 (2 * n) (unat x)"
  shows "fsum 8 n (unat (ucast (x + drop_bit (8 * n) x) :: 'b word)) = fsum 8 (2 * n) (unat x)"
    "fields_le (2 * b) 8 n (unat (ucast (x + drop_bit (8 * n) x) :: 'b word))"
proof -
  have u: "unat (ucast (x + drop_bit (8 * n) x) :: 'b word) = (unat x + unat x div 2 ^ (8 * n)) mod 2 ^ (8 * n)"
  proof -
    have "unat (x + drop_bit (8 * n) x) = (unat x + unat x div 2 ^ (8 * n)) mod 2 ^ (2 * (8 * n))"
      using assms(1) by (simp only: unat_add_mod unat_drop_bit_div)
    moreover have "(2 ^ (8 * n) :: nat) dvd 2 ^ (2 * (8 * n))" by (rule le_imp_power_dvd) simp
    ultimately show ?thesis using assms(2) by (simp only: unat_ucast_mod mod_mod_cancel)
  qed
  show "fsum 8 n (unat (ucast (x + drop_bit (8 * n) x) :: 'b word)) = fsum 8 (2 * n) (unat x)"
    unfolding u using fold_fields(1) [of b 8 n "unat x"] assms(3,4) by (simp add: fsum_mod mult_2)
  show "fields_le (2 * b) 8 n (unat (ucast (x + drop_bit (8 * n) x) :: 'b word))"
    unfolding u using fold_fields(2) [of b 8 n "unat x"] assms(3,4) by (simp add: fields_le_mod mult_2)
qed

theorem unat_popcountdi2: "unat (popcountdi2 a) = pop (unat a)"
proof -
  define x1 where "x1 = a - (drop_bit 1 a AND 0x5555555555555555)"
  define x2 where "x2 = (drop_bit 2 x1 AND 0x3333333333333333) + (x1 AND 0x3333333333333333)"
  define x3 where "x3 = (x2 + drop_bit 4 x2) AND 0x0F0F0F0F0F0F0F0F"
  define x where "x = (ucast (x3 + drop_bit 32 x3) :: su_int)"
  have s: "fsum 8 8 (unat x3) = pop (unat a)" "fields_le 8 8 8 (unat x3)"
    by (rule popcount_stages [OF _ _ _ _ x1_def x2_def x3_def]; simp add: fmask_closed)+
  have f: "fsum 8 4 (unat x) = pop (unat a)" "fields_le 16 8 4 (unat x)"
    using unat_fold_half [where n = 4 and b = 8 and x = x3 and 'b = 32] s by (simp_all add: x_def)
  have "popcountdi2 a = ((x + drop_bit 16 x) + drop_bit 8 (x + drop_bit 16 x)) AND 0x7F"
    unfolding popcountdi2_def Let_def x1_def x2_def x3_def x_def by (rule refl)
  moreover have "pop (unat a) < 2 ^ 7" using pop_bound [of "unat a" 64] unat_lt [of a] by simp
  ultimately show ?thesis
    using popcount_tail [of 16 x 7 "0x7F", OF f(2) _ _ _ _ refl] f(1) by simp
qed

theorem unat_popcountti2: "unat (popcountti2 a) = pop (unat a)"
proof -
  let ?c = "\<lambda>c :: tu_int. push_bit 64 c OR c"
  define x1 where "x1 = a - (drop_bit 1 a AND ?c 0x5555555555555555)"
  define x2 where "x2 = (drop_bit 2 x1 AND ?c 0x3333333333333333) + (x1 AND ?c 0x3333333333333333)"
  define x3 where "x3 = (x2 + drop_bit 4 x2) AND ?c 0x0F0F0F0F0F0F0F0F"
  define y where "y = (ucast (x3 + drop_bit 64 x3) :: du_int)"
  define x where "x = (ucast (y + drop_bit 32 y) :: su_int)"
  have s: "fsum 8 16 (unat x3) = pop (unat a)" "fields_le 8 8 16 (unat x3)"
    by (rule popcount_stages [OF _ _ _ _ x1_def x2_def x3_def]; simp add: fmask_closed)+
  have h: "fsum 8 8 (unat y) = pop (unat a)" "fields_le 16 8 8 (unat y)"
    using unat_fold_half [where n = 8 and b = 8 and x = x3 and 'b = 64] s by (simp_all add: y_def)
  have f: "fsum 8 4 (unat x) = pop (unat a)" "fields_le 32 8 4 (unat x)"
    using unat_fold_half [where n = 4 and b = 16 and x = y and 'b = 32] h by (simp_all add: x_def)
  have "popcountti2 a = ((x + drop_bit 16 x) + drop_bit 8 (x + drop_bit 16 x)) AND 0xFF"
    unfolding popcountti2_def Let_def x1_def x2_def x3_def y_def x_def by (rule refl)
  moreover have "pop (unat a) < 2 ^ 8" using pop_bound [of "unat a" 128] unat_lt [of a] by simp
  ultimately show ?thesis
    using popcount_tail [of 32 x 8 "0xFF", OF f(2) _ _ _ _ refl] f(1) by simp
qed

section \<open>Parity\<close>

definition paritysi2 :: "si_int \<Rightarrow> si_int" where
  "paritysi2 a =
    (let x = a;
         x = x XOR drop_bit 16 x;
         x = x XOR drop_bit 8 x;
         x = x XOR drop_bit 4 x
     in drop_bit (unat (x AND 0xF)) 0x6996 AND 1)"

definition paritydi2 :: "di_int \<Rightarrow> si_int" where
  "paritydi2 a =
    (let x = (of_all a :: si_int halves);
         x2 = high x XOR low x;
         x2 = x2 XOR drop_bit 16 x2;
         x2 = x2 XOR drop_bit 8 x2;
         x2 = x2 XOR drop_bit 4 x2
     in drop_bit (unat (x2 AND 0xF)) 0x6996 AND 1)"

definition parityti2 :: "ti_int \<Rightarrow> si_int" where
  "parityti2 a =
    (let x = (of_all a :: di_int halves);
         x2 = (of_all (high x XOR low x) :: si_int halves);
         x3 = high x2 XOR low x2;
         x3 = x3 XOR drop_bit 16 x3;
         x3 = x3 XOR drop_bit 8 x3;
         x3 = x3 XOR drop_bit 4 x3
     in drop_bit (unat (x3 AND 0xF)) 0x6996 AND 1)"

lemma odd_pop_xor: "odd (pop (a XOR b)) \<longleftrightarrow> odd (pop a) \<noteq> odd (pop b)"
proof (induction a arbitrary: b rule: less_induct)
  case (less a)
  have r: "odd (pop n) \<longleftrightarrow> odd n \<noteq> odd (pop (n div 2))" for n
    by (subst pop_rec) (auto simp: even_add)
  have x: "(a XOR b) div 2 = (a div 2) XOR (b div 2)" "odd (a XOR b) \<longleftrightarrow> odd a \<noteq> odd b"
    by (simp_all add: drop_bit_Suc [of 0, simplified, symmetric] drop_bit_xor bit_0 [symmetric] bit_xor_iff)
  show ?case
  proof (cases "a = 0")
    case False
    then have "odd (pop ((a div 2) XOR (b div 2))) \<longleftrightarrow> odd (pop (a div 2)) \<noteq> odd (pop (b div 2))"
      by (intro less) simp
    then show ?thesis using r [of a] r [of b] r [of "a XOR b"] x by auto
  qed simp
qed

lemma parity_fold:
  "odd (pop ((n XOR n div 2 ^ k) mod 2 ^ k)) \<longleftrightarrow> odd (pop (n mod 2 ^ (k + k)))"
proof -
  have "(n XOR n div 2 ^ k) mod 2 ^ k = (n mod 2 ^ k) XOR (n div 2 ^ k mod 2 ^ k)"
    by (simp add: take_bit_eq_mod [symmetric] take_bit_xor)
  moreover have "pop (n mod 2 ^ (k + k)) = pop (n mod 2 ^ k) + pop (n div 2 ^ k mod 2 ^ k)"
    by (subst pop_split [of _ k]) (simp add: mod_exp_div mod_mod_cancel le_imp_power_dvd)
  ultimately show ?thesis by (simp add: odd_pop_xor)
qed

lemma parity_table: "t < 16 \<Longrightarrow> unat (drop_bit t 0x6996 AND 1 :: si_int) = of_bool (odd (pop t))"
proof -
  have "\<forall>t \<in> set [0..<16]. unat (drop_bit t 0x6996 AND 1 :: si_int) = of_bool (odd (pop t))"
    by code_simp
  then show "t < 16 \<Longrightarrow> ?thesis" by simp
qed

lemma parity_tail:
  fixes x :: su_int
  assumes "y = x XOR drop_bit 16 x" "z = y XOR drop_bit 8 y" "w = z XOR drop_bit 4 z"
  shows "unat (drop_bit (unat (w AND 0xF)) 0x6996 AND 1 :: si_int) = of_bool (odd (pop (unat x)))"
proof -
  have "w AND 0xF = take_bit 4 w" by (simp add: take_bit_eq_mask mask_numeral)
  then have w: "unat (w AND 0xF) = unat w mod 2 ^ 4" by (simp add: unat_take_bit_mod)
  have u: "unat y = (unat x XOR unat x div 2 ^ 16)" "unat z = (unat y XOR unat y div 2 ^ 8)"
    "unat w = (unat z XOR unat z div 2 ^ 4)"
    by (simp_all only: assms unat_xor_eq unat_drop_bit_div)
  have "odd (pop (unat w mod 2 ^ 4)) \<longleftrightarrow> odd (pop (unat x mod 2 ^ 32))"
    using parity_fold [of "unat x" 16, folded u(1)] parity_fold [of "unat y" 8, folded u(2)]
      parity_fold [of "unat z" 4, folded u(3)] by simp
  moreover have "unat x mod 2 ^ 32 = unat x" using unat_lt [of x] by simp
  ultimately show ?thesis using parity_table [of "unat w mod 2 ^ 4"] by (simp add: w)
qed

lemma parity_halves:
  assumes "LENGTH('d) = 2 * LENGTH('h)" "x = (of_all (a :: 'd::len word) :: 'h::len word halves)"
  shows "odd (pop (unat (high x XOR low x))) \<longleftrightarrow> odd (pop (unat a))"
  using assms unat_eq_halves [OF assms(1), of a] pop_split [of "unat a" "LENGTH('h)"]
  by (auto simp add: unat_xor_eq odd_pop_xor unat_low unat_high)

theorem unat_paritysi2: "unat (paritysi2 a) = of_bool (odd (pop (unat a)))"
  unfolding paritysi2_def Let_def by (rule parity_tail [OF refl refl refl])

theorem unat_paritydi2: "unat (paritydi2 a) = of_bool (odd (pop (unat a)))"
  unfolding paritydi2_def Let_def
  by (subst parity_tail [OF refl refl refl], subst parity_halves [OF _ refl]) simp_all

theorem unat_parityti2: "unat (parityti2 a) = of_bool (odd (pop (unat a)))"
  unfolding parityti2_def Let_def
  by (subst parity_tail [OF refl refl refl], subst parity_halves [OF _ refl], simp,
      subst parity_halves [OF _ refl]) simp_all

section \<open>Byte swap\<close>

definition bswapsi2 :: "su_int \<Rightarrow> su_int" where
  "bswapsi2 u =
    (drop_bit 24 (u AND 0xff000000)) OR
    (drop_bit 8 (u AND 0x00ff0000)) OR
    (push_bit 8 (u AND 0x0000ff00)) OR
    (push_bit 24 (u AND 0x000000ff))"

definition bswapdi2 :: "du_int \<Rightarrow> du_int" where
  "bswapdi2 u =
    (drop_bit 56 (u AND 0xff00000000000000)) OR
    (drop_bit 40 (u AND 0x00ff000000000000)) OR
    (drop_bit 24 (u AND 0x0000ff0000000000)) OR
    (drop_bit 8 (u AND 0x000000ff00000000)) OR
    (push_bit 8 (u AND 0x00000000ff000000)) OR
    (push_bit 24 (u AND 0x0000000000ff0000)) OR
    (push_bit 40 (u AND 0x000000000000ff00)) OR
    (push_bit 56 (u AND 0x00000000000000ff))"

text \<open>Bit \<open>j\<close> of byte \<open>i\<close> goes to bit \<open>j\<close> of byte \<open>N - 1 - i\<close>.\<close>

lemma bit_and_byte:
  fixes u :: "'a::len word"
  shows "bit (u AND push_bit k (mask 8)) n \<longleftrightarrow> k \<le> n \<and> n < k + 8 \<and> bit u n"
  using bit_imp_le_length [of u n] by (auto simp: bit_simps)

lemma byte_masks:
  "(0xff :: 'a::len word) = push_bit 0 (mask 8)" "(0xff00 :: 'a word) = push_bit 8 (mask 8)"
  "(0xff0000 :: 'a word) = push_bit 16 (mask 8)" "(0xff000000 :: 'a word) = push_bit 24 (mask 8)"
  "(0xff00000000 :: 'a word) = push_bit 32 (mask 8)" "(0xff0000000000 :: 'a word) = push_bit 40 (mask 8)"
  "(0xff000000000000 :: 'a word) = push_bit 48 (mask 8)" "(0xff00000000000000 :: 'a word) = push_bit 56 (mask 8)"
  by (simp_all only: push_bit_eq_mult mask_numeral power_numeral) (simp_all add: mask_eq_exp_minus_1)

lemma byte_cases:
  fixes n :: nat
  obtains q r where "n = r + 8 * q" "r < 8" "n div 8 = q" "n mod 8 = r"
  by (metis add.commute mod_less_divisor mult_div_mod_eq zero_less_numeral)

lemma bit_bswapsi2: "bit (bswapsi2 u) n \<longleftrightarrow> n < 32 \<and> bit u (8 * (3 - n div 8) + n mod 8)"
proof (cases "n < 32")
  case True
  obtain q r where n: "n = r + 8 * q" "r < 8" "n div 8 = q" "n mod 8 = r" by (rule byte_cases)
  with True have "q = 0 \<or> q = 1 \<or> q = 2 \<or> q = 3" by auto
  then show ?thesis
    unfolding n(3,4) bswapsi2_def byte_masks bit_or_iff bit_push_bit_iff bit_drop_bit_eq o_def bit_and_byte
    using n(1,2) True by (elim disjE) (simp_all add: add.commute)
next
  case False
  then show ?thesis using bit_imp_le_length [of "bswapsi2 u" n] by auto
qed

lemma bit_bswapdi2: "bit (bswapdi2 u) n \<longleftrightarrow> n < 64 \<and> bit u (8 * (7 - n div 8) + n mod 8)"
proof (cases "n < 64")
  case True
  obtain q r where n: "n = r + 8 * q" "r < 8" "n div 8 = q" "n mod 8 = r" by (rule byte_cases)
  with True have "q = 0 \<or> q = 1 \<or> q = 2 \<or> q = 3 \<or> q = 4 \<or> q = 5 \<or> q = 6 \<or> q = 7" by auto
  then show ?thesis
    unfolding n(3,4) bswapdi2_def byte_masks bit_or_iff bit_push_bit_iff bit_drop_bit_eq o_def bit_and_byte
    using n(1,2) True by (elim disjE) (simp_all add: add.commute)
next
  case False
  then show ?thesis using bit_imp_le_length [of "bswapdi2 u" n] by auto
qed

theorem bswap_involution: "bswapsi2 (bswapsi2 u) = u" "bswapdi2 (bswapdi2 v) = v"
proof -
  have "8 * (3 - (3 - n div 8)) + n mod 8 = n" if "n < 32" for n :: nat
  proof -
    have "n div 8 \<le> 3" using that by auto
    then show ?thesis by simp
  qed
  then show "bswapsi2 (bswapsi2 u) = u" by (intro bit_word_eqI) (simp add: bit_bswapsi2, auto)
next
  have "8 * (7 - (7 - n div 8)) + n mod 8 = n" if "n < 64" for n :: nat
  proof -
    have "n div 8 \<le> 7" using that by auto
    then show ?thesis by simp
  qed
  then show "bswapdi2 (bswapdi2 v) = v" by (intro bit_word_eqI) (simp add: bit_bswapdi2, auto)
qed

end
