(* ===== verification/Int_Shift.thy ===== *)
theory Int_Shift
  imports Int_Types
begin

text \<open>
  The double-width shifts and three-way comparisons: \<open>ashldi3.c\<close>, \<open>ashlti3.c\<close>,
  \<open>ashrdi3.c\<close>, \<open>ashrti3.c\<close>, \<open>lshrdi3.c\<close>, \<open>lshrti3.c\<close>, \<open>cmpdi2.c\<close>,
  \<open>cmpti2.c\<close>, \<open>ucmpdi2.c\<close> and \<open>ucmpti2.c\<close>. Each works on the two halves of its
  operands and is shown to be the operation on the whole word.
\<close>

section \<open>Shifts\<close>

definition ashldi3 :: "di_int \<Rightarrow> si_int \<Rightarrow> di_int" where
  "ashldi3 a b =
    (let bits_in_word = 32 :: si_int;
         input = (of_all a :: si_int halves)
     in if b AND bits_in_word \<noteq> 0
        then all \<lparr>low = 0, high = push_bit (unat (b - bits_in_word)) (low input)\<rparr>
        else if b = 0 then a
        else all \<lparr>low = push_bit (unat b) (low input),
                  high = push_bit (unat b) (high input) OR drop_bit (unat (bits_in_word - b)) (low input)\<rparr>)"

definition ashlti3 :: "ti_int \<Rightarrow> si_int \<Rightarrow> ti_int" where
  "ashlti3 a b =
    (let bits_in_dword = 64 :: si_int;
         input = (of_all a :: di_int halves)
     in if b AND bits_in_dword \<noteq> 0
        then all \<lparr>low = 0, high = push_bit (unat (b - bits_in_dword)) (low input)\<rparr>
        else if b = 0 then a
        else all \<lparr>low = push_bit (unat b) (low input),
                  high = push_bit (unat b) (high input) OR drop_bit (unat (bits_in_dword - b)) (low input)\<rparr>)"

definition ashrdi3 :: "di_int \<Rightarrow> si_int \<Rightarrow> di_int" where
  "ashrdi3 a b =
    (let bits_in_word = 32 :: si_int;
         input = (of_all a :: si_int halves)
     in if b AND bits_in_word \<noteq> 0
        then all \<lparr>low = signed_drop_bit (unat (b - bits_in_word)) (high input),
                  high = signed_drop_bit (unat (bits_in_word - 1)) (high input)\<rparr>
        else if b = 0 then a
        else all \<lparr>low = push_bit (unat (bits_in_word - b)) (high input) OR drop_bit (unat b) (low input),
                  high = signed_drop_bit (unat b) (high input)\<rparr>)"

definition ashrti3 :: "ti_int \<Rightarrow> si_int \<Rightarrow> ti_int" where
  "ashrti3 a b =
    (let bits_in_dword = 64 :: si_int;
         input = (of_all a :: di_int halves)
     in if b AND bits_in_dword \<noteq> 0
        then all \<lparr>low = signed_drop_bit (unat (b - bits_in_dword)) (high input),
                  high = signed_drop_bit (unat (bits_in_dword - 1)) (high input)\<rparr>
        else if b = 0 then a
        else all \<lparr>low = push_bit (unat (bits_in_dword - b)) (high input) OR drop_bit (unat b) (low input),
                  high = signed_drop_bit (unat b) (high input)\<rparr>)"

definition lshrdi3 :: "di_int \<Rightarrow> si_int \<Rightarrow> di_int" where
  "lshrdi3 a b =
    (let bits_in_word = 32 :: si_int;
         input = (of_all a :: su_int halves)
     in if b AND bits_in_word \<noteq> 0
        then all \<lparr>low = drop_bit (unat (b - bits_in_word)) (high input), high = 0\<rparr>
        else if b = 0 then a
        else all \<lparr>low = push_bit (unat (bits_in_word - b)) (high input) OR drop_bit (unat b) (low input),
                  high = drop_bit (unat b) (high input)\<rparr>)"

definition lshrti3 :: "ti_int \<Rightarrow> si_int \<Rightarrow> ti_int" where
  "lshrti3 a b =
    (let bits_in_dword = 64 :: si_int;
         input = (of_all a :: du_int halves)
     in if b AND bits_in_dword \<noteq> 0
        then all \<lparr>low = drop_bit (unat (b - bits_in_dword)) (high input), high = 0\<rparr>
        else if b = 0 then a
        else all \<lparr>low = push_bit (unat (bits_in_dword - b)) (high input) OR drop_bit (unat b) (low input),
                  high = drop_bit (unat b) (high input)\<rparr>)"

text \<open>The bits of the halves, from which the shifts on the halves are read off.\<close>

lemma bit_low: "bit (low (of_all (a :: 'd::len word) :: 'h::len word halves)) n \<longleftrightarrow> n < LENGTH('h) \<and> bit a n"
  using bit_imp_le_length [of a n] by (auto simp: of_all_def bit_simps)

lemma bit_high:
  "bit (high (of_all (a :: 'd::len word) :: 'h::len word halves)) n \<longleftrightarrow> n < LENGTH('h) \<and> bit a (LENGTH('h) + n)"
  using bit_imp_le_length [of a "LENGTH('h) + n"] by (auto simp: of_all_def bit_simps)

lemma bit_all:
  "bit (all (h :: 'h::len word halves) :: 'd::len word) n \<longleftrightarrow>
    n < LENGTH('d) \<and> (if n < LENGTH('h) then bit (low h) n else bit (high h) (n - LENGTH('h)))"
  using bit_imp_le_length [of "low h" n] by (auto simp: all_def bit_simps)

lemmas halves_bits = bit_low bit_high bit_all bit_or_iff bit_push_bit_iff bit_drop_bit_eq o_def
  bit_signed_drop_bit_iff bit_0_eq

lemma ashl_halves:
  fixes a :: "'d::len word" and x :: "'h::len word halves"
  assumes "LENGTH('d) = 2 * LENGTH('h)" "x = of_all a"
  shows "LENGTH('h) \<le> k \<Longrightarrow> all \<lparr>low = 0, high = push_bit (k - LENGTH('h)) (low x)\<rparr> = push_bit k a"
    "0 < k \<Longrightarrow> k < LENGTH('h) \<Longrightarrow>
      all \<lparr>low = push_bit k (low x), high = push_bit k (high x) OR drop_bit (LENGTH('h) - k) (low x)\<rparr> = push_bit k a"
  unfolding assms(2) by (rule bit_word_eqI; auto simp: halves_bits assms(1))+

lemma lshr_halves:
  fixes a :: "'d::len word" and x :: "'h::len word halves"
  assumes "LENGTH('d) = 2 * LENGTH('h)" "x = of_all a"
  shows "LENGTH('h) \<le> k \<Longrightarrow> all \<lparr>low = drop_bit (k - LENGTH('h)) (high x), high = 0\<rparr> = drop_bit k a"
    "0 < k \<Longrightarrow> k < LENGTH('h) \<Longrightarrow>
      all \<lparr>low = push_bit (LENGTH('h) - k) (high x) OR drop_bit k (low x), high = drop_bit k (high x)\<rparr> = drop_bit k a"
  unfolding assms(2) by (rule bit_word_eqI; auto simp: halves_bits assms(1) add.commute dest: bit_imp_le_length)+

lemma top_bit_high:
  assumes "LENGTH('d) = 2 * LENGTH('h)" "x = (of_all (a :: 'd::len word) :: 'h::len word halves)"
  shows "bit (high x) (LENGTH('h) - 1) \<longleftrightarrow> bit a (LENGTH('d) - 1)"
proof -
  have "LENGTH('h) + (LENGTH('h) - 1) = LENGTH('d) - 1" using assms(1) by (simp add: mult_2)
  then show ?thesis using assms(2) by (simp add: bit_high)
qed

lemma ashr_halves:
  fixes a :: "'d::len word" and x :: "'h::len word halves"
  assumes "LENGTH('d) = 2 * LENGTH('h)" "x = of_all a"
  shows "LENGTH('h) \<le> k \<Longrightarrow> k < LENGTH('d) \<Longrightarrow>
      all \<lparr>low = signed_drop_bit (k - LENGTH('h)) (high x), high = signed_drop_bit (LENGTH('h) - 1) (high x)\<rparr> =
      signed_drop_bit k a"
    "0 < k \<Longrightarrow> k < LENGTH('h) \<Longrightarrow>
      all \<lparr>low = push_bit (LENGTH('h) - k) (high x) OR drop_bit k (low x), high = signed_drop_bit k (high x)\<rparr> =
      signed_drop_bit k a"
proof -
  define t where "t = signed_drop_bit (LENGTH('h) - 1) (high x)"
  have t: "bit t n \<longleftrightarrow> n < LENGTH('h) \<and> bit a (LENGTH('d) - 1)" for n
    unfolding t_def sign_mask_eq top_bit_high [OF assms, symmetric] bit_last_iff [symmetric] by simp
  show "all \<lparr>low = signed_drop_bit (k - LENGTH('h)) (high x), high = t\<rparr> = signed_drop_bit k a"
    if "LENGTH('h) \<le> k" "k < LENGTH('d)"
    unfolding assms(2) using that by (intro bit_word_eqI) (auto simp: halves_bits t assms(1) mult_2)
  show "all \<lparr>low = push_bit (LENGTH('h) - k) (high x) OR drop_bit k (low x), high = signed_drop_bit k (high x)\<rparr> =
      signed_drop_bit k a" if "0 < k" "k < LENGTH('h)"
    unfolding assms(2) using that
    by (intro bit_word_eqI) (auto simp: halves_bits assms(1) mult_2 add.commute)
qed

lemma and_exp_neq_0:
  fixes b :: "'a::len word"
  assumes "unat b < 2 ^ Suc k"
  shows "b AND push_bit k 1 \<noteq> 0 \<longleftrightarrow> 2 ^ k \<le> unat b"
proof -
  have "b AND push_bit k 1 \<noteq> 0 \<longleftrightarrow> bit b k" by (simp only: bit_iff_and_push_bit_not_eq_0)
  also have "\<dots> \<longleftrightarrow> bit (unat b) k" using bit_imp_le_length [of b k] by (auto simp: bit_simps)
  finally show ?thesis using nat_bit_top [OF assms] by simp
qed

lemma shift_amount:
  fixes b :: si_int
  shows "unat b < 64 \<Longrightarrow> b AND 32 \<noteq> 0 \<longleftrightarrow> 32 \<le> unat b" "unat b < 128 \<Longrightarrow> b AND 64 \<noteq> 0 \<longleftrightarrow> 64 \<le> unat b"
    "n \<le> unat b \<Longrightarrow> unat (b - of_nat n) = unat b - n"
    "unat b \<le> n \<Longrightarrow> n < 2 ^ 32 \<Longrightarrow> unat (of_nat n - b) = n - unat b"
    "b = 0 \<longleftrightarrow> unat b = 0"
  using and_exp_neq_0 [of b 5] and_exp_neq_0 [of b 6] unat_lt [of b]
  by (simp_all add: unat_sub_if' unat_of_nat unat_eq_zero)

lemmas shift_simps = Let_def shift_amount(1,2) shift_amount(3) [of 32, simplified] shift_amount(3) [of 64, simplified]
  shift_amount(4) [of _ 32, simplified] shift_amount(4) [of _ 64, simplified] word_neq_0_conv [symmetric]

lemma ashldi3_eq: "unat b < 64 \<Longrightarrow> ashldi3 a b = push_bit (unat b) a"
  using ashl_halves [OF _ refl, where 'h = 32 and a = a and k = "unat b"]
  by (cases "b = 0"; cases "32 \<le> unat b") (simp_all add: ashldi3_def shift_simps unat_gt_0)

lemma ashlti3_eq: "unat b < 128 \<Longrightarrow> ashlti3 a b = push_bit (unat b) a"
  using ashl_halves [OF _ refl, where 'h = 64 and a = a and k = "unat b"]
  by (cases "b = 0"; cases "64 \<le> unat b") (simp_all add: ashlti3_def shift_simps unat_gt_0)

lemma lshrdi3_eq: "unat b < 64 \<Longrightarrow> lshrdi3 a b = drop_bit (unat b) a"
  using lshr_halves [OF _ refl, where 'h = 32 and a = a and k = "unat b"]
  by (cases "b = 0"; cases "32 \<le> unat b") (simp_all add: lshrdi3_def shift_simps unat_gt_0)

lemma lshrti3_eq: "unat b < 128 \<Longrightarrow> lshrti3 a b = drop_bit (unat b) a"
  using lshr_halves [OF _ refl, where 'h = 64 and a = a and k = "unat b"]
  by (cases "b = 0"; cases "64 \<le> unat b") (simp_all add: lshrti3_def shift_simps unat_gt_0)

lemma ashrdi3_eq: "unat b < 64 \<Longrightarrow> ashrdi3 a b = signed_drop_bit (unat b) a"
  using ashr_halves [OF _ refl, where 'h = 32 and a = a and k = "unat b"]
  by (cases "b = 0"; cases "32 \<le> unat b") (simp_all add: ashrdi3_def shift_simps unat_gt_0)

lemma ashrti3_eq: "unat b < 128 \<Longrightarrow> ashrti3 a b = signed_drop_bit (unat b) a"
  using ashr_halves [OF _ refl, where 'h = 64 and a = a and k = "unat b"]
  by (cases "b = 0"; cases "64 \<le> unat b") (simp_all add: ashrti3_def shift_simps unat_gt_0)

section \<open>Comparisons\<close>

definition cmpdi2 :: "di_int \<Rightarrow> di_int \<Rightarrow> si_int" where
  "cmpdi2 a b =
    (let x = (of_all a :: si_int halves); y = (of_all b :: si_int halves)
     in if high x <s high y then 0
        else if high y <s high x then 2
        else if low x < low y then 0
        else if low y < low x then 2
        else 1)"

definition cmpti2 :: "ti_int \<Rightarrow> ti_int \<Rightarrow> si_int" where
  "cmpti2 a b =
    (let x = (of_all a :: di_int halves); y = (of_all b :: di_int halves)
     in if high x <s high y then 0
        else if high y <s high x then 2
        else if low x < low y then 0
        else if low y < low x then 2
        else 1)"

definition ucmpdi2 :: "du_int \<Rightarrow> du_int \<Rightarrow> si_int" where
  "ucmpdi2 a b =
    (let x = (of_all a :: su_int halves); y = (of_all b :: su_int halves)
     in if high x < high y then 0
        else if high y < high x then 2
        else if low x < low y then 0
        else if low y < low x then 2
        else 1)"

definition ucmpti2 :: "tu_int \<Rightarrow> tu_int \<Rightarrow> si_int" where
  "ucmpti2 a b =
    (let x = (of_all a :: du_int halves); y = (of_all b :: du_int halves)
     in if high x < high y then 0
        else if high y < high x then 2
        else if low x < low y then 0
        else if low y < low x then 2
        else 1)"

definition aeabi_lcmp :: "di_int \<Rightarrow> di_int \<Rightarrow> si_int" where
  "aeabi_lcmp a b = cmpdi2 a b - 1"

definition aeabi_ulcmp :: "di_int \<Rightarrow> di_int \<Rightarrow> si_int" where
  "aeabi_ulcmp a b = ucmpdi2 a b - 1"

text \<open>The three-way result for values of a linear order.\<close>

definition three_way :: "'a::linorder \<Rightarrow> 'a \<Rightarrow> si_int" where
  "three_way x y = (if x < y then 0 else if x = y then 1 else 2)"

lemma lex_less:
  fixes h h' :: int and l l' B :: int
  assumes "0 \<le> l" "l < B" "0 \<le> l'" "l' < B"
  shows "h * B + l < h' * B + l' \<longleftrightarrow> h < h' \<or> h = h' \<and> l < l'"
proof -
  have *: "u * B + m < v * B + n" if "u < v" "m < B" "0 \<le> n" for u v m n
  proof -
    have "u * B + m < (u + 1) * B" using that by (simp add: algebra_simps)
    also have "\<dots> \<le> v * B" using that assms by (intro mult_right_mono) auto
    finally show ?thesis using that by simp
  qed
  show ?thesis using *[of h h' l l'] *[of h' h l' l] assms by (cases h h' rule: linorder_cases) auto
qed

lemma three_way_lex:
  fixes h h' :: int and l l' B :: int
  assumes "0 \<le> l" "l < B" "0 \<le> l'" "l' < B"
  shows "three_way (h * B + l) (h' * B + l') =
    (if h < h' then 0 else if h' < h then 2 else if l < l' then 0 else if l' < l then 2 else 1)"
  unfolding three_way_def
  using lex_less [OF assms, of h h'] lex_less [OF assms(3,4,1,2), of h' h] assms(1,2)
  by (cases h h' rule: linorder_cases; cases l l' rule: linorder_cases) simp_all

lemma uint_halves:
  assumes "LENGTH('d) = 2 * LENGTH('h)" "x = (of_all (a :: 'd::len word) :: 'h::len word halves)"
  shows "uint a = uint (high x) * 2 ^ LENGTH('h) + uint (low x)"
proof -
  have "unat a = unat (high x) * 2 ^ LENGTH('h) + unat (low x)"
    using assms by (simp add: unat_low unat_high div_mult_mod_eq)
  then show ?thesis by (metis of_nat_add of_nat_mult of_nat_numeral of_nat_power uint_nat)
qed

lemma sint_if: "sint (w :: 'a::len word) = (if bit w (LENGTH('a) - 1) then uint w - 2 ^ LENGTH('a) else uint w)"
  using sint_unat [of w] sint_neg_iff [of w] by (auto simp: bit_last_iff not_le)

lemma sint_halves:
  assumes "LENGTH('d) = 2 * LENGTH('h)" "x = (of_all (a :: 'd::len word) :: 'h::len word halves)"
  shows "sint a = sint (high x) * 2 ^ LENGTH('h) + uint (low x)"
proof -
  note top_bit_high [OF assms]
  moreover have "(2 :: int) ^ LENGTH('d) = 2 ^ LENGTH('h) * 2 ^ LENGTH('h)"
    using assms(1) by (simp add: mult_2 power_add)
  ultimately show ?thesis
    using uint_halves [OF assms] by (simp add: sint_if left_diff_distrib)
qed

lemma cmp_halves:
  assumes "LENGTH('d) = 2 * LENGTH('h)"
    and "x = (of_all (a :: 'd::len word) :: 'h::len word halves)" "y = of_all (b :: 'd word)"
  shows "(if high x <s high y then 0 else if high y <s high x then 2
      else if low x < low y then 0 else if low y < low x then 2 else 1) = three_way (sint a) (sint b)"
    and "(if high x < high y then 0 else if high y < high x then 2
      else if low x < low y then 0 else if low y < low x then 2 else 1) = three_way (uint a) (uint b)"
  unfolding sint_halves [OF assms(1,2)] sint_halves [OF assms(1,3)] uint_halves [OF assms(1,2)] uint_halves [OF assms(1,3)]
    word_sless_alt word_less_def
  by (rule three_way_lex [symmetric]; simp)+

lemma cmpdi2_eq: "cmpdi2 a b = three_way (sint a) (sint b)"
  unfolding cmpdi2_def Let_def by (rule cmp_halves(1) [OF _ refl refl]) simp

lemma cmpti2_eq: "cmpti2 a b = three_way (sint a) (sint b)"
  unfolding cmpti2_def Let_def by (rule cmp_halves(1) [OF _ refl refl]) simp

lemma ucmpdi2_eq: "ucmpdi2 a b = three_way (uint a) (uint b)"
  unfolding ucmpdi2_def Let_def by (rule cmp_halves(2) [OF _ refl refl]) simp

lemma ucmpti2_eq: "ucmpti2 a b = three_way (uint a) (uint b)"
  unfolding ucmpti2_def Let_def by (rule cmp_halves(2) [OF _ refl refl]) simp

lemma aeabi_cmp_eq:
  "sint (aeabi_lcmp a b) = sgn (sint a - sint b)" "sint (aeabi_ulcmp a b) = sgn (uint a - uint b)"
  by (auto simp: aeabi_lcmp_def aeabi_ulcmp_def cmpdi2_eq ucmpdi2_eq three_way_def)

end
