(* ===== verification/Int_Arith.thy ===== *)
theory Int_Arith
  imports Int_Shift "HOL-Library.Signed_Division"
begin

text \<open>
  The arithmetic routines: the trapping \<open>absv?i2.c\<close>, \<open>addv?i3.c\<close>, \<open>subv?i3.c\<close>,
  \<open>negv?i2.c\<close> and \<open>mulv?i3.c\<close>, where \<open>None\<close> is the call of \<open>compilerrt_abort\<close>;
  \<open>mulo?i4.c\<close>, which returns the wrapped product and the value stored in
  \<open>*overflow\<close>; \<open>neg?i2.c\<close>; and the double-width products \<open>muldi3.c\<close> and \<open>multi3.c\<close>.
  The files for the three widths have the same text up to the type, so one polymorphic
  definition gives their body. The sources compute with signed types, and where such a
  computation overflows C leaves it undefined: the product \<open>a * b\<close> of \<open>int_mulo_impl.inc\<close> does
  before its flag is set. The model gives these operations the two's complement result that
  the routines mean, so \<open>mulo?i4\<close> returns the wrapped product.
\<close>

text \<open>C's truncating signed division and remainder.\<close>

definition sdiv_c :: "'a::len word \<Rightarrow> 'a word \<Rightarrow> 'a word" where
  "sdiv_c x y = word_of_int (sint x sdiv sint y)"

definition smod_c :: "'a::len word \<Rightarrow> 'a word \<Rightarrow> 'a word" where
  "smod_c x y = word_of_int (sint x smod sint y)"

section \<open>Trapping arithmetic\<close>

definition absvXi2 :: "'a::len word \<Rightarrow> 'a word option" where
  "absvXi2 a =
    (let N = LENGTH('a)
     in if a = push_bit (N - 1) 1 then None
        else let t = signed_drop_bit (N - 1) a in Some ((a XOR t) - t))"

definition addvXi3 :: "'a::len word \<Rightarrow> 'a word \<Rightarrow> 'a word option" where
  "addvXi3 a b =
    (let s = a + b
     in if 0 \<le>s b
        then if s <s a then None else Some s
        else if a \<le>s s then None else Some s)"

definition subvXi3 :: "'a::len word \<Rightarrow> 'a word \<Rightarrow> 'a word option" where
  "subvXi3 a b =
    (let s = a - b
     in if 0 \<le>s b
        then if a <s s then None else Some s
        else if s \<le>s a then None else Some s)"

definition negvXi2 :: "'a::len word \<Rightarrow> 'a word option" where
  "negvXi2 a =
    (let MINv = push_bit (LENGTH('a) - 1) 1
     in if a = MINv then None else Some (- a))"

definition mulvXi3 :: "'a::len word \<Rightarrow> 'a word \<Rightarrow> 'a word option" where
  "mulvXi3 a b =
    (let N = LENGTH('a);
         MINv = push_bit (N - 1) 1;
         MAXv = NOT MINv
     in if a = MINv then (if b = 0 \<or> b = 1 then Some (a * b) else None)
        else if b = MINv then (if a = 0 \<or> a = 1 then Some (a * b) else None)
        else
          let sa = signed_drop_bit (N - 1) a;
              abs_a = (a XOR sa) - sa;
              sb = signed_drop_bit (N - 1) b;
              abs_b = (b XOR sb) - sb
          in if abs_a <s 2 \<or> abs_b <s 2 then Some (a * b)
             else if sa = sb
             then (if sdiv_c MAXv abs_b <s abs_a then None else Some (a * b))
             else (if sdiv_c MINv (- abs_b) <s abs_a then None else Some (a * b)))"

definition muloXi4 :: "'a::len word \<Rightarrow> 'a word \<Rightarrow> 'a word \<times> si_int" where
  "muloXi4 a b =
    (let N = LENGTH('a);
         MINv = push_bit (N - 1) 1;
         MAXv = NOT MINv;
         result = a * b
     in if a = MINv then (if b \<noteq> 0 \<and> b \<noteq> 1 then (result, 1) else (result, 0))
        else if b = MINv then (if a \<noteq> 0 \<and> a \<noteq> 1 then (result, 1) else (result, 0))
        else
          let sa = signed_drop_bit (N - 1) a;
              abs_a = (a XOR sa) - sa;
              sb = signed_drop_bit (N - 1) b;
              abs_b = (b XOR sb) - sb
          in if abs_a <s 2 \<or> abs_b <s 2 then (result, 0)
             else if sa = sb
             then (if sdiv_c MAXv abs_b <s abs_a then (result, 1) else (result, 0))
             else (if sdiv_c MINv (- abs_b) <s abs_a then (result, 1) else (result, 0)))"

definition absvsi2 :: "si_int \<Rightarrow> si_int option" where "absvsi2 = absvXi2"
definition absvdi2 :: "di_int \<Rightarrow> di_int option" where "absvdi2 = absvXi2"
definition absvti2 :: "ti_int \<Rightarrow> ti_int option" where "absvti2 = absvXi2"
definition addvsi3 :: "si_int \<Rightarrow> si_int \<Rightarrow> si_int option" where "addvsi3 = addvXi3"
definition addvdi3 :: "di_int \<Rightarrow> di_int \<Rightarrow> di_int option" where "addvdi3 = addvXi3"
definition addvti3 :: "ti_int \<Rightarrow> ti_int \<Rightarrow> ti_int option" where "addvti3 = addvXi3"
definition subvsi3 :: "si_int \<Rightarrow> si_int \<Rightarrow> si_int option" where "subvsi3 = subvXi3"
definition subvdi3 :: "di_int \<Rightarrow> di_int \<Rightarrow> di_int option" where "subvdi3 = subvXi3"
definition subvti3 :: "ti_int \<Rightarrow> ti_int \<Rightarrow> ti_int option" where "subvti3 = subvXi3"
definition negvsi2 :: "si_int \<Rightarrow> si_int option" where "negvsi2 = negvXi2"
definition negvdi2 :: "di_int \<Rightarrow> di_int option" where "negvdi2 = negvXi2"
definition negvti2 :: "ti_int \<Rightarrow> ti_int option" where "negvti2 = negvXi2"
definition mulvsi3 :: "si_int \<Rightarrow> si_int \<Rightarrow> si_int option" where "mulvsi3 = mulvXi3"
definition mulvdi3 :: "di_int \<Rightarrow> di_int \<Rightarrow> di_int option" where "mulvdi3 = mulvXi3"
definition mulvti3 :: "ti_int \<Rightarrow> ti_int \<Rightarrow> ti_int option" where "mulvti3 = mulvXi3"
definition mulosi4 :: "si_int \<Rightarrow> si_int \<Rightarrow> si_int \<times> si_int" where "mulosi4 = muloXi4"
definition mulodi4 :: "di_int \<Rightarrow> di_int \<Rightarrow> di_int \<times> si_int" where "mulodi4 = muloXi4"
definition muloti4 :: "ti_int \<Rightarrow> ti_int \<Rightarrow> ti_int \<times> si_int" where "muloti4 = muloXi4"
definition negdi2 :: "di_int \<Rightarrow> di_int" where "negdi2 a = - a"
definition negti2 :: "ti_int \<Rightarrow> ti_int" where "negti2 a = - a"

text \<open>
  The contract: the mathematical result as a word when it is representable, and the abort
  when it is not.
\<close>

definition in_srange :: "'a::len itself \<Rightarrow> int \<Rightarrow> bool" where
  "in_srange T k \<longleftrightarrow> - (2 ^ (LENGTH('a) - 1)) \<le> k \<and> k < 2 ^ (LENGTH('a) - 1)"

definition checked :: "int \<Rightarrow> 'a::len word option" where
  "checked k = (if in_srange TYPE('a) k then Some (word_of_int k) else None)"

lemma in_srange_sint [simp]: "in_srange TYPE('a) (sint (w :: 'a::len word))"
  using sint_range [of w] by (simp add: in_srange_def)

lemma sint_in_srange: "in_srange TYPE('a) k \<Longrightarrow> sint (word_of_int k :: 'a::len word) = k"
  by (simp add: in_srange_def sint_of_int_small)

lemma checked_Some: "checked k = Some (w :: 'a::len word) \<longleftrightarrow> sint w = k"
  by (auto simp: checked_def sint_in_srange)

lemma sint_eqI:
  "w = word_of_int k \<Longrightarrow> - (2 ^ (LENGTH('a) - 1)) \<le> k \<Longrightarrow> k < 2 ^ (LENGTH('a) - 1) \<Longrightarrow> sint (w :: 'a::len word) = k"
  by (simp only: sint_of_int_small)

text \<open>A result outside the signed range wraps once, since it is a sum of two representable values.\<close>

lemma sint_wrap:
  fixes w :: "'a::len word"
  assumes "w = word_of_int k" "- (2 ^ LENGTH('a)) \<le> k" "k < 2 ^ LENGTH('a)"
  obtains "sint w = k" "in_srange TYPE('a) k"
  | "sint w = k - 2 ^ LENGTH('a)" "\<not> in_srange TYPE('a) k" "0 \<le> k"
  | "sint w = k + 2 ^ LENGTH('a)" "\<not> in_srange TYPE('a) k" "k < 0"
proof -
  define M :: int where "M = 2 ^ (LENGTH('a) - 1)"
  have B: "2 ^ LENGTH('a) = 2 * M" by (simp add: M_def flip: power_Suc)
  have M: "0 < M" by (simp add: M_def)
  have isr: "in_srange TYPE('a) k \<longleftrightarrow> - M \<le> k \<and> k < M" by (simp add: in_srange_def M_def)
  have s: "sint w = k + j * 2 ^ LENGTH('a)" if "- M \<le> k + j * 2 ^ LENGTH('a)" "k + j * 2 ^ LENGTH('a) < M" for j
    using that assms(1) by (intro sint_eqI) (simp_all add: M_def)
  consider "- M \<le> k \<and> k < M" | "M \<le> k" | "k < - M" by linarith
  then show ?thesis
  proof cases
    case 1
    then show ?thesis using that(1) isr s [of 0] by simp
  next
    case 2
    then show ?thesis using that(2) isr M assms(3) B s [of "-1"] by simp
  next
    case 3
    then show ?thesis using that(3) isr M assms(2) B s [of 1] by simp
  qed
qed

lemma sint_sum_range:
  fixes a b :: "'a::len word"
  shows "- (2 ^ LENGTH('a)) \<le> sint a + sint b" "sint a + sint b < 2 ^ LENGTH('a)"
    "- (2 ^ LENGTH('a)) \<le> sint a - sint b" "sint a - sint b < 2 ^ LENGTH('a)"
    "- (2 ^ LENGTH('a)) < sint a" "sint a < 2 ^ LENGTH('a)" 
proof -
  define M :: int where "M = 2 ^ (LENGTH('a) - 1)"
  have "2 ^ LENGTH('a) = 2 * M" "0 < M" by (simp_all add: M_def flip: power_Suc)
  moreover have "- M \<le> sint w" "sint w < M" for w :: "'a word" using sint_range [of w] by (simp_all add: M_def)
  note this [of a] this [of b]
  ultimately show "- (2 ^ LENGTH('a)) \<le> sint a + sint b" "sint a + sint b < 2 ^ LENGTH('a)"
    "- (2 ^ LENGTH('a)) \<le> sint a - sint b" "sint a - sint b < 2 ^ LENGTH('a)"
    "- (2 ^ LENGTH('a)) < sint a" "sint a < 2 ^ LENGTH('a)" 
    by linarith+
qed

lemma in_srange_sum:
  fixes a b :: "'a::len word"
  shows "\<not> in_srange TYPE('a) (sint a + sint b) \<Longrightarrow> 0 \<le> sint b \<longleftrightarrow> 0 \<le> sint a + sint b"
    "\<not> in_srange TYPE('a) (sint a - sint b) \<Longrightarrow> 0 \<le> sint b \<longleftrightarrow> sint a - sint b < 0"
proof -
  have z: "0 < (2 :: int) ^ (LENGTH('a) - 1)" by simp
  show "\<not> in_srange TYPE('a) (sint a + sint b) \<Longrightarrow> 0 \<le> sint b \<longleftrightarrow> 0 \<le> sint a + sint b"
    using sint_range [of a] sint_range [of b] z unfolding in_srange_def by linarith
  show "\<not> in_srange TYPE('a) (sint a - sint b) \<Longrightarrow> 0 \<le> sint b \<longleftrightarrow> sint a - sint b < 0"
    using sint_range [of a] sint_range [of b] z unfolding in_srange_def by linarith
qed

lemmas trap_simps = Let_def checked_def word_sle_eq word_sless_alt

lemma addvXi3_eq: "addvXi3 a b = checked (sint a + sint b)"
  by (rule sint_wrap [of "a + b" "sint a + sint b", OF _ sint_sum_range(1,2)], simp;
      use sint_sum_range(5,6) [of a] sint_sum_range(5,6) [of b] in_srange_sum(1) [of a b] in
      \<open>simp add: addvXi3_def trap_simps\<close>)

lemma subvXi3_eq: "subvXi3 a b = checked (sint a - sint b)"
  by (rule sint_wrap [of "a - b" "sint a - sint b", OF _ sint_sum_range(3,4)], simp;
      use sint_sum_range(5,6) [of a] sint_sum_range(5,6) [of b] in_srange_sum(2) [of a b] in
      \<open>simp add: subvXi3_def trap_simps\<close>)

text \<open>The most negative value and the absolute value computed with the sign mask.\<close>

lemma sint_MINv: "sint (push_bit (LENGTH('a) - 1) 1 :: 'a::len word) = - (2 ^ (LENGTH('a) - 1))"
proof -
  have "(2 :: nat) ^ (LENGTH('a) - 1) < 2 ^ LENGTH('a)" by simp
  then have "unat (push_bit (LENGTH('a) - 1) 1 :: 'a word) = 2 ^ (LENGTH('a) - 1)"
    by (subst unat_push_bit_small) simp_all
  moreover have "(2 :: int) ^ LENGTH('a) = 2 * 2 ^ (LENGTH('a) - 1)" by (simp flip: power_Suc)
  ultimately show ?thesis by (simp only: sint_unat) simp
qed

lemma eq_MINv_iff: "a = push_bit (LENGTH('a) - 1) 1 \<longleftrightarrow> sint (a :: 'a::len word) = - (2 ^ (LENGTH('a) - 1))"
  using sint_MINv [where 'a = 'a] by (metis word_eq_of_int)

lemma sint_MAXv: "sint (NOT (push_bit (LENGTH('a) - 1) 1) :: 'a::len word) = 2 ^ (LENGTH('a) - 1) - 1"
proof (rule sint_eqI)
  have "- (push_bit (LENGTH('a) - 1) 1) = (word_of_int (2 ^ (LENGTH('a) - 1)) :: 'a word)"
    using word_eq_of_int [OF sint_MINv [where 'a = 'a]] by simp
  then show "NOT (push_bit (LENGTH('a) - 1) 1) = (word_of_int (2 ^ (LENGTH('a) - 1) - 1) :: 'a word)"
    by (simp only: not_eq_complement of_int_diff of_int_1)
qed simp_all

lemma sint_uminus:
  "sint a \<noteq> - (2 ^ (LENGTH('a) - 1)) \<Longrightarrow> sint (- a :: 'a::len word) = - sint a"
  using sint_range [of a] by (intro sint_eqI) auto

lemma sint_abs_mask:
  fixes a :: "'a::len word"
  assumes "sint a \<noteq> - (2 ^ (LENGTH('a) - 1))" "t = signed_drop_bit (LENGTH('a) - 1) a"
  shows "sint ((a XOR t) - t) = \<bar>sint a\<bar>"
  unfolding assms(2) sign_mask_eq xor_sign_mask using sint_uminus [OF assms(1)] by simp

lemma sign_mask_cong:
  "signed_drop_bit (LENGTH('a) - 1) (a :: 'a::len word) = signed_drop_bit (LENGTH('a) - 1) b \<longleftrightarrow> (sint a < 0 \<longleftrightarrow> sint b < 0)"
  by (simp only: sign_mask_eq) simp

lemma absvXi2_eq: "absvXi2 a = checked \<bar>sint a\<bar>"
  for a :: "'a::len word"
proof (cases "sint a = - (2 ^ (LENGTH('a) - 1))")
  case False
  then have "sint ((a XOR t) - t) = \<bar>sint a\<bar>" if "t = signed_drop_bit (LENGTH('a) - 1) a" for t
    using that by (rule sint_abs_mask)
  then show ?thesis
    using False by (simp only: absvXi2_def Let_def eq_MINv_iff if_False) (metis checked_Some)
qed (simp add: absvXi2_def eq_MINv_iff [simplified] checked_def in_srange_def)

lemma negvXi2_eq: "negvXi2 a = checked (- sint a)"
  for a :: "'a::len word"
proof (cases "sint a = - (2 ^ (LENGTH('a) - 1))")
  case False
  then show ?thesis
    using sint_uminus [OF False] by (simp only: negvXi2_def Let_def eq_MINv_iff if_False) (metis checked_Some)
qed (simp add: negvXi2_def eq_MINv_iff [simplified] checked_def in_srange_def)

text \<open>The overflow tests of the products, on the absolute values.\<close>

lemma zdiv_less_iff: "0 < m \<Longrightarrow> k div m < n \<longleftrightarrow> k < n * (m :: int)"
  using pos_imp_zdiv_neg_iff [of m "k - n * m"] div_mult_self1 [of m k "- n"] by simp

lemma mul_overflow_tests:
  fixes x y M :: int
  assumes x: "- M < x" "x < M" and y: "- M < y" "y < M"
  shows "\<bar>x\<bar> < 2 \<or> \<bar>y\<bar> < 2 \<Longrightarrow> - M \<le> x * y \<and> x * y < M"
    "2 \<le> \<bar>y\<bar> \<Longrightarrow> (x < 0 \<longleftrightarrow> y < 0) \<Longrightarrow> (M - 1) div \<bar>y\<bar> < \<bar>x\<bar> \<longleftrightarrow> \<not> (- M \<le> x * y \<and> x * y < M)"
    "2 \<le> \<bar>x\<bar> \<Longrightarrow> 2 \<le> \<bar>y\<bar> \<Longrightarrow> (x < 0 \<longleftrightarrow> \<not> y < 0) \<Longrightarrow> M div \<bar>y\<bar> < \<bar>x\<bar> \<longleftrightarrow> \<not> (- M \<le> x * y \<and> x * y < M)"
proof -
  assume "\<bar>x\<bar> < 2 \<or> \<bar>y\<bar> < 2"
  then have "x = 0 \<or> x = 1 \<or> x = - 1 \<or> y = 0 \<or> y = 1 \<or> y = - 1" by linarith
  then show "- M \<le> x * y \<and> x * y < M" using x y by auto
next
  have d: "k div \<bar>y\<bar> < \<bar>x\<bar> \<longleftrightarrow> k < \<bar>x * y\<bar>" if "2 \<le> \<bar>y\<bar>" for k
    using that zdiv_less_iff [of "\<bar>y\<bar>" k "\<bar>x\<bar>"] by (simp add: abs_mult)
  show "(M - 1) div \<bar>y\<bar> < \<bar>x\<bar> \<longleftrightarrow> \<not> (- M \<le> x * y \<and> x * y < M)" if "2 \<le> \<bar>y\<bar>" "x < 0 \<longleftrightarrow> y < 0"
  proof -
    have "0 \<le> x * y" using that(2) by (cases "x < 0") (auto simp: mult_nonpos_nonpos)
    then show ?thesis using d [OF that(1), of "M - 1"] x by auto
  qed
  show "M div \<bar>y\<bar> < \<bar>x\<bar> \<longleftrightarrow> \<not> (- M \<le> x * y \<and> x * y < M)"
    if "2 \<le> \<bar>x\<bar>" "2 \<le> \<bar>y\<bar>" "x < 0 \<longleftrightarrow> \<not> y < 0"
  proof -
    have "x * y \<le> 0" using that by (cases "x < 0") (auto simp: mult_nonneg_nonpos mult_nonpos_nonneg)
    then show ?thesis using d [OF that(2), of M] x by auto
  qed
qed

lemma sint_sdiv_c:
  "in_srange TYPE('a) (sint x sdiv sint y) \<Longrightarrow> sint (sdiv_c x y :: 'a::len word) = sint x sdiv sint y"
  unfolding sdiv_c_def by (rule sint_in_srange)

lemma sdiv_pos: "0 \<le> (a :: int) \<Longrightarrow> 0 < b \<Longrightarrow> a sdiv b = a div b" "0 < a \<Longrightarrow> 0 < b \<Longrightarrow> (- a) sdiv (- b) = a div b"
  by (cases "a = 0"; simp add: signed_divide_int_def)+

lemma min_times:
  fixes M y :: int
  assumes "0 < M"
  shows "- M \<le> - M * y \<and> - M * y < M \<longleftrightarrow> y = 0 \<or> y = 1"
proof -
  have "y \<le> 1" if "- M \<le> - M * y" using that assms by (simp add: mult_le_cancel_left1)
  moreover have "- 1 < y" if "- M * y < M"
    using that assms mult_less_cancel_left_pos [of M "- 1" y] by simp
  ultimately show ?thesis using assms by auto
qed

lemma mul_quotients:
  fixes w :: "'a::len word"
  assumes "2 \<le> sint w"
  shows "sint (sdiv_c (NOT (push_bit (LENGTH('a) - 1) 1)) w) = (2 ^ (LENGTH('a) - 1) - 1) div sint w"
    "sint (sdiv_c (push_bit (LENGTH('a) - 1) 1) (- w)) = 2 ^ (LENGTH('a) - 1) div sint w"
proof -
  define M :: int where "M = 2 ^ (LENGTH('a) - 1)"
  have M: "0 < M" by (simp add: M_def)
  have d: "in_srange TYPE('a) (k div sint w)" if "0 \<le> k" "k \<le> M" for k
  proof -
    have "0 \<le> k div sint w" using that assms by (simp add: pos_imp_zdiv_nonneg_iff)
    moreover have "M * 2 \<le> M * sint w" using assms M by (intro mult_left_mono) simp_all
    then have "k < M * sint w" using that M by linarith
    ultimately show ?thesis
      using assms M by (simp add: in_srange_def M_def [symmetric, simplified] zdiv_less_iff)
  qed
  have "sint (- w) = - sint w" using assms M by (intro sint_uminus) (simp add: M_def [symmetric, simplified])
  then have e: "sint (NOT (push_bit (LENGTH('a) - 1) 1) :: 'a word) sdiv sint w = (M - 1) div sint w"
      "sint (push_bit (LENGTH('a) - 1) 1 :: 'a word) sdiv sint (- w) = M div sint w"
    using assms M by (simp_all only: sint_MINv sint_MAXv M_def [symmetric]) (simp_all add: sdiv_pos)
  show "sint (sdiv_c (NOT (push_bit (LENGTH('a) - 1) 1)) w) = (2 ^ (LENGTH('a) - 1) - 1) div sint w"
    using e(1) d [of "M - 1"] M by (simp only: M_def [symmetric]) (simp add: sint_sdiv_c)
  show "sint (sdiv_c (push_bit (LENGTH('a) - 1) 1) (- w)) = 2 ^ (LENGTH('a) - 1) div sint w"
    using e(2) d [of M] M by (simp only: M_def [symmetric]) (simp add: sint_sdiv_c)
qed

lemma mulvXi3_eq:
  fixes a b :: "'a::len word"
  assumes "3 \<le> LENGTH('a)"
  shows "mulvXi3 a b = checked (sint a * sint b)"
proof -
  define M :: int where "M = 2 ^ (LENGTH('a) - 1)"
  have "(2 :: int) ^ 2 \<le> M" unfolding M_def by (rule power_increasing) (use assms in simp_all)
  then have M: "4 \<le> M" by simp
  have isr: "in_srange TYPE('a) k \<longleftrightarrow> - M \<le> k \<and> k < M" for k by (simp add: in_srange_def M_def)
  have c: "checked k = (if - M \<le> k \<and> k < M then Some (word_of_int k :: 'a word) else None)" for k
    by (simp only: checked_def isr)
  have k: "sint (2 :: 'a word) = 2" "sint (1 :: 'a word) = 1"
    by (rule sint_eqI; use M in \<open>simp add: M_def\<close>)+
  have kk: "w = 0 \<longleftrightarrow> sint w = 0" "w = 1 \<longleftrightarrow> sint w = 1" for w :: "'a word"
    using k(2) by (metis signed_0 word_eq_of_int)+
  have r: "- M \<le> sint w" "sint w < M" for w :: "'a word" using sint_range [of w] by (simp_all add: M_def)
  have ab: "a * b = word_of_int (sint a * sint b)" by simp
  define sa where "sa = signed_drop_bit (LENGTH('a) - 1) a"
  define sb where "sb = signed_drop_bit (LENGTH('a) - 1) b"
  define A where "A = (a XOR sa) - sa"
  define B where "B = (b XOR sb) - sb"
  have e: "mulvXi3 a b =
     (if sint a = - M then (if sint b = 0 \<or> sint b = 1 then Some (a * b) else None)
      else if sint b = - M then (if sint a = 0 \<or> sint a = 1 then Some (a * b) else None)
      else if sint A < 2 \<or> sint B < 2 then Some (a * b)
      else if sint a < 0 \<longleftrightarrow> sint b < 0
      then if sint (sdiv_c (NOT (push_bit (LENGTH('a) - 1) 1)) B) < sint A then None else Some (a * b)
      else if sint (sdiv_c (push_bit (LENGTH('a) - 1) 1) (- B)) < sint A then None else Some (a * b))"
    unfolding mulvXi3_def Let_def eq_MINv_iff kk sign_mask_cong word_sless_alt k M_def A_def B_def sa_def sb_def
    by (rule refl)
  consider "sint a = - M" | "sint a \<noteq> - M" "sint b = - M" | "sint a \<noteq> - M" "sint b \<noteq> - M" by blast
  then show ?thesis
  proof cases
    case 1
    then show ?thesis using min_times [of M "sint b"] M by (simp only: e c ab if_True) simp
  next
    case 2
    then show ?thesis using min_times [of M "sint a"] M by (simp add: e c ab mult.commute)
  next
    case 3
    then have A: "sint A = \<bar>sint a\<bar>" and B: "sint B = \<bar>sint b\<bar>"
      unfolding A_def B_def sa_def sb_def M_def by (auto intro: sint_abs_mask)
    have ra: "- M < sint a" "sint a < M" "- M < sint b" "sint b < M"
      using 3 r [of a] r [of b] by simp_all
    note tests = mul_overflow_tests [OF ra]
    show ?thesis
    proof (cases "\<bar>sint a\<bar> < 2 \<or> \<bar>sint b\<bar> < 2")
      case True
      then show ?thesis using 3 tests(1) by (simp only: e c ab A B if_True if_False simp_thms)
    next
      case False
      then have "2 \<le> sint B" using B by simp
      note q = mul_quotients [OF this, folded M_def, unfolded B]
      have f: "\<not> \<bar>sint a\<bar> < 2" "\<not> \<bar>sint b\<bar> < 2" "2 \<le> \<bar>sint a\<bar>" "2 \<le> \<bar>sint b\<bar>" using False by simp_all
      show ?thesis
      proof (cases "sint a < 0 \<longleftrightarrow> sint b < 0")
        case True
        then show ?thesis
          using 3 f(1,2) tests(2) [OF f(4) True] by (simp only: e c ab A B q if_True if_False simp_thms if_not_P) simp
      next
        case opp: False
        then have "sint a < 0 \<longleftrightarrow> \<not> sint b < 0" by blast
        from tests(3) [OF f(3,4) this] show ?thesis
          using 3 f(1,2) opp by (simp only: e c ab A B q if_True if_False simp_thms if_not_P) simp
      qed
    qed
  qed
qed

lemma overflow_branches:
  "(if c1 then if \<not> p \<and> \<not> q then (r, 1) else (r, 0)
    else if c2 then if \<not> u \<and> \<not> v then (r, 1) else (r, 0)
    else if c3 then (r, 0) else if c4 then if d1 then (r, 1) else (r, 0) else if d2 then (r, 1) else (r, 0)) =
   (r, if (if c1 then if p \<or> q then Some r else None
    else if c2 then if u \<or> v then Some r else None
    else if c3 then Some r else if c4 then if d1 then None else Some r else if d2 then None else Some r) = None
    then 1 else 0)"
  by auto

lemma muloXi4_mulvXi3: "muloXi4 a b = (a * b, if mulvXi3 a b = None then 1 else 0)"
  unfolding muloXi4_def mulvXi3_def Let_def by (rule overflow_branches)

lemma muloXi4_eq:
  fixes a b :: "'a::len word"
  assumes "3 \<le> LENGTH('a)"
  shows "muloXi4 a b = (a * b, if in_srange TYPE('a) (sint a * sint b) then 0 else 1)"
  unfolding muloXi4_mulvXi3 mulvXi3_eq [OF assms] checked_def by simp

section \<open>Double-width products\<close>

text \<open>
  The product of two words as the halves of a double word: the body of \<open>__muldsi3\<close> and
  \<open>__mulddi3\<close>, in which \<open>t\<close> and the two halves are updated in turn.
\<close>

definition mul_halves :: "'h::len word \<Rightarrow> 'h word \<Rightarrow> 'h word halves" where
  "mul_halves a b =
    (let bits_2 = LENGTH('h) div 2;
         lower_mask = drop_bit bits_2 (- 1);
         low1 = (a AND lower_mask) * (b AND lower_mask);
         t1 = drop_bit bits_2 low1;
         low2 = low1 AND lower_mask;
         t2 = t1 + drop_bit bits_2 a * (b AND lower_mask);
         low3 = low2 + push_bit bits_2 (t2 AND lower_mask);
         high1 = drop_bit bits_2 t2;
         t3 = drop_bit bits_2 low3;
         low4 = low3 AND lower_mask;
         t4 = t3 + drop_bit bits_2 b * (a AND lower_mask);
         low5 = low4 + push_bit bits_2 (t4 AND lower_mask);
         high2 = high1 + drop_bit bits_2 t4;
         high3 = high2 + drop_bit bits_2 a * drop_bit bits_2 b
     in \<lparr>low = low5, high = high3\<rparr>)"

definition muldsi3 :: "su_int \<Rightarrow> su_int \<Rightarrow> di_int" where
  "muldsi3 a b = all (mul_halves a b)"

definition mulddi3 :: "du_int \<Rightarrow> du_int \<Rightarrow> ti_int" where
  "mulddi3 a b = all (mul_halves a b)"

definition muldi3 :: "di_int \<Rightarrow> di_int \<Rightarrow> di_int" where
  "muldi3 a b =
    (let x = (of_all a :: su_int halves);
         y = (of_all b :: su_int halves);
         r = (of_all (muldsi3 (low x) (low y)) :: su_int halves)
     in all (r\<lparr>high := high r + (high x * low y + low x * high y)\<rparr>))"

definition multi3 :: "ti_int \<Rightarrow> ti_int \<Rightarrow> ti_int" where
  "multi3 a b =
    (let x = (of_all a :: du_int halves);
         y = (of_all b :: du_int halves);
         r = (of_all (mulddi3 (low x) (low y)) :: du_int halves)
     in all (r\<lparr>high := high r + (high x * low y + low x * high y)\<rparr>))"

text \<open>The schoolbook product in base \<open>B\<close>: no intermediate sum exceeds \<open>B * B\<close>.\<close>

lemma digit_sum_less:
  fixes p c d B :: nat
  assumes "p < B" "c < B" "d < B"
  shows "p + c * d < B * B"
proof -
  have "c * d \<le> (B - 1) * (B - 1)" by (rule mult_mono) (use assms in simp_all)
  moreover obtain k where "B = Suc k" using assms by (cases B) auto
  ultimately show ?thesis using assms by simp
qed

lemma schoolbook_eq:
  fixes B :: nat
  assumes "q4 * B + r4 = r2 + b1 * a0" "q2 * B + r2 = qp + a1 * b0" "qp * B + rp = a0 * b0"
  shows "(q2 + q4 + a1 * b1) * (B * B) + (rp + r4 * B) = (a1 * B + a0) * (b1 * B + b0)"
proof -
  have "(q2 + q4 + a1 * b1) * (B * B) + (rp + r4 * B) = (q4 * B + r4) * B + q2 * B * B + a1 * b1 * B * B + rp"
    by (simp add: algebra_simps)
  also have "\<dots> = (q2 * B + r2) * B + b1 * a0 * B + a1 * b1 * B * B + rp"
    unfolding assms(1) by (simp add: algebra_simps)
  also have "\<dots> = (qp * B + rp) + a1 * b0 * B + b1 * a0 * B + a1 * b1 * B * B"
    unfolding assms(2) by (simp add: algebra_simps)
  also have "\<dots> = (a1 * B + a0) * (b1 * B + b0)" unfolding assms(3) by (simp add: algebra_simps)
  finally show ?thesis .
qed

lemma schoolbook:
  fixes a0 a1 b0 b1 B :: nat
  defines "p \<equiv> a0 * b0"
  defines "t2 \<equiv> p div B + a1 * b0"
  defines "l3 \<equiv> p mod B + t2 mod B * B"
  defines "t4 \<equiv> l3 div B + b1 * a0"
  assumes lt: "a0 < B" "a1 < B" "b0 < B" "b1 < B"
  shows "p < B * B" "t2 < B * B" "l3 < B * B" "t4 < B * B" "l3 mod B + t4 mod B * B < B * B"
    "(t2 div B + t4 div B + a1 * b1) * (B * B) + (l3 mod B + t4 mod B * B) = (a1 * B + a0) * (b1 * B + b0)"
    "t2 div B + t4 div B + a1 * b1 < B * B"
proof -
  have B: "0 < B" using lt by simp
  have fold: "u + v * B < B * B" if "u < B" "v < B" for u v
  proof -
    have "u + v * B < Suc v * B" using that by simp
    also have "\<dots> \<le> B * B" using that by (intro mult_right_mono) simp_all
    finally show ?thesis .
  qed
  show p: "p < B * B" unfolding p_def using digit_sum_less [of 0 B a0 b0] lt by simp
  then have "p div B < B" by (simp add: less_mult_imp_div_less)
  then show t2: "t2 < B * B" unfolding t2_def using lt by (simp add: digit_sum_less)
  show l3: "l3 < B * B" unfolding l3_def using B by (simp add: fold)
  then have "l3 div B < B" by (simp add: less_mult_imp_div_less)
  then show t4: "t4 < B * B" unfolding t4_def using lt by (simp add: digit_sum_less)
  show low: "l3 mod B + t4 mod B * B < B * B" using B by (simp add: fold)
  have d: "l3 div B = t2 mod B" "l3 mod B = p mod B" unfolding l3_def using B by simp_all
  have e: "t4 div B * B + t4 mod B = t2 mod B + b1 * a0" "t2 div B * B + t2 mod B = p div B + a1 * b0"
    "p div B * B + p mod B = a0 * b0"
    by (simp_all only: div_mult_mod_eq) (simp_all add: t4_def t2_def p_def d)
  show eq: "(t2 div B + t4 div B + a1 * b1) * (B * B) + (l3 mod B + t4 mod B * B) =
      (a1 * B + a0) * (b1 * B + b0)" unfolding d by (rule schoolbook_eq [OF e])
  have "(a1 * B + a0) * (b1 * B + b0) < (B * B) * (B * B)"
    using fold [of a0 a1] fold [of b0 b1] lt by (intro mult_strict_mono) (simp_all add: add.commute)
  then show "t2 div B + t4 div B + a1 * b1 < B * B"
    unfolding eq [symmetric] by (meson add_lessD1 mult_less_cancel2)
qed

lemma lower_mask_eq: "drop_bit k (- 1) = (mask (LENGTH('a) - k) :: 'a::len word)"
  by (rule bit_word_eqI) (auto simp: bit_simps)

lemma unat_mul_halves:
  fixes a b :: "'h::len word"
  assumes "LENGTH('h) = 2 * k"
  shows "unat (high (mul_halves a b)) * 2 ^ LENGTH('h) + unat (low (mul_halves a b)) = unat a * unat b"
proof -
  define B :: nat where "B = 2 ^ k"
  have L: "2 ^ LENGTH('h) = B * B" using assms by (simp add: B_def mult_2 power_add)
  have ab: "unat w < B * B" for w :: "'h word" using unat_lt [of w] by (simp add: L)
  define lm :: "'h word" where "lm = drop_bit k (- 1)"
  have m: "unat (w AND lm) = unat w mod B" for w :: "'h word"
    using assms by (simp add: lm_def lower_mask_eq unat_and_mask B_def)
  have d: "unat (drop_bit k w) = unat w div B" for w :: "'h word"
    by (simp add: unat_drop_bit_div B_def)
  have p: "unat (push_bit k w) = unat w * B" if "unat w < B" for w :: "'h word"
    using that by (simp add: unat_push_bit_small L [unfolded B_def] B_def)
  have ad: "unat (x + y) = unat x + unat y" if "unat x + unat y < B * B" for x y :: "'h word"
    using that by (simp add: unat_add_small L)
  have mu: "unat (x * y) = unat x * unat y" if "unat x * unat y < B * B" for x y :: "'h word"
    using that by (simp add: unat_mult_small L)
  define a0 a1 b0 b1 where "a0 = unat a mod B" "a1 = unat a div B" "b0 = unat b mod B" "b1 = unat b div B"
  note c = this
  have lt: "a0 < B" "a1 < B" "b0 < B" "b1 < B" using ab by (simp_all add: c less_mult_imp_div_less B_def)
  note s = schoolbook [OF lt]
  let ?m = "\<lambda>w. w AND lm"
  define low1 where "low1 = ?m a * ?m b"
  define t2 where "t2 = drop_bit k low1 + drop_bit k a * ?m b"
  define low3 where "low3 = ?m low1 + push_bit k (?m t2)"
  define t4 where "t4 = drop_bit k low3 + drop_bit k b * ?m a"
  define low5 where "low5 = ?m low3 + push_bit k (?m t4)"
  define high3 where "high3 = drop_bit k t2 + drop_bit k t4 + drop_bit k a * drop_bit k b"
  have r: "mul_halves a b = \<lparr>low = low5, high = high3\<rparr>"
    using assms unfolding mul_halves_def low1_def t2_def low3_def t4_def low5_def high3_def lm_def by (simp add: Let_def)
  have u1: "unat low1 = a0 * b0" unfolding low1_def using s(1) by (simp add: mu m c)
  have u2: "unat t2 = a0 * b0 div B + a1 * b0" unfolding t2_def using s(2) by (simp add: ad mu m d c u1)
  have B: "0 < B" by (simp add: B_def)
  have u3: "unat low3 = a0 * b0 mod B + (a0 * b0 div B + a1 * b0) mod B * B"
    unfolding low3_def using s(3) B by (simp add: ad m p u1 u2 del: push_bit_and)
  note s = s [folded u2 u3] and u = u2 u3
  have u4: "unat t4 = unat low3 div B + b1 * a0" unfolding t4_def using s(4) by (simp add: ad mu m d c)
  note s = s [folded u4]
  have u5: "unat low5 = unat low3 mod B + unat t4 mod B * B"
    unfolding low5_def using s(5) B by (simp add: ad m p del: push_bit_and)
  have u6: "unat high3 = unat t2 div B + unat t4 div B + a1 * b1"
    unfolding high3_def using s(7) by (simp add: ad mu d c)
  have "unat high3 * (B * B) + unat low5 = (a1 * B + a0) * (b1 * B + b0)" using s(6) u5 u6 by simp
  then show ?thesis by (simp add: r L c div_mult_mod_eq)
qed

lemma unat_muldsi3: "unat (muldsi3 a b) = unat a * unat b"
  using unat_mul_halves [of 16 a b] by (simp add: muldsi3_def unat_all)

lemma unat_mulddi3: "unat (mulddi3 a b) = unat a * unat b"
  using unat_mul_halves [of 32 a b] by (simp add: mulddi3_def unat_all)

text \<open>The cross products only reach the upper half, where they wrap.\<close>

lemma mul_cross:
  fixes a b r :: "'d::len word" and x y :: "'h::len word halves"
  assumes len: "LENGTH('d) = 2 * LENGTH('h)"
    and xy: "x = of_all a" "y = of_all b" and r: "unat r = unat (low x) * unat (low y)"
  shows "all ((of_all r :: 'h word halves)\<lparr>high := high (of_all r) + (high x * low y + low x * high y)\<rparr>) = a * b"
proof (rule unat_eqI)
  define B :: nat where "B = 2 ^ LENGTH('h)"
  have B0: "0 < B" by (simp add: B_def)
  have L: "2 ^ LENGTH('d) = B * B" by (simp add: B_def len mult_2 power_add)
  define xh xl yh yl where "xh = unat (high x)" "xl = unat (low x)" "yh = unat (high y)" "yl = unat (low y)"
  note c = this
  have ab: "unat a = xh * B + xl" "unat b = yh * B + yl"
    by (simp_all add: c xy unat_low unat_high len B_def div_mult_mod_eq)
  let ?r = "of_all r :: 'h word halves"
  have "unat (all (?r\<lparr>high := high ?r + (high x * low y + low x * high y)\<rparr>) :: 'd word) =
      (unat r div B + (xh * yl + xl * yh)) mod B * B + unat r mod B"
    by (simp add: unat_all len unat_low unat_high unat_add_mod unat_mult_mod mod_simps B_def [symmetric] c)
  also have "\<dots> = (unat r + B * (xh * yl + xl * yh)) mod (B * B)"
    using B0 by (simp only: mod_mult2_eq mod_mult_self2 div_mult_self2 neq0_conv mult.commute [of B "_ mod _"] add.commute)
  also have "\<dots> = (xl * yl + B * (xh * yl + xl * yh) + xh * yh * (B * B)) mod (B * B)"
    by (simp add: r c)
  also have "xl * yl + B * (xh * yl + xl * yh) + xh * yh * (B * B) = unat a * unat b"
    unfolding ab by (simp add: algebra_simps)
  finally show "unat (all (?r\<lparr>high := high ?r + (high x * low y + low x * high y)\<rparr>) :: 'd word) = unat (a * b)"
    by (simp add: unat_mult_mod L)
qed

lemma muldi3_eq: "muldi3 a b = a * b"
  unfolding muldi3_def Let_def by (rule mul_cross [OF _ refl refl]) (simp_all add: unat_muldsi3)

lemma multi3_eq: "multi3 a b = a * b"
  unfolding multi3_def Let_def by (rule mul_cross [OF _ refl refl]) (simp_all add: unat_mulddi3)

end
