(* ===== verification/Int_Div.thy ===== *)
theory Int_Div
  imports Int_Bits Int_Arith
begin

text \<open>
  Division by shift and subtract, \<open>int_div_impl.inc\<close>: \<open>udivXi3\<close> and \<open>umodXi3\<close> with
  their instances for \<open>su_int\<close> and \<open>du_int\<close>, \<open>udivmodsi4.c\<close>, and the signed routines,
  which reduce to an unsigned division given as the macros \<open>COMPUTE_UDIV\<close> and
  \<open>ASSIGN_UMOD\<close>. The macro is a parameter of \<open>divXi3\<close>, \<open>modXi3\<close> and \<open>divmodXi4\<close>, and
  the locale \<open>unsigned_divmod\<close> is its contract. A division by zero is unspecified in the
  source; the theorems assume a divisor other than zero. \<open>divmod?i4.c\<close> negates with signed types,
  which C leaves undefined for the most negative value; the model takes the two's complement result.
\<close>

section \<open>The loop\<close>

fun udiv_loop :: "nat \<Rightarrow> 'a::len word \<Rightarrow> 'a word \<Rightarrow> 'a word \<Rightarrow> 'a word \<Rightarrow> 'a word \<times> 'a word \<times> 'a word" where
  "udiv_loop 0 d r n carry = (r, n, carry)"
| "udiv_loop (Suc sr) d r n carry =
    (let N = LENGTH('a);
         r = push_bit 1 r OR drop_bit (N - 1) n;
         n = push_bit 1 n OR carry;
         s = signed_drop_bit (N - 1) (d - r - 1);
         carry = s AND 1;
         r = r - (d AND s)
     in udiv_loop sr d r n carry)"

text \<open>The wrap-around of the \<open>unsigned\<close> difference \<open>sr\<close> is how \<open>n < d\<close> is found.\<close>

definition udivXi3 :: "'a::len word \<Rightarrow> 'a word \<Rightarrow> 'a word" where
  "udivXi3 n d =
    (let N = LENGTH('a);
         sr = of_nat (if d \<noteq> 0 then builtin_clz d else N) - of_nat (if n \<noteq> 0 then builtin_clz n else N) :: su_int
     in if sr > of_nat N - 1 then 0
        else if sr = of_nat N - 1 then n
        else
          let sr = sr + 1;
              r = drop_bit (unat sr) n;
              n = push_bit (N - unat sr) n;
              (r, n, carry) = udiv_loop (unat sr) d r n 0
          in push_bit 1 n OR carry)"

definition umodXi3 :: "'a::len word \<Rightarrow> 'a word \<Rightarrow> 'a word" where
  "umodXi3 n d =
    (let N = LENGTH('a);
         sr = of_nat (if d \<noteq> 0 then builtin_clz d else N) - of_nat (if n \<noteq> 0 then builtin_clz n else N) :: su_int
     in if sr > of_nat N - 1 then n
        else if sr = of_nat N - 1 then 0
        else
          let sr = sr + 1;
              r = drop_bit (unat sr) n;
              n = push_bit (N - unat sr) n;
              (r, n, carry) = udiv_loop (unat sr) d r n 0
          in r)"

definition udivsi3 :: "su_int \<Rightarrow> su_int \<Rightarrow> su_int" where
  "udivsi3 a b = udivXi3 a b"

definition udivdi3 :: "du_int \<Rightarrow> du_int \<Rightarrow> du_int" where
  "udivdi3 a b = udivXi3 a b"

definition umodsi3 :: "su_int \<Rightarrow> su_int \<Rightarrow> su_int" where
  "umodsi3 a b = umodXi3 a b"

definition umoddi3 :: "du_int \<Rightarrow> du_int \<Rightarrow> du_int" where
  "umoddi3 a b = umodXi3 a b"

definition udivmodsi4 :: "su_int \<Rightarrow> su_int \<Rightarrow> su_int \<times> su_int" where
  "udivmodsi4 a b = (let d = udivsi3 a b in (d, a - d * b))"

text \<open>The branch-free comparison: \<open>s\<close> is the all-ones mask exactly when \<open>d \<le> r\<close>.\<close>

lemma sign_trick:
  fixes d r :: "'a::len word"
  assumes "unat r < 2 * unat d" "unat d \<le> 2 ^ (LENGTH('a) - 1) + unat r"
  shows "signed_drop_bit (LENGTH('a) - 1) (d - r - 1) = (if d \<le> r then - 1 else 0)"
proof -
  define M :: nat where "M = 2 ^ (LENGTH('a) - 1)"
  have L: "2 ^ LENGTH('a) = 2 * M" by (simp add: M_def flip: power_Suc)
  have b: "unat d < 2 * M" "unat r < 2 * M" using unat_lt [of d] unat_lt [of r] by (simp_all add: L)
  have Mi: "(2 :: int) ^ (LENGTH('a) - 1) = int M" by (simp add: M_def)
  have a: "unat d \<le> M + unat r" using assms(2) by (simp add: M_def)
  have w: "d - r - 1 = word_of_int (int (unat d) - int (unat r) - 1)" by simp
  have "sint (d - r - 1) = int (unat d) - int (unat r) - 1"
    by (rule sint_eqI [OF w]; unfold Mi; use assms(1) a b in linarith)
  then have "sint (d - r - 1) < 0 \<longleftrightarrow> unat d \<le> unat r" by linarith
  then have "sint (d - r - 1) < 0 \<longleftrightarrow> d \<le> r" by (simp only: word_le_nat_alt)
  then show ?thesis by (simp only: sign_mask_eq)
qed

lemma branch_free_step:
  fixes d r :: "'a::len word"
  assumes "unat r < 2 * unat d" "unat d \<le> 2 ^ (LENGTH('a) - 1) + unat r"
    "s = signed_drop_bit (LENGTH('a) - 1) (d - r - 1)"
  shows "s AND 1 = of_bool (d \<le> r)" "r - (d AND s) = (if d \<le> r then r - d else r)"
    "unat (r - (d AND s)) = (if unat d \<le> unat r then unat r - unat d else unat r)"
  unfolding assms(3) sign_trick [OF assms(1,2)] by (simp_all add: word_le_nat_alt unat_sub)

text \<open>
  The state before the step that treats bit \<open>k - 1\<close> of the dividend \<open>n0\<close>: \<open>r\<close> is the
  remainder and \<open>q\<close> the quotient of the bits treated so far; the register \<open>n\<close> holds the
  other bits of the dividend above \<open>q div 2\<close>, and \<open>carry\<close> is the last bit of \<open>q\<close>.
\<close>

definition udiv_inv :: "nat \<Rightarrow> nat \<Rightarrow> nat \<Rightarrow> nat \<Rightarrow> 'a::len word \<Rightarrow> 'a word \<Rightarrow> 'a word \<Rightarrow> 'a word \<Rightarrow> bool" where
  "udiv_inv n0 sr k q d r n carry \<longleftrightarrow>
    k \<le> sr \<and> sr < LENGTH('a) \<and> n0 < 2 ^ LENGTH('a) \<and>
    (unat d \<le> 2 ^ (LENGTH('a) - 1) \<or> sr = 1 \<and> 2 ^ (LENGTH('a) - 1) \<le> n0) \<and>
    n0 div 2 ^ k = q * unat d + unat r \<and> unat r < unat d \<and> q < 2 ^ (sr - k) \<and>
    unat n = n0 mod 2 ^ k * 2 ^ (LENGTH('a) - k) + q div 2 \<and> unat carry = q mod 2"

lemma div_exp_step: "(n :: nat) div 2 ^ k = 2 * (n div 2 ^ Suc k) + (n div 2 ^ k) mod 2"
  by (simp only: power_Suc2 div_mult2_eq mult_div_mod_eq)

lemma mod_exp_step: "(n :: nat) mod 2 ^ Suc k = (n div 2 ^ k) mod 2 * 2 ^ k + n mod 2 ^ k"
  by (simp only: power_Suc2 mod_mult2_eq) simp

text \<open>One step of the loop on the arithmetic values of its registers.\<close>

lemma udiv_registers:
  fixes d r n carry :: "'a::len word"
  assumes inv: "udiv_inv n0 sr (Suc j) q d r n carry"
  defines "b \<equiv> n0 div 2 ^ j mod 2"
  shows "unat (push_bit 1 r OR drop_bit (LENGTH('a) - 1) n) = 2 * unat r + b"
    and "unat (push_bit 1 n OR carry) = n0 mod 2 ^ j * 2 ^ (LENGTH('a) - j) + q"
proof -
  let ?N = "LENGTH('a)"
  from inv have j: "j < sr" "sr < ?N" and n: "unat n = n0 mod 2 ^ Suc j * 2 ^ (?N - Suc j) + q div 2"
    and q: "q < 2 ^ (sr - Suc j)" and c: "unat carry = q mod 2" and n0: "n0 < 2 ^ ?N"
    and R: "n0 div 2 ^ Suc j = q * unat d + unat r"
    by (simp_all add: udiv_inv_def)
  define rest where "rest = n0 mod 2 ^ j * 2 ^ (?N - Suc j) + q div 2"
  have e: "(2 :: nat) ^ j * 2 ^ (?N - Suc j) = 2 ^ (?N - 1)" using j by (simp flip: power_add)
  have un: "unat n = b * 2 ^ (?N - 1) + rest"
    unfolding n mod_exp_step b_def rest_def e [symmetric] by (simp add: algebra_simps)
  have "q < 2 ^ (?N - Suc j)" using q by (rule less_le_trans) (use j in simp)
  then have "rest < (n0 mod 2 ^ j + 1) * 2 ^ (?N - Suc j)" by (simp add: rest_def)
  also have "\<dots> \<le> 2 ^ j * 2 ^ (?N - Suc j)" by (intro mult_right_mono) (simp_all add: Suc_le_eq)
  finally have rest: "rest < 2 ^ (?N - 1)" by (simp only: e)
  have N: "2 * 2 ^ (?N - 1) = (2 :: nat) ^ ?N" by (simp flip: power_Suc)
  have b: "b < 2" by (simp add: b_def)
  have "2 * (n0 div 2 ^ Suc j) \<le> n0 div 2 ^ j" using div_exp_step [of n0 j] by linarith
  also have "\<dots> < 2 ^ ?N" using n0 by (rule le_less_trans [OF div_le_dividend])
  finally have "2 * unat r < 2 ^ ?N" using R by simp
  then have r2: "unat (push_bit 1 r) = 2 * unat r" by (subst unat_push_bit_small) simp_all
  have "unat (drop_bit (?N - 1) n) = b" using rest by (simp only: unat_drop_bit_div un) simp
  then show "unat (push_bit 1 r OR drop_bit (?N - 1) n) = 2 * unat r + b"
    using b r2 by (subst unat_or_aligned [where k = 1]) simp_all
  have "(b * 2 ^ (?N - 1) + rest) * 2 ^ 1 = b * (2 * 2 ^ (?N - 1)) + 2 * rest" by (simp add: algebra_simps)
  then have "unat (push_bit 1 n) = (b * 2 ^ ?N + 2 * rest) mod 2 ^ ?N" by (simp only: unat_push_bit un N)
  also have "\<dots> = 2 * rest" using rest N by simp
  finally have n2: "unat (push_bit 1 n) = 2 * rest" .
  have "(2 :: nat) * 2 ^ (?N - Suc j) = 2 ^ (?N - j)" using j by (simp flip: power_Suc add: Suc_diff_Suc)
  then have "2 * rest + q mod 2 = n0 mod 2 ^ j * 2 ^ (?N - j) + q"
    by (simp add: rest_def add_mult_distrib2)
  then show "unat (push_bit 1 n OR carry) = n0 mod 2 ^ j * 2 ^ (?N - j) + q"
    using n2 c by (subst unat_or_aligned [where k = 1]) simp_all
qed

lemma udiv_inv_step:
  fixes d r n carry :: "'a::len word"
  assumes inv: "udiv_inv n0 sr (Suc j) q d r n carry"
    and r1: "r1 = push_bit 1 r OR drop_bit (LENGTH('a) - 1) n" and n1: "n1 = push_bit 1 n OR carry"
    and s: "s = signed_drop_bit (LENGTH('a) - 1) (d - r1 - 1)"
  shows "udiv_inv n0 sr j (2 * q + of_bool (d \<le> r1)) d (r1 - (d AND s)) n1 (s AND 1)"
proof -
  let ?N = "LENGTH('a)"
  define b where "b = n0 div 2 ^ j mod 2"
  have u: "unat r1 = 2 * unat r + b" "unat n1 = n0 mod 2 ^ j * 2 ^ (?N - j) + q"
    using udiv_registers [OF inv] by (simp_all add: r1 n1 b_def)
  from inv have D: "unat d \<le> 2 ^ (?N - 1) \<or> sr = 1 \<and> 2 ^ (?N - 1) \<le> n0"
    and R: "n0 div 2 ^ Suc j = q * unat d + unat r" "unat r < unat d" and j: "j < sr" "q < 2 ^ (sr - Suc j)"
    by (simp_all add: udiv_inv_def)
  have n0: "n0 div 2 ^ j = 2 * (q * unat d) + unat r1"
    using div_exp_step [of n0 j] R(1) by (simp add: u b_def)
  have lt: "unat r1 < 2 * unat d" using R(2) by (simp add: u b_def) 
  have le: "unat d \<le> 2 ^ (?N - 1) + unat r1"
  proof (cases "unat d \<le> 2 ^ (?N - 1)")
    case False
    with D j have "j = 0" "q = 0" "2 ^ (?N - 1) \<le> n0" by auto
    then have "2 ^ (?N - 1) \<le> unat r1" using n0 by simp
    moreover have "2 * 2 ^ (?N - 1) = (2 :: nat) ^ ?N" by (simp flip: power_Suc)
    ultimately show ?thesis using unat_lt [of d] by linarith
  qed simp
  have sr: "q * 2 + 1 < 2 ^ (sr - j)"
  proof -
    have "(2 :: nat) ^ (sr - j) = 2 * 2 ^ (sr - Suc j)" using j by (simp flip: power_Suc add: Suc_diff_Suc)
    then show ?thesis using j by linarith
  qed
  note st = branch_free_step [OF lt le s]
  let ?q = "2 * q + of_bool (d \<le> r1)"
  have "unat (r1 - (d AND s)) < unat d" using lt st(3) by (auto split: if_splits)
  moreover have "n0 div 2 ^ j = ?q * unat d + unat (r1 - (d AND s))"
    using n0 st(3) by (simp add: word_le_nat_alt algebra_simps)
  moreover have "?q < 2 ^ (sr - j)" using sr by auto
  moreover have "unat (s AND 1) = ?q mod 2" using st(1) by (cases "d \<le> r1") (simp_all add: mod_Suc)
  moreover have "?q div 2 = q" by simp
  ultimately show ?thesis using inv u(2) unfolding udiv_inv_def by simp
qed

lemma udiv_loop_inv:
  "udiv_inv n0 sr k q d r n carry \<Longrightarrow> \<exists>q'. case udiv_loop k d r n carry of (r', n', c') \<Rightarrow> udiv_inv n0 sr 0 q' d r' n' c'"
proof (induction k arbitrary: q r n carry)
  case (Suc k)
  from Suc.IH [OF udiv_inv_step [OF Suc.prems refl refl refl]] show ?case
    by (simp only: udiv_loop.simps Let_def)
qed auto

text \<open>
  From the initial registers the loop divides, whenever the first \<open>sr\<close> makes the initial
  remainder smaller than the divisor.
\<close>

lemma udiv_loop_correct:
  fixes n d :: "'a::len word"
  assumes "0 < sr" "sr < LENGTH('a)" "unat n div 2 ^ sr < unat d"
    "unat d \<le> 2 ^ (LENGTH('a) - 1) \<or> sr = 1 \<and> 2 ^ (LENGTH('a) - 1) \<le> unat n"
    "udiv_loop sr d (drop_bit sr n) (push_bit (LENGTH('a) - sr) n) 0 = (r', n', carry)"
  shows "push_bit 1 n' OR carry = n div d" "r' = n mod d"
proof -
  have "unat n mod 2 ^ sr * 2 ^ (LENGTH('a) - sr) = unat n * 2 ^ (LENGTH('a) - sr) mod (2 ^ sr * 2 ^ (LENGTH('a) - sr))"
    by (simp only: mult_mod_left)
  also have "(2 :: nat) ^ sr * 2 ^ (LENGTH('a) - sr) = 2 ^ LENGTH('a)" using assms(2) by (simp flip: power_add)
  finally have "udiv_inv (unat n) sr sr 0 d (drop_bit sr n) (push_bit (LENGTH('a) - sr) n) 0"
    using assms by (simp add: udiv_inv_def unat_drop_bit_div unat_push_bit del: push_bit_eq_mult)
  from udiv_loop_inv [OF this] assms(5) obtain q where q: "udiv_inv (unat n) sr 0 q d r' n' carry" by auto
  then have e: "unat n = q * unat d + unat r'" "unat r' < unat d" "unat n' = q div 2" "unat carry = q mod 2"
    by (simp_all add: udiv_inv_def)
  then show "r' = n mod d" by (intro unat_eqI) (simp add: unat_mod)
  have "q < 2 ^ sr" using q by (simp add: udiv_inv_def)
  also have "\<dots> \<le> 2 ^ LENGTH('a)" using assms(2) by simp
  finally have "q < 2 ^ LENGTH('a)" .
  then have "unat (push_bit 1 n') = 2 * (q div 2)" using e(3) by (subst unat_push_bit_small) auto
  then have "unat (push_bit 1 n' OR carry) = q" using e(4) by (subst unat_or_aligned [where k = 1]) auto
  then show "push_bit 1 n' OR carry = n div d" using e(1,2) by (intro unat_eqI) (simp add: unat_div)
qed

text \<open>The first value of \<open>sr\<close>, from the leading zeros of the divisor and the dividend.\<close>

lemma clz_less_iff:
  fixes n d :: "'a::len word"
  shows "builtin_clz d < builtin_clz n \<longleftrightarrow> nbits (unat n) < nbits (unat d)"
  using nbits_unat_le [of n] nbits_unat_le [of d] by (auto simp: builtin_clz_def)

lemma nbits_less_imp: "nbits m < nbits n \<Longrightarrow> m < n"
  using nbits_mono [of n m] by (cases "m < n") auto

lemma sr_first:
  fixes n d :: "'a::len word"
  assumes "d \<noteq> 0" "n \<noteq> 0" "builtin_clz n \<le> builtin_clz d"
  defines "sr \<equiv> Suc (builtin_clz d - builtin_clz n)"
  shows "unat n div 2 ^ sr < unat d" "sr \<le> LENGTH('a)"
    "unat d \<le> 2 ^ (LENGTH('a) - 1) \<or> sr = 1 \<and> 2 ^ (LENGTH('a) - 1) \<le> unat n"
    "sr = LENGTH('a) \<longleftrightarrow> d = 1 \<and> 2 ^ (LENGTH('a) - 1) \<le> unat n"
proof -
  have le: "nbits (unat n) \<le> LENGTH('a)" "nbits (unat d) \<le> LENGTH('a)" by (rule nbits_unat_le)+
  have nz: "0 < unat n" "0 < unat d" "nbits (unat n) \<noteq> 0" "nbits (unat d) \<noteq> 0" using assms(1,2) by (simp_all add: unat_gt_0 unat_eq_0)
  have sr: "sr = Suc (nbits (unat n) - nbits (unat d))" "nbits (unat d) \<le> nbits (unat n)"
    using assms(3) le unfolding sr_def builtin_clz_def by linarith+
  have "nbits (unat n div 2 ^ sr) < nbits (unat d)" using sr(2) nz unfolding nbits_div_exp sr(1) by linarith
  then show "unat n div 2 ^ sr < unat d" by (rule nbits_less_imp)
  show "sr \<le> LENGTH('a)" using sr nz le by linarith
  have top: "nbits (unat w) = LENGTH('a) \<longleftrightarrow> 2 ^ (LENGTH('a) - 1) \<le> unat w" for w :: "'a word"
    using nbits_le_iff [of "unat w" "LENGTH('a) - 1"] nbits_unat_le [of w] by (auto simp: not_less [symmetric])
  show "unat d \<le> 2 ^ (LENGTH('a) - 1) \<or> sr = 1 \<and> 2 ^ (LENGTH('a) - 1) \<le> unat n"
    using top [of d] top [of n] sr le by (cases "2 ^ (LENGTH('a) - 1) \<le> unat d") auto
  have one: "nbits (unat d) = 1 \<longleftrightarrow> d = 1"
    using nbits_le_iff [of "unat d" 1] nz nbits_exp [of 0] by (auto simp: word_unat_eq_iff)
  show "sr = LENGTH('a) \<longleftrightarrow> d = 1 \<and> 2 ^ (LENGTH('a) - 1) \<le> unat n"
    unfolding one [symmetric] top [symmetric] using sr nz le by linarith
qed

lemma unat_clz_diff:
  fixes n d :: "'a::len word"
  assumes "LENGTH('a) < 2 ^ 31" "x = builtin_clz d" "y = builtin_clz n"
  shows "y \<le> x \<Longrightarrow> unat (of_nat x - of_nat y :: su_int) = x - y"
    "x < y \<Longrightarrow> 2 ^ 31 < unat (of_nat x - of_nat y :: su_int)"
proof -
  have "x < 2 ^ 31" "y < 2 ^ 31"
    using assms builtin_clz_le [of d] builtin_clz_le [of n] by simp_all
  then have "unat (of_nat x :: su_int) = x" "unat (of_nat y :: su_int) = y" by (simp_all add: unat_of_nat)
  then show "y \<le> x \<Longrightarrow> unat (of_nat x - of_nat y :: su_int) = x - y"
    "x < y \<Longrightarrow> 2 ^ 31 < unat (of_nat x - of_nat y :: su_int)"
    using \<open>x < 2 ^ 31\<close> \<open>y < 2 ^ 31\<close> by (simp_all add: unat_sub_if')
qed

lemma udiv_umod_correct:
  fixes n d :: "'a::len word"
  assumes "d \<noteq> 0" "2 \<le> LENGTH('a)" "LENGTH('a) < 2 ^ 31"
  shows "udivXi3 n d = n div d \<and> umodXi3 n d = n mod d"
proof -
  let ?N = "LENGTH('a)"
  define x where "x = builtin_clz d"
  define y where "y = (if n \<noteq> 0 then builtin_clz n else ?N)"
  have y: "y = builtin_clz n" by (simp add: y_def builtin_clz_def)
  define sr :: su_int where "sr = of_nat x - of_nat y"
  note df = unat_clz_diff [OF assms(3) x_def y, folded sr_def]
  have x: "x < ?N" unfolding x_def by (rule builtin_clz_less [OF assms(1)])
  have N1: "unat (of_nat ?N - 1 :: su_int) = ?N - 1"
    using assms(2,3) by (simp add: unat_sub_if' unat_of_nat)
  have e: "udivXi3 n d = (if of_nat ?N - 1 < sr then 0 else if sr = of_nat ?N - 1 then n
      else case udiv_loop (unat (sr + 1)) d (drop_bit (unat (sr + 1)) n) (push_bit (?N - unat (sr + 1)) n) 0
        of (r, n, carry) \<Rightarrow> push_bit 1 n OR carry)"
    "umodXi3 n d = (if of_nat ?N - 1 < sr then n else if sr = of_nat ?N - 1 then 0
      else case udiv_loop (unat (sr + 1)) d (drop_bit (unat (sr + 1)) n) (push_bit (?N - unat (sr + 1)) n) 0
        of (r, n, carry) \<Rightarrow> r)"
    unfolding udivXi3_def umodXi3_def Let_def sr_def x_def y_def
    using assms(1) by (simp_all only: simp_thms if_True not_False_eq_True)
  show ?thesis
  proof (cases "x < y")
    case True
    then have "nbits (unat n) < nbits (unat d)" by (simp add: x_def y clz_less_iff)
    then have "unat n < unat d" by (rule nbits_less_imp)
    then have "n div d = 0" "n mod d = n" by (auto intro: unat_eqI simp: unat_div unat_mod)
    moreover have "of_nat ?N - 1 < sr" using df(2) [OF True] N1 assms(3) by (simp add: word_less_nat_alt)
    ultimately show ?thesis by (simp only: e if_True)
  next
    case False
    then have n: "n \<noteq> 0" and le: "builtin_clz n \<le> builtin_clz d" and sr: "unat sr = x - y"
      using x df(1) by (auto simp: x_def y builtin_clz_def)
    note f = sr_first [OF assms(1) n le, folded y x_def, folded sr]
    have 0: "\<not> of_nat ?N - 1 < sr" using sr x N1 by (simp add: word_less_nat_alt)
    show ?thesis
    proof (cases "sr = of_nat ?N - 1")
      case True
      then have "d = 1" using f(4) N1 by simp
      then show ?thesis unfolding e using 0 True by (simp only: if_True if_False) simp
    next
      case ne: False
      then have "unat sr \<noteq> ?N - 1" using N1 by (simp add: word_unat_eq_iff)
      then have lt: "Suc (unat sr) < ?N" using f(2) by linarith
      have s1: "unat (sr + 1) = Suc (unat sr)" using lt assms(3) by (subst unat_add_small) simp_all
      obtain r' n' c where l: "udiv_loop (Suc (unat sr)) d (drop_bit (Suc (unat sr)) n)
          (push_bit (?N - Suc (unat sr)) n) 0 = (r', n', c)" using prod_cases3 by blast
      note c = udiv_loop_correct [OF zero_less_Suc lt f(1,3) l]
      show ?thesis using 0 ne by (simp only: e s1 l if_False prod.case c simp_thms)
    qed
  qed
qed

section \<open>Signed division on top of an unsigned one\<close>

definition divXi3 :: "('a::len word \<Rightarrow> 'a word \<Rightarrow> 'a word) \<Rightarrow> 'a word \<Rightarrow> 'a word \<Rightarrow> 'a word" where
  "divXi3 COMPUTE_UDIV a b =
    (let N = LENGTH('a) - 1;
         s_a = signed_drop_bit N a;
         s_b = signed_drop_bit N b;
         a_u = (a XOR s_a) + (- s_a);
         b_u = (b XOR s_b) + (- s_b);
         s_a = s_a XOR s_b
     in (COMPUTE_UDIV a_u b_u XOR s_a) + (- s_a))"

definition modXi3 :: "('a::len word \<Rightarrow> 'a word \<Rightarrow> 'a word) \<Rightarrow> 'a word \<Rightarrow> 'a word \<Rightarrow> 'a word" where
  "modXi3 ASSIGN_UMOD a b =
    (let N = LENGTH('a) - 1;
         s = signed_drop_bit N b;
         b_u = (b XOR s) + (- s);
         s = signed_drop_bit N a;
         a_u = (a XOR s) + (- s);
         res = ASSIGN_UMOD a_u b_u
     in (res XOR s) + (- s))"

definition divmodXi4 :: "('a::len word \<Rightarrow> 'a word \<Rightarrow> 'a word \<times> 'a word) \<Rightarrow> 'a word \<Rightarrow> 'a word \<Rightarrow> 'a word \<times> 'a word" where
  "divmodXi4 udivmod a b =
    (let bits_m1 = LENGTH('a) - 1;
         s_a = signed_drop_bit bits_m1 a;
         s_b = signed_drop_bit bits_m1 b;
         a = (a XOR s_a) - s_a;
         b = (b XOR s_b) - s_b;
         s_b = s_b XOR s_a;
         (q, r) = udivmod a b
     in ((q XOR s_b) - s_b, (r XOR s_a) - s_a))"

text \<open>The contract of an unsigned division with remainder, and what the signed routines make of it.\<close>

locale unsigned_divmod =
  fixes udivmod :: "'a::len word \<Rightarrow> 'a word \<Rightarrow> 'a word \<times> 'a word"
  assumes udivmod: "d \<noteq> 0 \<Longrightarrow> udivmod n d = (n div d, n mod d)"

lemma sign_masks:
  "signed_drop_bit (LENGTH('a) - 1) a XOR signed_drop_bit (LENGTH('a) - 1) b =
    (if (sint a < 0) \<noteq> (sint b < 0) then - 1 else 0 :: 'a::len word)"
  by (simp only: sign_mask_eq) simp

lemma word_of_int_unat: "word_of_int (int (unat w)) = (w :: 'a::len word)"
  by simp

lemma sdiv_c_abs:
  fixes a b a' b' :: "'a::len word"
  assumes "a' = (if sint a < 0 then - a else a)" "b' = (if sint b < 0 then - b else b)"
  shows "(if (sint a < 0) \<noteq> (sint b < 0) then - (a' div b') else a' div b') = sdiv_c a b"
    "(if sint a < 0 then - (a' mod b') else a' mod b') = smod_c a b"
proof -
  have u: "unat a' = nat \<bar>sint a\<bar>" "unat b' = nat \<bar>sint b\<bar>" by (simp_all only: assms unat_abs_sint)
  then have q: "a' div b' = word_of_int (\<bar>sint a\<bar> div \<bar>sint b\<bar>)" "a' mod b' = word_of_int (\<bar>sint a\<bar> mod \<bar>sint b\<bar>)"
    by (metis (no_types) abs_ge_zero int_nat_eq unat_div unat_mod word_of_int_unat zdiv_int zmod_int)+
  show "(if (sint a < 0) \<noteq> (sint b < 0) then - (a' div b') else a' div b') = sdiv_c a b"
    unfolding q sdiv_c_def signed_divide_int_def by (auto simp: sgn_if)
  show "(if sint a < 0 then - (a' mod b') else a' mod b') = smod_c a b"
    unfolding q smod_c_def signed_modulo_int_def by (auto simp: sgn_if)
qed

lemma not_plus_1: "NOT x + 1 = - (x :: 'a::len word)"
  by (simp add: not_eq_complement)

lemmas signed_div_simps = Let_def sign_mask_eq_Suc not_plus_1

context unsigned_divmod begin

lemma div_signed:
  "b \<noteq> 0 \<Longrightarrow> divXi3 (\<lambda>n d. fst (udivmod n d)) a b = sdiv_c a b"
  using sdiv_c_abs(1) [OF refl refl, of a b]
  by (cases "sint a < 0"; cases "sint b < 0") (simp_all add: divXi3_def signed_div_simps udivmod)

lemma mod_signed:
  "b \<noteq> 0 \<Longrightarrow> modXi3 (\<lambda>n d. snd (udivmod n d)) a b = smod_c a b"
  using sdiv_c_abs(2) [OF refl refl, of a b]
  by (cases "sint a < 0"; cases "sint b < 0") (simp_all add: modXi3_def signed_div_simps udivmod)

lemma divmod_signed:
  "b \<noteq> 0 \<Longrightarrow> divmodXi4 udivmod a b = (sdiv_c a b, smod_c a b)"
  using sdiv_c_abs [OF refl refl, of a b]
  by (cases "sint a < 0"; cases "sint b < 0") (simp_all add: divmodXi4_def signed_div_simps udivmod)

end

section \<open>The routines on \<open>si_int\<close>\<close>

text \<open>\<open>COMPUTE_UDIV\<close> of \<open>divsi3.c\<close> is the division of the language on \<open>su_int\<close>.\<close>

definition divsi3 :: "si_int \<Rightarrow> si_int \<Rightarrow> si_int" where
  "divsi3 a b = divXi3 (\<lambda>a b. a div b) a b"

definition modsi3 :: "si_int \<Rightarrow> si_int \<Rightarrow> si_int" where
  "modsi3 a b = a - divsi3 a b * b"

definition divmodsi4 :: "si_int \<Rightarrow> si_int \<Rightarrow> si_int \<times> si_int" where
  "divmodsi4 a b = divmodXi4 udivmodsi4 a b"

lemma udivsi3_eq: "d \<noteq> 0 \<Longrightarrow> udivsi3 n d = n div d"
  using udiv_umod_correct [of d n] by (simp add: udivsi3_def)

lemma udivdi3_eq: "d \<noteq> 0 \<Longrightarrow> udivdi3 n d = n div d"
  using udiv_umod_correct [of d n] by (simp add: udivdi3_def)

lemma umodsi3_eq: "d \<noteq> 0 \<Longrightarrow> umodsi3 n d = n mod d"
  using udiv_umod_correct [of d n] by (simp add: umodsi3_def)

lemma umoddi3_eq: "d \<noteq> 0 \<Longrightarrow> umoddi3 n d = n mod d"
  using udiv_umod_correct [of d n] by (simp add: umoddi3_def)

lemma sub_div_mult: "n - n div d * d = n mod (d :: 'a::len word)"
  by (metis add_diff_cancel_left' div_mult_mod_eq)

interpretation div_si: unsigned_divmod udivmodsi4
  by unfold_locales (simp add: udivmodsi4_def udivsi3_eq sub_div_mult)

interpretation native_si: unsigned_divmod "\<lambda>n d :: su_int. (n div d, n mod d)"
  by unfold_locales simp

lemma divsi3_eq: "b \<noteq> 0 \<Longrightarrow> divsi3 a b = sdiv_c a b"
  using native_si.div_signed by (simp add: divsi3_def)

lemma sub_sdiv_mult: "a - sdiv_c a b * b = smod_c a b"
proof -
  have "word_of_int (sint a - (sint a sdiv sint b) * sint b) = (word_of_int (sint a smod sint b) :: 'a word)"
    by (metis minus_sdiv_mult_eq_smod)
  then show ?thesis by (simp add: sdiv_c_def smod_c_def)
qed

lemma modsi3_eq: "b \<noteq> 0 \<Longrightarrow> modsi3 a b = smod_c a b"
  by (simp add: modsi3_def divsi3_eq sub_sdiv_mult)

lemma divmodsi4_eq: "b \<noteq> 0 \<Longrightarrow> divmodsi4 a b = (sdiv_c a b, smod_c a b)"
  by (simp add: divmodsi4_def div_si.divmod_signed)

end
