(* ===== verification/Int_Divmod_Di.thy ===== *)
theory Int_Divmod_Di
  imports Int_Div
begin

text \<open>
  \<open>udivmoddi4.c\<close>: division of 64-bit words on their 32-bit halves, with its special cases
  and its loop, and the signed routines \<open>divdi3.c\<close>, \<open>moddi3.c\<close> and \<open>divmoddi4.c\<close> on top
  of it. The pointer \<open>rem\<close> may be null; the model returns the quotient and the value that
  is stored when it is not.
\<close>

section \<open>The code\<close>

fun udivmoddi4_loop ::
    "nat \<Rightarrow> du_int \<Rightarrow> su_int halves \<Rightarrow> su_int halves \<Rightarrow> su_int \<Rightarrow> su_int halves \<times> su_int halves \<times> su_int" where
  "udivmoddi4_loop 0 d r q carry = (r, q, carry)"
| "udivmoddi4_loop (Suc sr) d r q carry =
    (let r_high = push_bit 1 (high r) OR drop_bit (32 - 1) (low r);
         r_low = push_bit 1 (low r) OR drop_bit (32 - 1) (high q);
         q_high = push_bit 1 (high q) OR drop_bit (32 - 1) (low q);
         q_low = push_bit 1 (low q) OR carry;
         r_all = (all \<lparr>low = r_low, high = r_high\<rparr> :: du_int);
         s = signed_drop_bit (64 - 1) (d - r_all - 1);
         carry = ucast (s AND 1);
         r_all = r_all - (d AND s)
     in udivmoddi4_loop sr d (of_all r_all) \<lparr>low = q_low, high = q_high\<rparr> carry)"

definition udivmoddi4_finish :: "su_int \<Rightarrow> du_int \<Rightarrow> su_int halves \<Rightarrow> su_int halves \<Rightarrow> du_int \<times> du_int" where
  "udivmoddi4_finish sr d q r =
    (let (r, q, carry) = udivmoddi4_loop (unat sr) d r q 0;
         q_all = push_bit 1 (all q) OR ucast carry
     in (q_all, all r))"

definition udivmoddi4 :: "du_int \<Rightarrow> du_int \<Rightarrow> du_int \<times> du_int" where
  "udivmoddi4 a b =
    (let n_uword_bits = 32 :: su_int;
         n_udword_bits = 64 :: su_int;
         n = (of_all a :: su_int halves);
         d = (of_all b :: su_int halves)
     in
     if high n = 0 then
       (if high d = 0 then (ucast (low n div low d), ucast (low n mod low d))
        else (0, ucast (low n)))
     else if low d = 0 then
       (if high d = 0 then (ucast (high n div low d), ucast (high n mod low d))
        else if low n = 0 then
          (ucast (high n div high d), all \<lparr>low = 0, high = high n mod high d\<rparr>)
        else if high d AND (high d - 1) = 0 then
          (ucast (drop_bit (builtin_ctz (high d)) (high n)),
           all \<lparr>low = low n, high = high n AND (high d - 1)\<rparr>)
        else
          let sr = of_nat (builtin_clz (high d)) - of_nat (builtin_clz (high n)) :: su_int
          in if sr > n_uword_bits - 2 then (0, a)
             else
               let sr = sr + 1;
                   q = \<lparr>low = 0, high = push_bit (unat (n_uword_bits - sr)) (low n)\<rparr>;
                   r = \<lparr>low = push_bit (unat (n_uword_bits - sr)) (high n) OR drop_bit (unat sr) (low n),
                        high = drop_bit (unat sr) (high n)\<rparr>
               in udivmoddi4_finish sr b q r)
     else if high d = 0 then
       (if low d AND (low d - 1) = 0 then
          (let rem = ucast (low n AND (low d - 1))
           in if low d = 1 then (a, rem)
              else
                let sr = builtin_ctz (low d);
                    q = \<lparr>low = push_bit (unat (n_uword_bits - of_nat sr)) (high n) OR drop_bit sr (low n),
                         high = drop_bit sr (high n)\<rparr>
                in (all q, rem))
        else
          let sr = 1 + n_uword_bits + of_nat (builtin_clz (low d)) - of_nat (builtin_clz (high n)) :: su_int;
              (q, r) =
                (if sr = n_uword_bits then
                   (\<lparr>low = 0, high = low n\<rparr>, \<lparr>low = high n, high = 0\<rparr>)
                 else if sr < n_uword_bits then
                   (\<lparr>low = 0, high = push_bit (unat (n_uword_bits - sr)) (low n)\<rparr>,
                    \<lparr>low = push_bit (unat (n_uword_bits - sr)) (high n) OR drop_bit (unat sr) (low n),
                     high = drop_bit (unat sr) (high n)\<rparr>)
                 else
                   (\<lparr>low = push_bit (unat (n_udword_bits - sr)) (low n),
                     high = push_bit (unat (n_udword_bits - sr)) (high n) OR
                       drop_bit (unat (sr - n_uword_bits)) (low n)\<rparr>,
                    \<lparr>low = drop_bit (unat (sr - n_uword_bits)) (high n), high = 0\<rparr>))
          in udivmoddi4_finish sr b q r)
     else
       let sr = of_nat (builtin_clz (high d)) - of_nat (builtin_clz (high n)) :: su_int
       in if sr > n_uword_bits - 1 then (0, a)
          else
            let sr = sr + 1;
                (q, r) =
                  (if sr = n_uword_bits then
                     (\<lparr>low = 0, high = low n\<rparr>, \<lparr>low = high n, high = 0\<rparr>)
                   else
                     (\<lparr>low = 0, high = push_bit (unat (n_uword_bits - sr)) (low n)\<rparr>,
                      \<lparr>low = push_bit (unat (n_uword_bits - sr)) (high n) OR drop_bit (unat sr) (low n),
                       high = drop_bit (unat sr) (high n)\<rparr>))
            in udivmoddi4_finish sr b q r)"

definition divdi3 :: "di_int \<Rightarrow> di_int \<Rightarrow> di_int" where
  "divdi3 a b = divXi3 (\<lambda>a b. fst (udivmoddi4 a b)) a b"

definition moddi3 :: "di_int \<Rightarrow> di_int \<Rightarrow> di_int" where
  "moddi3 a b = modXi3 (\<lambda>a b. snd (udivmoddi4 a b)) a b"

definition divmoddi4 :: "di_int \<Rightarrow> di_int \<Rightarrow> di_int \<times> di_int" where
  "divmoddi4 a b = divmodXi4 udivmoddi4 a b"

section \<open>The loop on halves is the loop on words\<close>

lemma word_bit_ge: "LENGTH('a) \<le> n \<Longrightarrow> \<not> bit (w :: 'a::len word) n"
  by (metis bit_imp_le_length not_le)

lemma shift_in_halves:
  fixes r q :: "su_int halves"
  shows "(all \<lparr>low = push_bit 1 (low r) OR drop_bit 31 (high q), high = push_bit 1 (high r) OR drop_bit 31 (low r)\<rparr> :: du_int) =
      push_bit 1 (all r) OR drop_bit 63 (all q)"
proof (rule bit_word_eqI)
  fix n
  assume "n < LENGTH(64)"
  then consider "n = 0" | "0 < n \<and> n < 32" | "n = 32" | "32 < n \<and> n < 64" by fastforce
  then show "bit (all \<lparr>low = push_bit 1 (low r) OR drop_bit 31 (high q),
      high = push_bit 1 (high r) OR drop_bit 31 (low r)\<rparr> :: du_int) n \<longleftrightarrow>
    bit (push_bit 1 (all r) OR drop_bit 63 (all q) :: du_int) n"
    unfolding halves_bits halves.simps by cases (auto simp: word_bit_ge)
qed

lemma shift_carry_halves:
  fixes q :: "su_int halves"
  assumes "unat c < 2"
  shows "(all \<lparr>low = push_bit 1 (low q) OR c, high = push_bit 1 (high q) OR drop_bit 31 (low q)\<rparr> :: du_int) =
      push_bit 1 (all q) OR ucast c"
proof (rule bit_word_eqI)
  have "c = 0 \<or> c = 1" using assms by (auto simp: less_2_cases_iff word_unat_eq_iff)
  then have c: "bit c m \<longleftrightarrow> m = 0 \<and> c = 1" for m by (auto simp: bit_1_iff)
  fix n
  assume "n < LENGTH(64)"
  then consider "n = 0" | "0 < n \<and> n < 32" | "n = 32" | "32 < n \<and> n < 64" by fastforce
  then show "bit (all \<lparr>low = push_bit 1 (low q) OR c, high = push_bit 1 (high q) OR drop_bit 31 (low q)\<rparr> :: du_int) n \<longleftrightarrow>
    bit (push_bit 1 (all q) OR ucast c :: du_int) n"
    unfolding halves_bits halves.simps bit_unsigned_iff c by cases (auto simp: word_bit_ge)
qed

lemma udivmoddi4_loop_all:
  "unat c < 2 \<Longrightarrow> udivmoddi4_loop k d r q c = (r', q', c') \<Longrightarrow>
    udiv_loop k d (all r) (all q) (ucast c) = (all r', all q', ucast c')"
proof (induction k arbitrary: r q c)
  case (Suc k)
  have numerals: "(32 :: nat) - 1 = 31" "(64 :: nat) - 1 = 63" by simp_all
  have len: "LENGTH(64) = 64" by simp
  define r1 where "r1 = push_bit 1 (all r) OR drop_bit 63 (all q :: du_int)"
  define s where "s = signed_drop_bit 63 (d - r1 - 1)"
  define c1 :: su_int where "c1 = ucast (s AND 1)"
  have s1: "unat (s AND 1) < 2" by (simp add: and_one_eq unat_mod)
  then have c1: "unat c1 < 2" "ucast c1 = s AND 1"
    unfolding c1_def by (simp_all add: unat_ucast_mod word_unat_eq_iff)
  define q1 where "q1 = \<lparr>low = push_bit 1 (low q) OR c, high = push_bit 1 (high q) OR drop_bit 31 (low q)\<rparr>"
  have "udivmoddi4_loop k d (of_all (r1 - (d AND s))) q1 c1 = (r', q', c')"
    using Suc.prems(2) unfolding q1_def c1_def s_def r1_def
    by (simp only: udivmoddi4_loop.simps Let_def numerals shift_in_halves)
  from Suc.IH [OF c1(1) this]
  have "udiv_loop k d (r1 - (d AND s)) (push_bit 1 (all q) OR ucast c) (s AND 1) = (all r', all q', ucast c')"
    unfolding q1_def shift_carry_halves [OF Suc.prems(1)] c1(2) by simp
  then show ?case unfolding s_def r1_def by (simp only: udiv_loop.simps Let_def len numerals)
qed simp

lemma udivmoddi4_finish_correct:
  assumes "all q = push_bit (64 - unat sr) a" "all r = drop_bit (unat sr) a" "0 < unat sr" "unat sr < 64"
    "unat a div 2 ^ unat sr < unat b" "unat b \<le> 2 ^ 63 \<or> unat sr = 1 \<and> 2 ^ 63 \<le> unat a"
  shows "udivmoddi4_finish sr b q r = (a div b, a mod b)"
proof -
  obtain r' q' c where l: "udivmoddi4_loop (unat sr) b r q 0 = (r', q', c)" using prod_cases3 by blast
  have "udiv_loop (unat sr) b (drop_bit (unat sr) a) (push_bit (64 - unat sr) a) 0 = (all r', all q', ucast c)"
    using udivmoddi4_loop_all [OF _ l] assms(1,2) by simp
  with udiv_loop_correct [of "unat sr" a b] assms(3-6) show ?thesis
    by (simp add: udivmoddi4_finish_def l)
qed

lemma general_case:
  assumes "a \<noteq> 0" "b \<noteq> 0" "builtin_clz a \<le> builtin_clz b" "unat sr = Suc (builtin_clz b - builtin_clz a)"
    "unat sr \<noteq> 64" "all q = push_bit (64 - unat sr) a" "all r = drop_bit (unat sr) a"
  shows "udivmoddi4_finish sr b q r = (a div b, a mod b)"
  using sr_first [OF assms(2,1,3), folded assms(4)] assms(4-7) by (intro udivmoddi4_finish_correct) simp_all

section \<open>The special cases\<close>

lemma pow2_test:
  fixes w :: "'a::len word"
  assumes "w \<noteq> 0" "w AND (w - 1) = 0"
  shows "unat w = 2 ^ builtin_ctz w"
proof -
  have w: "0 < unat w" using assms(1) by (simp add: unat_gt_0)
  then obtain m where m: "odd m" "unat w = m * 2 ^ builtin_ctz w" unfolding builtin_ctz_def by (rule ntz_decomp)
  let ?k = "builtin_ctz w"
  obtain j where j: "m = Suc (2 * j)" using m(1) by (auto elim: oddE)
  have e1: "unat w = 2 ^ ?k + 2 ^ Suc ?k * j" using m(2) j by (simp add: algebra_simps)
  have e: "unat w = 2 ^ ?k + 2 ^ Suc ?k * j" "unat (w - 1) = (2 ^ ?k - 1) + 2 ^ Suc ?k * j"
    using unat_minus_one [OF assms(1)] e1 by simp_all
  have "0 = unat w AND unat (w - 1)" using assms(2) by (metis unat_and_eq unat_0)
  also have "\<dots> = (2 ^ ?k AND (2 ^ ?k - 1)) + 2 ^ Suc ?k * (j AND j)"
    unfolding e by (rule nat_and_split) (simp_all add: less_imp_diff_less)
  finally have "j = 0" by simp
  then show ?thesis using m j by simp
qed

lemma unat_and_pow2:
  fixes n w :: "'a::len word"
  assumes "unat w = 2 ^ k"
  shows "unat (n AND (w - 1)) = unat n mod unat w"
proof -
  have "unat (w - 1) = 2 ^ k - 1" using assms by (simp add: unat_sub_if')
  then show ?thesis using nat_and_mask by (simp add: unat_and_eq assms del: One_nat_def)
qed

lemma clz_halves:
  assumes "x = (of_all (a :: du_int) :: su_int halves)"
  shows "builtin_clz a = (if high x = 0 then 32 + builtin_clz (low x) else builtin_clz (high x))"
  using nbits_halves [OF _ assms] nbits_unat_le [of "low x"] nbits_unat_le [of "high x"] by (simp add: builtin_clz_def)

text \<open>The three ways the registers are set up: \<open>sr\<close> below, at and above the width of a half.\<close>

lemma registers:
  assumes "n = (of_all (a :: du_int) :: su_int halves)"
  shows "0 < k \<Longrightarrow> k < 32 \<Longrightarrow> (all \<lparr>low = 0, high = push_bit (32 - k) (low n)\<rparr> :: du_int) = push_bit (64 - k) a"
    "0 < k \<Longrightarrow> k < 32 \<Longrightarrow> (all \<lparr>low = push_bit (32 - k) (high n) OR drop_bit k (low n), high = drop_bit k (high n)\<rparr> :: du_int) = drop_bit k a"
    "(all \<lparr>low = 0, high = low n\<rparr> :: du_int) = push_bit 32 a"
    "(all \<lparr>low = high n, high = 0\<rparr> :: du_int) = drop_bit 32 a"
    "32 < k \<Longrightarrow> k < 64 \<Longrightarrow> (all \<lparr>low = push_bit (64 - k) (low n), high = push_bit (64 - k) (high n) OR drop_bit (k - 32) (low n)\<rparr> :: du_int) =
      push_bit (64 - k) a"
    "32 < k \<Longrightarrow> k < 64 \<Longrightarrow> (all \<lparr>low = drop_bit (k - 32) (high n), high = 0\<rparr> :: du_int) = drop_bit k a"
  using ashl_halves [OF _ assms, of "64 - k"] ashl_halves(1) [OF _ assms, of 32]
    lshr_halves [OF _ assms, of k] lshr_halves(1) [OF _ assms, of 32]
  by simp_all

lemma words_by_unat:
  assumes "unat q = unat a div unat b" "unat r = unat a mod unat b"
  shows "(q, r) = (a div b, a mod b :: 'a::len word)"
  using assms by (simp add: word_unat_eq_iff unat_div unat_mod)

text \<open>Dividend and divisor with the lower half of the divisor zero.\<close>

lemma div_high:
  fixes nh nl dh :: nat
  assumes "nl < 2 ^ 32" "0 < dh"
  shows "(nh * 2 ^ 32 + nl) div (dh * 2 ^ 32) = nh div dh" "(nh * 2 ^ 32 + nl) mod (dh * 2 ^ 32) = nh mod dh * 2 ^ 32 + nl"
proof -
  have q: "(nh * 2 ^ 32 + nl) div 2 ^ 32 = nh" "(nh * 2 ^ 32 + nl) mod 2 ^ 32 = nl" using assms by simp_all
  show "(nh * 2 ^ 32 + nl) div (dh * 2 ^ 32) = nh div dh"
    by (subst mult.commute [of dh]) (simp only: div_mult2_eq q)
  show "(nh * 2 ^ 32 + nl) mod (dh * 2 ^ 32) = nh mod dh * 2 ^ 32 + nl"
    by (subst mult.commute [of dh], subst mod_mult2_eq, subst q, subst q) simp
qed

lemma sr_small: "unat (sr :: su_int) \<le> 32 \<Longrightarrow> unat (32 - sr) = 32 - unat sr"
  "unat sr \<le> 64 \<Longrightarrow> unat (64 - sr) = 64 - unat sr" "32 \<le> unat sr \<Longrightarrow> unat (sr - 32) = unat sr - 32"
  by (simp_all add: unat_sub_if')

lemma low_zero_case:
  fixes a b :: du_int
  assumes n: "n = (of_all a :: su_int halves)" and d: "d = (of_all b :: su_int halves)"
    and nz: "high n \<noteq> 0" "high d \<noteq> 0" "low d = 0"
  shows "low n = 0 \<Longrightarrow> (ucast (high n div high d), all \<lparr>low = 0, high = high n mod high d\<rparr>) = (a div b, a mod b)"
    "high d AND (high d - 1) = 0 \<Longrightarrow>
      (ucast (drop_bit (builtin_ctz (high d)) (high n)), all \<lparr>low = low n, high = high n AND (high d - 1)\<rparr>) = (a div b, a mod b)"
proof -
  have ab: "unat a = unat (high n) * 2 ^ 32 + unat (low n)" "unat b = unat (high d) * 2 ^ 32"
    using unat_eq_halves [of a, where 'h = 32] unat_eq_halves [of b, where 'h = 32] nz by (simp_all add: n [symmetric] d [symmetric])
  have dh: "0 < unat (high d)" using nz by (simp add: unat_gt_0)
  have nl: "unat (low n) < 2 ^ 32" using unat_lt [of "low n"] by simp
  note q = div_high [OF nl dh, of "unat (high n)"]
  have up: "unat (ucast w :: du_int) = unat w" for w :: su_int by (rule unat_ucast_up) simp
  show "(ucast (high n div high d), all \<lparr>low = 0, high = high n mod high d\<rparr>) = (a div b, a mod b)" if "low n = 0"
    by (rule words_by_unat) (use that q in \<open>simp_all add: ab up unat_div unat_mod unat_all\<close>)
  show "(ucast (drop_bit (builtin_ctz (high d)) (high n)), all \<lparr>low = low n, high = high n AND (high d - 1)\<rparr>) = (a div b, a mod b)"
    if "high d AND (high d - 1) = 0"
  proof (rule words_by_unat)
    note p = pow2_test [OF nz(2) that]
    show "unat (ucast (drop_bit (builtin_ctz (high d)) (high n)) :: du_int) = unat a div unat b"
      by (simp only: up unat_drop_bit_div p [symmetric] ab q)
    show "unat (all \<lparr>low = low n, high = high n AND (high d - 1)\<rparr> :: du_int) = unat a mod unat b"
      using q by (simp add: unat_all unat_and_pow2 [OF p] ab)
  qed
qed

lemma pow2_low_case:
  fixes a b :: du_int
  assumes n: "n = (of_all a :: su_int halves)" and d: "d = (of_all b :: su_int halves)"
    and nz: "low d \<noteq> 0" "high d = 0" and p2: "low d AND (low d - 1) = 0"
  shows "ucast (low n AND (low d - 1)) = a mod b"
    "low d = 1 \<Longrightarrow> a = a div b"
    "low d \<noteq> 1 \<Longrightarrow>
      all \<lparr>low = push_bit (unat (32 - of_nat (builtin_ctz (low d)) :: su_int)) (high n) OR drop_bit (builtin_ctz (low d)) (low n),
           high = drop_bit (builtin_ctz (low d)) (high n)\<rparr> = a div b"
proof -
  have b: "unat b = unat (low d)"
    using unat_eq_halves [of b, where 'h = 32] nz by (simp add: d [symmetric])
  note p = pow2_test [OF nz(1) p2]
  have up: "unat (ucast w :: du_int) = unat w" for w :: su_int by (rule unat_ucast_up) simp
  have lt: "builtin_ctz (low d) < 32" using builtin_ctz_less [OF nz(1)] by simp
  have "unat (low n) mod 2 ^ builtin_ctz (low d) = unat a mod 2 ^ builtin_ctz (low d)"
    using unat_low [of a, where 'h = 32] mod_mod_cancel [OF le_imp_power_dvd [OF less_imp_le [OF lt]], of "unat a" 2]
    by (simp add: n)
  then show "ucast (low n AND (low d - 1)) = a mod b"
    by (intro unat_eqI) (simp add: up unat_and_pow2 [OF p] unat_mod b p)
  show "a = a div b" if "low d = 1" using that b by (intro unat_eqI) (simp add: unat_div)
  assume "low d \<noteq> 1"
  then have "0 < builtin_ctz (low d)" using p by (auto simp: word_unat_eq_iff intro: Suc_leI neq0_conv [THEN iffD1])
  moreover have "unat (32 - of_nat (builtin_ctz (low d)) :: su_int) = 32 - builtin_ctz (low d)"
    using lt by (simp add: unat_sub_if' unat_of_nat)
  ultimately show "all \<lparr>low = push_bit (unat (32 - of_nat (builtin_ctz (low d)) :: su_int)) (high n) OR drop_bit (builtin_ctz (low d)) (low n),
      high = drop_bit (builtin_ctz (low d)) (high n)\<rparr> = a div b"
    using registers(2) [OF n _ lt] by (simp only:) (intro unat_eqI, simp add: unat_drop_bit_div unat_div b p)
qed

lemma clz_sr:
  fixes x y :: nat
  assumes "x \<le> 64" "y \<le> 64"
  shows "y \<le> x \<Longrightarrow> unat (of_nat x - of_nat y + 1 :: su_int) = Suc (x - y)"
    "y \<le> x \<Longrightarrow> unat (of_nat x - of_nat y :: su_int) = x - y"
    "x < y \<Longrightarrow> 64 < unat (of_nat x - of_nat y :: su_int)"
proof -
  have "unat (of_nat x :: su_int) = x" "unat (of_nat y :: su_int) = y" using assms by (simp_all add: unat_of_nat)
  then show u: "y \<le> x \<Longrightarrow> unat (of_nat x - of_nat y :: su_int) = x - y"
    and "x < y \<Longrightarrow> 64 < unat (of_nat x - of_nat y :: su_int)"
    using assms by (simp_all add: unat_sub_if')
  show "y \<le> x \<Longrightarrow> unat (of_nat x - of_nat y + 1 :: su_int) = Suc (x - y)"
    using u assms by (subst unat_add_small) simp_all
qed

lemma clz_less_div: "builtin_clz b < builtin_clz a \<Longrightarrow> (0, a) = (a div b, a mod b)"
  using nbits_less_imp [of "unat a" "unat b"] by (intro words_by_unat) (simp_all add: clz_less_iff)

section \<open>Correctness\<close>

lemma general_low_case:
  fixes a b :: du_int
  assumes n: "n = (of_all a :: su_int halves)" and d: "d = (of_all b :: su_int halves)"
    and nz: "high n \<noteq> 0" "low d \<noteq> 0" "high d = 0" "low d AND (low d - 1) \<noteq> 0"
    and sr: "sr = 1 + 32 + of_nat (builtin_clz (low d)) - of_nat (builtin_clz (high n))"
    and qr: "(q, r) =
      (if sr = 32 then (\<lparr>low = 0, high = low n\<rparr>, \<lparr>low = high n, high = 0\<rparr>)
       else if sr < 32 then
         (\<lparr>low = 0, high = push_bit (unat (32 - sr)) (low n)\<rparr>,
          \<lparr>low = push_bit (unat (32 - sr)) (high n) OR drop_bit (unat sr) (low n), high = drop_bit (unat sr) (high n)\<rparr>)
       else
         (\<lparr>low = push_bit (unat (64 - sr)) (low n),
           high = push_bit (unat (64 - sr)) (high n) OR drop_bit (unat (sr - 32)) (low n)\<rparr>,
          \<lparr>low = drop_bit (unat (sr - 32)) (high n), high = 0\<rparr>))"
  shows "udivmoddi4_finish sr b q r = (a div b, a mod b)"
proof (rule general_case)
  have clz: "builtin_clz a = builtin_clz (high n)" "builtin_clz b = 32 + builtin_clz (low d)"
    using clz_halves [OF n] clz_halves [OF d] nz by simp_all
  have lt: "builtin_clz (high n) < 32" "builtin_clz (low d) < 32"
    using builtin_clz_less [OF nz(1)] builtin_clz_less [OF nz(2)] by simp_all
  show le: "builtin_clz a \<le> builtin_clz b" using clz lt by simp
  show a: "a \<noteq> 0" and b: "b \<noteq> 0" using nz n d by (auto simp: of_all_def)
  have "sr = of_nat (builtin_clz b) - of_nat (builtin_clz a) + 1" using sr clz by simp
  then show s: "unat sr = Suc (builtin_clz b - builtin_clz a)"
    using clz_sr(1) [OF _ _ le] clz lt by simp
  have "b \<noteq> 1" using nz(4) d by (auto simp: of_all_def)
  then show s64: "unat sr \<noteq> 64" using sr_first(4) [OF b a le, folded s] by simp
  then have u: "0 < unat sr" "unat sr < 64" using s clz lt by linarith+
  consider "sr = 32" | "sr \<noteq> 32" "unat sr < 32" | "sr \<noteq> 32" "32 < unat sr"
    by (cases "unat sr" "32 :: nat" rule: linorder_cases) (auto simp: word_unat_eq_iff)
  then show "all q = push_bit (64 - unat sr) a" "all r = drop_bit (unat sr) a"
    using qr registers(1,2,5,6) [OF n, of "unat sr"] registers(3,4) [OF n] u sr_small [of sr] by (cases; simp add: word_less_nat_alt)+
qed

lemma general_high_case:
  fixes a b :: du_int
  assumes n: "n = (of_all a :: su_int halves)" and d: "d = (of_all b :: su_int halves)"
    and nz: "high n \<noteq> 0" "high d \<noteq> 0"
    and sr: "sr = of_nat (builtin_clz (high d)) - of_nat (builtin_clz (high n))" "sr \<le> 31"
    and qr: "(q, r) =
      (if sr + 1 = 32 then (\<lparr>low = 0, high = low n\<rparr>, \<lparr>low = high n, high = 0\<rparr>)
       else
         (\<lparr>low = 0, high = push_bit (unat (32 - (sr + 1))) (low n)\<rparr>,
          \<lparr>low = push_bit (unat (32 - (sr + 1))) (high n) OR drop_bit (unat (sr + 1)) (low n),
           high = drop_bit (unat (sr + 1)) (high n)\<rparr>))"
  shows "udivmoddi4_finish (sr + 1) b q r = (a div b, a mod b)"
proof (rule general_case)
  have clz: "builtin_clz a = builtin_clz (high n)" "builtin_clz b = builtin_clz (high d)"
    using clz_halves [OF n] clz_halves [OF d] nz by simp_all
  have lt: "builtin_clz (high n) < 32" "builtin_clz (high d) < 32"
    using builtin_clz_less [OF nz(1)] builtin_clz_less [OF nz(2)] by simp_all
  show le: "builtin_clz a \<le> builtin_clz b"
    using clz_sr(3) [of "builtin_clz b" "builtin_clz a"] sr lt clz by (force simp: word_le_nat_alt)
  show a: "a \<noteq> 0" and b: "b \<noteq> 0" using nz n d by (auto simp: of_all_def)
  show s: "unat (sr + 1) = Suc (builtin_clz b - builtin_clz a)"
    using clz_sr(1) [OF _ _ le] clz lt sr(1) by simp
  then show "unat (sr + 1) \<noteq> 64" using lt clz by simp
  have u: "0 < unat (sr + 1)" "unat (sr + 1) \<le> 32" using s clz lt by linarith+
  consider "sr + 1 = 32" | "sr + 1 \<noteq> 32" "unat (sr + 1) < 32"
    using u by (cases "sr + 1 = 32") (auto simp: word_unat_eq_iff)
  then show "all q = push_bit (64 - unat (sr + 1)) a" "all r = drop_bit (unat (sr + 1)) a"
    using qr registers(1,2) [OF n, of "unat (sr + 1)"] registers(3,4) [OF n] u sr_small(1) [of "sr + 1"] by (cases; simp)+
qed

lemma high_small_case:
  fixes a b :: du_int
  assumes n: "n = (of_all a :: su_int halves)" and d: "d = (of_all b :: su_int halves)"
    and nz: "high n \<noteq> 0" "high d \<noteq> 0"
    and sr: "sr = of_nat (builtin_clz (high d)) - of_nat (builtin_clz (high n))" "\<not> (sr :: su_int) \<le> 31"
  shows "(0, a) = (a div b, a mod b)"
proof (rule clz_less_div)
  have clz: "builtin_clz a = builtin_clz (high n)" "builtin_clz b = builtin_clz (high d)"
    using clz_halves [OF n] clz_halves [OF d] nz by simp_all
  have lt: "builtin_clz (high n) < 32" "builtin_clz (high d) < 32"
    using builtin_clz_less [OF nz(1)] builtin_clz_less [OF nz(2)] by simp_all
  show "builtin_clz b < builtin_clz a"
    using clz_sr(2) [of "builtin_clz b" "builtin_clz a"] sr lt clz by (force simp: word_le_nat_alt)
qed

lemma high_zero_case:
  fixes a b :: du_int
  assumes n: "n = (of_all a :: su_int halves)" and d: "d = (of_all b :: su_int halves)" and z: "high n = 0"
  shows "high d = 0 \<Longrightarrow> (ucast (low n div low d), ucast (low n mod low d)) = (a div b, a mod b)"
    "high d \<noteq> 0 \<Longrightarrow> (0, ucast (low n)) = (a div b, a mod b)"
proof -
  have ab: "unat a = unat (low n)" "unat b = unat (high d) * 2 ^ 32 + unat (low d)"
    using unat_eq_halves [of a, where 'h = 32] unat_eq_halves [of b, where 'h = 32] z
    by (simp_all add: n [symmetric] d [symmetric])
  have up: "unat (ucast w :: du_int) = unat w" for w :: su_int by (rule unat_ucast_up) simp
  show "(ucast (low n div low d), ucast (low n mod low d)) = (a div b, a mod b)" if "high d = 0"
    using that by (intro words_by_unat) (simp_all add: ab up unat_div unat_mod)
  have "unat a < unat b" if "high d \<noteq> 0"
  proof -
    have "unat a < 2 ^ 32" using ab(1) unat_lt [of "low n"] by simp
    also have "\<dots> \<le> unat (high d) * 2 ^ 32" using that by (simp add: unat_gt_0 Suc_le_eq)
    finally show ?thesis using ab(2) by simp
  qed
  then show "(0, ucast (low n)) = (a div b, a mod b)" if "high d \<noteq> 0"
    using that by (intro words_by_unat) (simp_all add: ab(1) up)
qed

lemma sr_31: "w \<noteq> 0 \<Longrightarrow> v \<noteq> 0 \<Longrightarrow> of_nat (builtin_clz w) - of_nat (builtin_clz v) = (31 :: su_int) \<Longrightarrow> w AND (w - 1) = 0"
  for w v :: su_int
proof -
  assume w: "w \<noteq> 0" and v: "v \<noteq> 0" and e: "of_nat (builtin_clz w) - of_nat (builtin_clz v) = (31 :: su_int)"
  have lt: "builtin_clz w < 32" "builtin_clz v < 32" using builtin_clz_less [OF w] builtin_clz_less [OF v] by simp_all
  then have "builtin_clz v \<le> builtin_clz w"
    using clz_sr(3) [of "builtin_clz w" "builtin_clz v"] e by force
  moreover from this have "builtin_clz w - builtin_clz v = 31"
    using clz_sr(2) [of "builtin_clz w" "builtin_clz v"] e lt by force
  ultimately have "w = 1" using sr_first(4) [OF w v] by simp
  then show ?thesis by simp
qed

lemma udivmoddi4_eq:
  assumes "b \<noteq> 0"
  shows "udivmoddi4 a b = (a div b, a mod b)"
proof -
  define n where "n = (of_all a :: su_int halves)"
  define d where "d = (of_all b :: su_int halves)"
  define sr :: su_int where "sr = of_nat (builtin_clz (high d)) - of_nat (builtin_clz (high n))"
  have nb: "\<not> (high d = 0 \<and> low d = 0)" using halves_zero_iff [OF _ d_def] assms by auto
  have g: "30 < sr \<longleftrightarrow> \<not> sr \<le> 31" if "high n \<noteq> 0" "high d \<noteq> 0" "high d AND (high d - 1) \<noteq> 0"
  proof -
    have "sr \<noteq> 31" using sr_31 that by (auto simp: sr_def)
    then show ?thesis by (auto simp: word_less_nat_alt word_le_nat_alt word_unat_eq_iff)
  qed
  note hz = high_zero_case [OF n_def d_def] and lz = low_zero_case [OF n_def d_def]
    and hs = high_small_case [OF n_def d_def _ _ sr_def] and gh = general_high_case [OF n_def d_def _ _ sr_def]
    and pl = pow2_low_case [OF n_def d_def] and gl = general_low_case [OF n_def d_def]
  note U = udivmoddi4_def [of a b, unfolded Let_def, folded n_def d_def, folded sr_def]
  note R = if_True if_False simp_thms
  have k: "(32 :: su_int) - 2 = 30" "(32 :: su_int) - 1 = 31" by simp_all
  show ?thesis
  proof (cases "high n = 0")
    case True
    then show ?thesis using hz by (cases "high d = 0") (simp_all only: U R)
  next
    case nh: False
    show ?thesis
    proof (cases "low d = 0")
      case ld: True
      then have hd: "high d \<noteq> 0" using nb by simp
      consider "low n = 0" | "low n \<noteq> 0" "high d AND (high d - 1) = 0" | "low n \<noteq> 0" "high d AND (high d - 1) \<noteq> 0" by blast
      then show ?thesis
      proof cases
        case 3
        note g = g [OF nh hd 3(2)]
        show ?thesis
        proof (cases "sr \<le> 31")
          case True
          then have "sr \<noteq> 31" using g by auto
          then have "sr + 1 \<noteq> 32" by (metis add_diff_cancel_right' k(2))
          then show ?thesis using nh hd ld 3 g True gh [OF nh hd True prod.collapse]
            by (simp only: U R k fst_conv snd_conv)
        next
          case False
          then show ?thesis using nh hd ld 3 g hs [OF nh hd False] by (simp only: U R k)
        qed
      qed (use nh hd ld lz in \<open>simp_all only: U R\<close>)
    next
      case ld: False
      consider "high d = 0" "low d AND (low d - 1) = 0" | "high d = 0" "low d AND (low d - 1) \<noteq> 0" | "high d \<noteq> 0" by blast
      then show ?thesis
      proof cases
        case 1
        show ?thesis using nh ld 1 pl [OF ld 1] by (cases "low d = 1") (simp_all only: U R)
      next
        case 2
        show ?thesis using nh ld 2 gl [OF nh ld 2 refl prod.collapse] by (simp only: U R split_beta)
      next
        case 3
        show ?thesis
        proof (cases "sr \<le> 31")
          case True
          then show ?thesis using nh ld 3 gh [OF nh 3 True prod.collapse] by (simp only: U R k split_beta not_less [symmetric])
        next
          case False
          then show ?thesis using nh ld 3 hs [OF nh 3 False] by (simp only: U R k not_less [symmetric])
        qed
      qed
    qed
  qed
qed

interpretation div_di: unsigned_divmod udivmoddi4
  by unfold_locales (rule udivmoddi4_eq)

lemma divdi3_eq: "b \<noteq> 0 \<Longrightarrow> divdi3 a b = sdiv_c a b"
  unfolding divdi3_def by (rule div_di.div_signed)

lemma moddi3_eq: "b \<noteq> 0 \<Longrightarrow> moddi3 a b = smod_c a b"
  unfolding moddi3_def by (rule div_di.mod_signed)

lemma divmoddi4_eq: "b \<noteq> 0 \<Longrightarrow> divmoddi4 a b = (sdiv_c a b, smod_c a b)"
  unfolding divmoddi4_def by (rule div_di.divmod_signed)

end
