(* ===== verification/Int_Divmod_Ti.thy ===== *)
theory Int_Divmod_Ti
  imports Int_Divmod_Di
begin

text \<open>
  \<open>udivmodti4.c\<close>: division of 128-bit words. A divisor that fits in 64 bits is divided by
  Knuth's Algorithm D in base \<open>2 ^ 32\<close> (\<open>udiv128by64to64default\<close>), with at most two
  corrections of each quotient digit; the others by shift and subtract. On top of it
  \<open>udivti3.c\<close>, \<open>umodti3.c\<close>, \<open>divti3.c\<close>, \<open>modti3.c\<close> and \<open>divmodti4.c\<close>.
\<close>

section \<open>The code\<close>

text \<open>
  The loop that corrects a quotient digit (\<open>q1\<close> with \<open>un1\<close>, then \<open>q0\<close> with \<open>un0\<close>). Its
  condition fails for \<open>q = 0\<close>, so it ends.
\<close>

function qhat_loop :: "du_int \<Rightarrow> du_int \<Rightarrow> du_int \<Rightarrow> du_int \<Rightarrow> du_int \<Rightarrow> du_int \<times> du_int" where
  "qhat_loop vn1 vn0 un q rhat =
    (let b = push_bit 32 1 :: du_int
     in if q \<ge> b \<or> q * vn0 > b * rhat + un then
          let q = q - 1; rhat = rhat + vn1
          in if rhat \<ge> b then (q, rhat) else qhat_loop vn1 vn0 un q rhat
        else (q, rhat))"
  by pat_completeness auto
termination
proof (relation "measure (\<lambda>(vn1, vn0, un, q, rhat). unat q)")
  fix vn1 vn0 un q rhat b q' rhat' :: du_int
  assume "b = push_bit 32 1" "q \<ge> b \<or> q * vn0 > b * rhat + un" "q' = q - 1"
  then have "q \<noteq> 0" by auto
  then show "((vn1, vn0, un, q', rhat'), vn1, vn0, un, q, rhat) \<in> measure (\<lambda>(vn1, vn0, un, q, rhat). unat q)"
    using \<open>q' = q - 1\<close> unat_gt_0 [of q] by (simp add: unat_minus_one)
qed simp

declare qhat_loop.simps [simp del]

definition udiv128by64to64default :: "du_int \<Rightarrow> du_int \<Rightarrow> du_int \<Rightarrow> du_int \<times> du_int" where
  "udiv128by64to64default u1 u0 v =
    (let n_udword_bits = 64 :: nat;
         b = push_bit (n_udword_bits div 2) 1 :: du_int;
         s = builtin_clz v;
         (v, un64, un10) =
           (if s > 0 then
              (push_bit s v,
               push_bit s u1 OR drop_bit (n_udword_bits - s) u0,
               push_bit s u0)
            else (v, u1, u0));
         vn1 = drop_bit (n_udword_bits div 2) v;
         vn0 = v AND 0xFFFFFFFF;
         un1 = drop_bit (n_udword_bits div 2) un10;
         un0 = un10 AND 0xFFFFFFFF;
         q1 = un64 div vn1;
         rhat = un64 - q1 * vn1;
         (q1, rhat) = qhat_loop vn1 vn0 un1 q1 rhat;
         un21 = un64 * b + un1 - q1 * v;
         q0 = un21 div vn1;
         rhat = un21 - q0 * vn1;
         (q0, rhat) = qhat_loop vn1 vn0 un0 q0 rhat;
         r = drop_bit s (un21 * b + un0 - q0 * v)
     in (q1 * b + q0, r))"

definition udiv128by64to64 :: "du_int \<Rightarrow> du_int \<Rightarrow> du_int \<Rightarrow> du_int \<times> du_int" where
  "udiv128by64to64 u1 u0 v = udiv128by64to64default u1 u0 v"

fun udivmodti4_loop :: "nat \<Rightarrow> tu_int \<Rightarrow> tu_int \<Rightarrow> du_int \<Rightarrow> tu_int \<times> du_int" where
  "udivmodti4_loop 0 divisor dividend quotient_low = (dividend, quotient_low)"
| "udivmodti4_loop (Suc shift) divisor dividend quotient_low =
    (let quotient_low = push_bit 1 quotient_low;
         s = signed_drop_bit (128 - 1) (divisor - dividend - 1);
         quotient_low = quotient_low OR ucast (s AND 1);
         dividend = dividend - (divisor AND s);
         divisor = drop_bit 1 divisor
     in udivmodti4_loop shift divisor dividend quotient_low)"

definition udivmodti4 :: "tu_int \<Rightarrow> tu_int \<Rightarrow> tu_int \<times> tu_int" where
  "udivmodti4 a b =
    (let dividend = (of_all a :: du_int halves);
         divisor = (of_all b :: du_int halves)
     in
     if b > a then (0, a)
     else if high divisor = 0 then
       (if high dividend < low divisor then
          let (quotient_low, remainder_low) = udiv128by64to64 (high dividend) (low dividend) (low divisor)
          in (all \<lparr>low = quotient_low, high = 0\<rparr>, all \<lparr>low = remainder_low, high = 0\<rparr>)
        else
          let quotient_high = high dividend div low divisor;
              dividend_high = high dividend mod low divisor;
              (quotient_low, remainder_low) = udiv128by64to64 dividend_high (low dividend) (low divisor)
          in (all \<lparr>low = quotient_low, high = quotient_high\<rparr>, all \<lparr>low = remainder_low, high = 0\<rparr>))
     else
       let shift = of_nat (builtin_clz (high divisor)) - of_nat (builtin_clz (high dividend)) :: si_int;
           divisor_all = push_bit (unat shift) b;
           (dividend_all, quotient_low) = udivmodti4_loop (nat (sint shift + 1)) divisor_all a 0
       in (all \<lparr>low = quotient_low, high = 0\<rparr>, dividend_all))"

definition udivti3 :: "tu_int \<Rightarrow> tu_int \<Rightarrow> tu_int" where
  "udivti3 a b = fst (udivmodti4 a b)"

definition umodti3 :: "tu_int \<Rightarrow> tu_int \<Rightarrow> tu_int" where
  "umodti3 a b = snd (udivmodti4 a b)"

definition divti3 :: "ti_int \<Rightarrow> ti_int \<Rightarrow> ti_int" where
  "divti3 a b = divXi3 (\<lambda>a b. fst (udivmodti4 a b)) a b"

definition modti3 :: "ti_int \<Rightarrow> ti_int \<Rightarrow> ti_int" where
  "modti3 a b = modXi3 (\<lambda>a b. snd (udivmodti4 a b)) a b"

definition divmodti4 :: "ti_int \<Rightarrow> ti_int \<Rightarrow> ti_int \<times> ti_int" where
  "divmodti4 a b = divmodXi4 udivmodti4 a b"

section \<open>Quotient digits\<close>

text \<open>
  The digit of \<open>u * b + un\<close> by the normalised \<open>v = vn1 * b + vn0\<close>. An estimate \<open>q\<close> with
  remainder \<open>rhat\<close> in the division by \<open>vn1\<close> alone is too large exactly when
  \<open>q * vn0 > b * rhat + un\<close>.
\<close>

lemma qhat_too_large:
  fixes u un q rhat vn1 vn0 b :: nat
  assumes "u = q * vn1 + rhat"
  shows "b * rhat + un < q * vn0 \<longleftrightarrow> u * b + un < q * (vn1 * b + vn0)"
  unfolding assms by (simp add: algebra_simps)

lemma qhat_initial:
  fixes u un vn1 vn0 b :: nat
  assumes "u < vn1 * b + vn0" "vn0 < b" "un < b" "b \<le> 2 * vn1"
  shows "u div vn1 \<le> b + 1" "(u * b + un) div (vn1 * b + vn0) \<le> u div vn1"
proof -
  have "(b + 2) * vn1 = vn1 * b + 2 * vn1" by (simp add: algebra_simps)
  then have "u < (b + 2) * vn1" using assms by linarith
  then have "u div vn1 < b + 2" by (rule less_mult_imp_div_less)
  then show "u div vn1 \<le> b + 1" by simp
  have "(u * b + un) div (vn1 * b + vn0) \<le> (u * b + un) div (b * vn1)"
    using assms by (intro div_le_mono2) simp_all
  also have "\<dots> = u div vn1" using assms(3) by (simp add: div_mult2_eq)
  finally show "(u * b + un) div (vn1 * b + vn0) \<le> u div vn1" .
qed

lemma le_div_iff: "0 < v \<Longrightarrow> q \<le> x div v \<longleftrightarrow> q * v \<le> (x :: nat)"
  by (simp add: less_eq_div_iff_mult_less_eq)

lemma qhat_loop_correct:
  fixes vn1 vn0 un q rhat :: du_int and u :: nat
  defines "V \<equiv> unat vn1 * 2 ^ 32 + unat vn0"
  assumes v: "2 ^ 31 \<le> unat vn1" "unat vn1 < 2 ^ 32" "unat vn0 < 2 ^ 32"
    and u: "unat un < 2 ^ 32" "u < V"
  shows "u = unat q * unat vn1 + unat rhat \<Longrightarrow> unat rhat < 2 ^ 32 \<Longrightarrow>
    (u * 2 ^ 32 + unat un) div V \<le> unat q \<Longrightarrow> unat q \<le> 2 ^ 32 + 1 \<Longrightarrow>
    unat (fst (qhat_loop vn1 vn0 un q rhat)) = (u * 2 ^ 32 + unat un) div V"
proof (induction "unat q" arbitrary: q rhat rule: less_induct)
  case less
  note prems = less.prems
  let ?b = "push_bit 32 1 :: du_int" and ?Q = "(u * 2 ^ 32 + unat un) div V"
  have b: "unat ?b = 2 ^ 32" by simp
  have V: "0 < V" using v by (simp add: V_def)
  have "u * 2 ^ 32 + unat un < 2 ^ 32 * V" using u by simp
  then have Q: "?Q < 2 ^ 32" by (rule less_mult_imp_div_less)
  have rb: "unat (?b * rhat + un) = 2 ^ 32 * unat rhat + unat un"
  proof -
    have "2 ^ 32 * unat rhat + unat un < 2 ^ 64" using prems(2) u(1) by simp
    then show ?thesis using b by (subst unat_add_small; subst unat_mult_small) simp_all
  qed
  have qv: "unat (q * vn0) = unat q * unat vn0" if "unat q < 2 ^ 32"
    using digit_sum_less [of 0 "2 ^ 32" "unat q" "unat vn0"] that v by (subst unat_mult_small) simp_all
  have cond: "(q \<ge> ?b \<or> q * vn0 > ?b * rhat + un) \<longleftrightarrow> ?Q < unat q"
  proof (cases "unat q < 2 ^ 32")
    case True
    have "?b * rhat + un < q * vn0 \<longleftrightarrow> u * 2 ^ 32 + unat un < unat q * V"
      using qhat_too_large [OF prems(1), of "2 ^ 32" "unat un" "unat vn0"]
      by (simp only: word_less_nat_alt rb qv [OF True] V_def)
    also have "\<dots> \<longleftrightarrow> ?Q < unat q" using le_div_iff [OF V, of "unat q"] by (metis not_le)
    finally show ?thesis using True b by (simp add: word_le_nat_alt)
  qed (use Q b in \<open>simp add: word_le_nat_alt\<close>)
  show ?case
  proof (cases "?Q < unat q")
    case False
    then have "qhat_loop vn1 vn0 un q rhat = (q, rhat)"
      using cond by (subst qhat_loop.simps) (simp only: Let_def if_False)
    then show ?thesis using False prems(3) by simp
  next
    case True
    have q1: "unat (q - 1) = unat q - 1" using True by (intro unat_minus_one) auto
    have r1: "unat (rhat + vn1) = unat rhat + unat vn1" using prems(2) v by (subst unat_add_small) simp_all
    have "unat q * unat vn1 = (unat q - 1) * unat vn1 + unat vn1" using True by (cases "unat q") simp_all
    then have u1: "u = unat (q - 1) * unat vn1 + unat (rhat + vn1)" using prems(1) q1 r1 by simp
    have l: "qhat_loop vn1 vn0 un q rhat =
      (if rhat + vn1 \<ge> ?b then (q - 1, rhat + vn1) else qhat_loop vn1 vn0 un (q - 1) (rhat + vn1))"
      using cond True by (subst qhat_loop.simps) (simp only: Let_def if_True)
    show ?thesis
    proof (cases "unat (rhat + vn1) < 2 ^ 32")
      case lt: True
      have "unat (fst (qhat_loop vn1 vn0 un (q - 1) (rhat + vn1))) = ?Q"
        by (rule less.hyps [OF _ u1 lt]) (use True q1 prems(4) in simp_all)
      then show ?thesis using l lt b by (simp add: word_le_nat_alt)
    next
      case ge: False
      have "unat (q - 1) * unat vn0 \<le> 2 ^ 32 * unat (rhat + vn1)"
        using ge v(3) q1 prems(4) by (intro mult_mono) simp_all
      then have "\<not> 2 ^ 32 * unat (rhat + vn1) + unat un < unat (q - 1) * unat vn0" by linarith
      then have "unat (q - 1) * V \<le> u * 2 ^ 32 + unat un"
        using qhat_too_large [OF u1, of "2 ^ 32" "unat un" "unat vn0"] by (simp only: V_def)
      then have "unat (q - 1) \<le> ?Q" using le_div_iff [OF V] by blast
      then show ?thesis using l ge b True q1 by (simp add: word_le_nat_alt)
    qed
  qed
qed

lemma of_nat_mod_sub: "of_nat X - of_nat (X div v * v) = (of_nat (X mod v) :: 'a::len word)"
  by (simp only: diff_eq_eq of_nat_add [symmetric] mod_div_mult_eq)

text \<open>One digit of the long division, on words: the quotient digit and the new partial remainder.\<close>

lemma knuth_digit:
  fixes u v un vn1 vn0 :: du_int
  assumes v: "2 ^ 63 \<le> unat v" "vn1 = drop_bit 32 v" "vn0 = v AND 0xFFFFFFFF"
    and u: "unat u < unat v" "unat un < 2 ^ 32"
    and l: "qhat_loop vn1 vn0 un (u div vn1) (u - (u div vn1) * vn1) = (q, rhat)"
  shows "unat q = (unat u * 2 ^ 32 + unat un) div unat v"
    "unat (u * push_bit 32 1 + un - q * v) = (unat u * 2 ^ 32 + unat un) mod unat v"
proof -
  let ?X = "unat u * 2 ^ 32 + unat un"
  have u1: "unat vn1 = unat v div 2 ^ 32" by (simp add: v(2) unat_drop_bit_div)
  have "vn0 = v AND mask 32" by (simp add: v(3) mask_numeral)
  then have u0: "unat vn0 = unat v mod 2 ^ 32" by (simp only: unat_and_mask)
  have V: "unat vn1 * 2 ^ 32 + unat vn0 = unat v" by (simp only: u1 u0 div_mult_mod_eq)
  have "unat v < 2 ^ 32 * 2 ^ 32" using unat_lt [of v] by simp
  then have b: "2 ^ 31 \<le> unat vn1" "unat vn1 < 2 ^ 32" "unat vn0 < 2 ^ 32"
    using v(1) div_le_mono [OF v(1), of "2 ^ 32"] by (simp_all add: u1 u0 less_mult_imp_div_less)
  have q0: "unat (u div vn1) = unat u div unat vn1" by (simp add: unat_div)
  have r0: "unat (u - (u div vn1) * vn1) = unat u mod unat vn1" by (simp add: sub_div_mult unat_mod)
  have "unat u mod unat vn1 < unat vn1" using b by (intro mod_less_divisor) simp
  then have r0': "unat u mod unat vn1 < 2 ^ 32" using b by linarith
  have lt: "unat u < unat vn1 * 2 ^ 32 + unat vn0" using u V by simp
  note i = qhat_initial [OF lt b(3) u(2)] 
  have "unat (fst (qhat_loop vn1 vn0 un (u div vn1) (u - (u div vn1) * vn1))) = ?X div unat v"
    using i b r0' u(2) lt V by (subst qhat_loop_correct [of vn1 vn0 un "unat u"]) (simp_all add: q0 r0)
  then show q: "unat q = ?X div unat v" by (simp add: l)
  have "u * push_bit 32 1 + un - q * v = of_nat ?X - of_nat (?X div unat v * unat v)"
    unfolding of_nat_mult q [symmetric] by simp
  also have "\<dots> = of_nat (?X mod unat v)"
    by (rule of_nat_mod_sub)
  finally have "u * push_bit 32 1 + un - q * v = of_nat (?X mod unat v)" .
  moreover have "?X mod unat v < unat v" by (rule mod_less_divisor) (use v(1) in simp)
  then have "?X mod unat v < 2 ^ 64" using unat_lt [of v] by simp
  ultimately show "unat (u * push_bit 32 1 + un - q * v) = ?X mod unat v"
    by (simp add: unat_of_nat)
qed

text \<open>Normalisation multiplies dividend and divisor by \<open>2 ^ s\<close>.\<close>

lemma normalize_128:
  fixes u1 u0 v :: du_int
  assumes "v \<noteq> 0" "unat u1 < unat v" "s = builtin_clz v"
    and "(w, un64, un10) = (if s > 0 then (push_bit s v, push_bit s u1 OR drop_bit (64 - s) u0, push_bit s u0) else (v, u1, u0))"
  shows "unat w = unat v * 2 ^ s" "2 ^ 63 \<le> unat w" "unat un64 < unat w"
    "unat un64 * 2 ^ 64 + unat un10 = (unat u1 * 2 ^ 64 + unat u0) * 2 ^ s"
proof -
  have s: "s < 64" using builtin_clz_less [OF assms(1)] assms(3) by simp
  have v0: "0 < unat v" using assms(1) by (simp add: unat_gt_0)
  have nb: "nbits (unat v * 2 ^ s) = 64"
    using v0 nbits_builtin_clz [of v] s assms(3) by (simp add: nbits_mult_exp)
  then have vs: "unat v * 2 ^ s < 2 ^ 64" "2 ^ 63 \<le> unat v * 2 ^ s"
    using less_exp_nbits [of "unat v * 2 ^ s"] exp_nbits_le [of "unat v * 2 ^ s"] v0 by simp_all
  show w: "unat w = unat v * 2 ^ s"
    using assms(4) vs by (cases "s > 0") (simp_all add: unat_push_bit_small)
  show "2 ^ 63 \<le> unat w" using vs w by simp
  have e: "(2 :: nat) ^ 64 = 2 ^ (64 - s) * 2 ^ s" using s by (simp flip: power_add)
  define h where "h = unat u0 div 2 ^ (64 - s)"
  have h: "h < 2 ^ s" unfolding h_def using unat_lt [of u0] e by (intro less_mult_imp_div_less) (simp add: mult.commute)
  have lt: "unat u1 * 2 ^ s + h < unat v * 2 ^ s"
  proof -
    have "unat u1 * 2 ^ s + h < Suc (unat u1) * 2 ^ s" using h by simp
    also have "\<dots> \<le> unat v * 2 ^ s" using assms(2) by (intro mult_right_mono) simp_all
    finally show ?thesis .
  qed
  have u64: "unat un64 = unat u1 * 2 ^ s + h"
  proof (cases "s > 0")
    case True
    have "unat (push_bit s u1) = unat u1 * 2 ^ s" using lt vs by (intro unat_push_bit_small) simp
    then show ?thesis
      using assms(4) True h by (simp add: unat_or_aligned [where k = s] unat_drop_bit_div h_def)
  qed (use assms(4) h in simp)
  then show "unat un64 < unat w" using lt w by simp
  have u10: "unat un10 = unat u0 mod 2 ^ (64 - s) * 2 ^ s"
    using assms(4) e unat_lt [of u0] by (cases "s > 0") (simp_all add: unat_push_bit mult_mod_left del: unat_lt)
  have "unat u0 * 2 ^ s = (h * 2 ^ (64 - s) + unat u0 mod 2 ^ (64 - s)) * 2 ^ s"
    by (simp only: h_def div_mult_mod_eq)
  then show "unat un64 * 2 ^ 64 + unat un10 = (unat u1 * 2 ^ 64 + unat u0) * 2 ^ s"
    unfolding u64 u10 e by (simp add: algebra_simps)
qed

lemma long_division:
  fixes u n1 n0 w b :: nat
  defines "X1 \<equiv> u * b + n1"
  defines "X0 \<equiv> X1 mod w * b + n0"
  assumes "0 < w"
  shows "(u * (b * b) + (n1 * b + n0)) div w = X1 div w * b + X0 div w"
    "(u * (b * b) + (n1 * b + n0)) mod w = X0 mod w"
proof -
  have "u * (b * b) + (n1 * b + n0) = (X1 div w * w + X1 mod w) * b + n0"
    unfolding div_mult_mod_eq by (simp add: X1_def algebra_simps)
  then have "u * (b * b) + (n1 * b + n0) = X0 + X1 div w * b * w" by (simp only: X0_def add_mult_distrib) simp
  then show "(u * (b * b) + (n1 * b + n0)) div w = X1 div w * b + X0 div w"
    "(u * (b * b) + (n1 * b + n0)) mod w = X0 mod w"
    using assms(3) by simp_all
qed

lemma udiv128by64to64_correct:
  assumes "v \<noteq> 0" "unat u1 < unat v" "udiv128by64to64 u1 u0 v = (q, r)"
  shows "unat q = (unat u1 * 2 ^ 64 + unat u0) div unat v" "unat r = (unat u1 * 2 ^ 64 + unat u0) mod unat v"
proof -
  define s where "s = builtin_clz v"
  obtain w un64 un10 where n: "(w, un64, un10) =
      (if s > 0 then (push_bit s v, push_bit s u1 OR drop_bit (64 - s) u0, push_bit s u0) else (v, u1, u0))"
    using prod_cases3 by metis
  note norm = normalize_128 [OF assms(1,2) s_def n]
  define vn1 where "vn1 = drop_bit 32 w"
  define vn0 where "vn0 = w AND 0xFFFFFFFF"
  define un1 where "un1 = drop_bit 32 un10"
  define un0 where "un0 = un10 AND 0xFFFFFFFF"
  obtain q1 r1 where l1: "qhat_loop vn1 vn0 un1 (un64 div vn1) (un64 - (un64 div vn1) * vn1) = (q1, r1)" by fastforce
  define un21 where "un21 = un64 * push_bit 32 1 + un1 - q1 * w"
  obtain q0 r0 where l0: "qhat_loop vn1 vn0 un0 (un21 div vn1) (un21 - (un21 div vn1) * vn1) = (q0, r0)" by fastforce
  have h: "(64 :: nat) div 2 = 32" by simp
  have "udiv128by64to64 u1 u0 v = (q1 * push_bit 32 1 + q0, drop_bit s (un21 * push_bit 32 1 + un0 - q0 * w))"
    unfolding udiv128by64to64_def udiv128by64to64default_def Let_def s_def [symmetric]
    by (simp only: h n [symmetric] prod.case vn1_def [symmetric] vn0_def [symmetric] un1_def [symmetric]
        un0_def [symmetric] l1 un21_def [symmetric] l0)
  then have qr: "q = q1 * push_bit 32 1 + q0" "r = drop_bit s (un21 * push_bit 32 1 + un0 - q0 * w)"
    using assms(3) by (simp_all only: prod.inject)
  have "un0 = un10 AND mask 32" by (simp add: un0_def mask_numeral)
  then have d: "unat un1 = unat un10 div 2 ^ 32" "unat un0 = unat un10 mod 2 ^ 32"
    by (simp_all only: un1_def unat_drop_bit_div unat_and_mask)
  have "unat un10 < 2 ^ 32 * 2 ^ 32" using unat_lt [of un10] by simp
  then have dl: "unat un1 < 2 ^ 32" "unat un0 < 2 ^ 32" by (simp_all add: d less_mult_imp_div_less)
  note k1 = knuth_digit [OF norm(2) vn1_def vn0_def norm(3) dl(1) l1, folded un21_def]
  have w0: "0 < unat w" using norm(2) by simp
  then have "unat un21 < unat w" by (simp add: k1(2))
  note k0 = knuth_digit [OF norm(2) vn1_def vn0_def this dl(2) l0]
  have b2: "(2 :: nat) ^ 32 * 2 ^ 32 = 2 ^ 64" by simp
  note ld = long_division [OF w0, of "unat un64" "2 ^ 32" "unat un1" "unat un0", unfolded b2]
  have "unat un1 * 2 ^ 32 + unat un0 = unat un10" by (simp only: d div_mult_mod_eq)
  then have "unat un64 * 2 ^ 64 + (unat un1 * 2 ^ 32 + unat un0) = (unat u1 * 2 ^ 64 + unat u0) * 2 ^ s"
    using norm(4) by simp
  note N = this
  define N where "N = unat u1 * 2 ^ 64 + unat u0"
  have ld: "N div unat v = unat q1 * 2 ^ 32 + unat q0" "(N mod unat v) * 2 ^ s = unat (un21 * push_bit 32 1 + un0 - q0 * w)"
    using ld unfolding N unfolding norm(1) N_def [symmetric] k1 k0 
    by (simp_all add: norm(1) mult_mod_left)
  have "unat q1 * 2 ^ 32 + unat q0 < 2 ^ 64"
  proof -
    have "N < 2 ^ 64 * unat v"
    proof -
      have "N < Suc (unat u1) * 2 ^ 64" using unat_lt [of u0] by (simp add: N_def)
      also have "\<dots> \<le> unat v * 2 ^ 64" using assms(2) by (intro mult_right_mono) simp_all
      finally show ?thesis by (simp add: mult.commute)
    qed
    then have "N div unat v < 2 ^ 64" by (rule less_mult_imp_div_less)
    then show ?thesis by (simp only: ld)
  qed
  moreover have "unat (push_bit 32 1 :: du_int) = 2 ^ 32" by simp
  ultimately have "unat q = unat q1 * 2 ^ 32 + unat q0"
    unfolding qr(1) by (subst unat_add_small; subst unat_mult_small) simp_all
  then show "unat q = (unat u1 * 2 ^ 64 + unat u0) div unat v" by (simp only: ld(1) N_def [symmetric])
  show "unat r = (unat u1 * 2 ^ 64 + unat u0) mod unat v"
    unfolding qr(2) unat_drop_bit_div ld(2) [symmetric] N_def [symmetric] by simp
qed

section \<open>Shift and subtract\<close>

definition ti_inv :: "nat \<Rightarrow> nat \<Rightarrow> nat \<Rightarrow> tu_int \<Rightarrow> tu_int \<Rightarrow> du_int \<Rightarrow> bool" where
  "ti_inv a b k divisor dividend q \<longleftrightarrow>
    2 ^ 64 \<le> b \<and> a < 2 ^ 128 \<and> a = unat q * (b * 2 ^ k) + unat dividend \<and> unat dividend < b * 2 ^ k \<and>
    (0 < k \<longrightarrow> unat divisor = b * 2 ^ (k - 1) \<and> (unat divisor \<le> 2 ^ 127 \<or> 2 ^ 127 \<le> unat dividend))"

lemma ti_quotient_bound: "a = q * (b * 2 ^ k) + r \<Longrightarrow> 2 ^ 64 \<le> b \<Longrightarrow> a < 2 ^ 128 \<Longrightarrow> (q :: nat) < 2 ^ 64"
proof (rule ccontr)
  assume a: "a = q * (b * 2 ^ k) + r" "2 ^ 64 \<le> b" "a < 2 ^ 128" and "\<not> q < 2 ^ 64"
  then have "2 ^ 64 * (2 ^ 64 * 1) \<le> q * (b * 2 ^ k)" by (intro mult_mono) simp_all
  then show False using a by simp
qed

lemma ti_inv_step:
  assumes inv: "ti_inv a b (Suc k) divisor dividend q"
    and s: "s = signed_drop_bit 127 (divisor - dividend - 1)"
  shows "ti_inv a b k (drop_bit 1 divisor) (dividend - (divisor AND s)) (push_bit 1 q OR ucast (s AND 1))"
proof -
  from inv have d: "unat divisor = b * 2 ^ k" and b: "2 ^ 64 \<le> b" "a < 2 ^ 128"
    and a: "a = unat q * (b * 2 ^ Suc k) + unat dividend" and lt: "unat dividend < 2 * unat divisor"
    and t: "unat divisor \<le> 2 ^ 127 \<or> 2 ^ 127 \<le> unat dividend"
    by (auto simp: ti_inv_def)
  have dl: "unat divisor < 2 ^ 128" using unat_lt [of divisor] by simp
  have le: "unat divisor \<le> 2 ^ (LENGTH(128) - 1) + unat dividend" using t dl by auto
  note st = branch_free_step [OF lt le, of s]
  define c :: nat where "c = of_bool (divisor \<le> dividend)"
  define dv where "dv = dividend - (divisor AND s)"
  have dv: "unat dividend = c * unat divisor + unat dv" "unat dv < unat divisor"
    unfolding dv_def c_def using st(3) s lt by (auto simp: word_le_nat_alt)
  have a': "a = (2 * unat q + c) * (b * 2 ^ k) + unat dv"
    using a dv(1) d by (simp add: algebra_simps)
  have q: "2 * unat q + c < 2 ^ 64" by (rule ti_quotient_bound [OF a' b])
  have "unat (ucast (s AND 1) :: du_int) = c" using st(1) s by (simp add: c_def)
  moreover have "unat (push_bit 1 q) = 2 * unat q" using q by (subst unat_push_bit_small) simp_all
  moreover have "c < 2" by (simp add: c_def)
  ultimately have uq: "unat (push_bit 1 q OR ucast (s AND 1)) = 2 * unat q + c"
    by (subst unat_or_aligned [where k = 1]) simp_all
  have "unat (drop_bit 1 divisor) = b * 2 ^ (k - 1) \<and> unat (drop_bit 1 divisor) \<le> 2 ^ 127" if "0 < k"
    using that d dl by (cases k) (simp_all add: unat_drop_bit_div)
  then show ?thesis
    unfolding ti_inv_def uq dv_def [symmetric] using b a' dv(2) d by auto
qed

lemma ti_loop_inv:
  "ti_inv a b k divisor dividend q \<Longrightarrow> udivmodti4_loop k divisor dividend q = (r', q') \<Longrightarrow>
    a = unat q' * b + unat r' \<and> unat r' < b"
proof (induction k arbitrary: divisor dividend q)
  case (Suc k)
  have n: "(128 :: nat) - 1 = 127" by simp
  from Suc.IH [OF ti_inv_step [OF Suc.prems(1) refl]] Suc.prems(2) show ?case
    by (simp only: udivmodti4_loop.simps Let_def n)
qed (simp add: ti_inv_def)

section \<open>Correctness\<close>

lemma quot_by_unat:
  fixes a b q r :: "'a::len word"
  assumes "unat a = unat q * unat b + unat r" "unat r < unat b"
  shows "(q, r) = (a div b, a mod b)"
  using assms by (intro words_by_unat) simp_all

lemma clz_halves_ti:
  assumes "x = (of_all (a :: tu_int) :: du_int halves)" "high x \<noteq> 0"
  shows "builtin_clz a = builtin_clz (high x)"
  using nbits_halves [OF _ assms(1)] assms(2) by (simp add: builtin_clz_def)

lemma wide_divisor_case:
  fixes a b :: tu_int
  assumes n: "n = (of_all a :: du_int halves)" and d: "d = (of_all b :: du_int halves)"
    and le: "b \<le> a" and nz: "high d \<noteq> 0"
    and shift: "shift = of_nat (builtin_clz (high d)) - of_nat (builtin_clz (high n))"
    and l: "udivmodti4_loop (nat (sint (shift :: si_int) + 1)) (push_bit (unat shift) b) a 0 = (r, q)"
  shows "(all \<lparr>low = q, high = 0\<rparr>, r) = (a div b, a mod b)"
proof -
  have ab: "unat b \<le> unat a" using le by (simp add: word_le_nat_alt)
  have "2 ^ 64 \<le> unat (high d) * 2 ^ 64" using nz by (simp add: unat_gt_0 Suc_le_eq)
  then have b: "2 ^ 64 \<le> unat b"
    using unat_eq_halves [of b, where 'h = 64] by (simp add: d [symmetric])
  have nh: "high n \<noteq> 0"
  proof
    assume "high n = 0"
    then have "unat a < 2 ^ 64"
      using unat_eq_halves [of a, where 'h = 64] unat_lt [of "low n"] by (simp add: n [symmetric])
    then show False using ab b by simp
  qed
  note clz = clz_halves_ti [OF n nh] clz_halves_ti [OF d nz]
  have cl: "builtin_clz a < 64" "builtin_clz b < 64"
    using clz builtin_clz_less [OF nh] builtin_clz_less [OF nz] by simp_all
  have cle: "builtin_clz a \<le> builtin_clz b" using nbits_mono [OF ab] by (simp add: builtin_clz_def)
  define k where "k = builtin_clz b - builtin_clz a"
  have sh: "unat shift = k" using clz_sr(2) [OF _ _ cle] cl clz by (simp add: shift k_def)
  have "sint shift = int k" using sh cl by (subst sint_unat) (simp add: k_def)
  then have it: "nat (sint shift + 1) = Suc k" by simp
  have nb: "nbits (unat b * 2 ^ k) = nbits (unat a)"
    using b cle nbits_unat_le [of a] nbits_unat_le [of b]
    by (subst nbits_mult_exp) (simp_all add: k_def builtin_clz_def)
  have lt1: "unat b * 2 ^ k < 2 ^ 128"
    using nb nbits_unat_le [of a] nbits_le_iff [of "unat b * 2 ^ k" 128] by simp
  have lt2: "unat a < 2 * (unat b * 2 ^ k)"
  proof -
    have "unat a < 2 ^ Suc (nbits (unat b * 2 ^ k) - 1)"
      using less_exp_nbits [of "unat a"] nb b by (cases "nbits (unat a)") auto
    also have "\<dots> \<le> 2 * (unat b * 2 ^ k)" using exp_nbits_le [of "unat b * 2 ^ k"] b by simp
    finally show ?thesis .
  qed
  have t: "unat b * 2 ^ k \<le> 2 ^ 127 \<or> 2 ^ 127 \<le> unat a"
    using nb nbits_le_iff [of "unat b * 2 ^ k" 127] nbits_le_iff [of "unat a" 127] by linarith
  have "unat (push_bit k b) = unat b * 2 ^ k" using lt1 by (intro unat_push_bit_small) simp
  then have "ti_inv (unat a) (unat b) (Suc k) (push_bit k b) a 0"
    using b lt2 t unat_lt [of a] by (simp add: ti_inv_def mult.left_commute)
  from ti_loop_inv [OF this] l have q: "unat a = unat q * unat b + unat r" "unat r < unat b"
    by (simp_all add: sh it)
  then show ?thesis
    by (intro quot_by_unat) (simp_all add: unat_all)
qed

lemma narrow_divisor_case:
  fixes a b :: tu_int
  assumes n: "n = (of_all a :: du_int halves)" and d: "d = (of_all b :: du_int halves)"
    and b: "b \<noteq> 0" and z: "high d = 0"
    and l: "udiv128by64to64 (high n mod low d) (low n) (low d) = (q, r)"
  shows "(all \<lparr>low = q, high = high n div low d\<rparr>, all \<lparr>low = r, high = 0\<rparr>) = (a div b, a mod b)"
proof -
  have ub: "unat b = unat (low d)" using unat_eq_halves [of b, where 'h = 64] z by (simp add: d [symmetric])
  have ua: "unat a = unat (high n) * 2 ^ 64 + unat (low n)" using unat_eq_halves [of a, where 'h = 64] by (simp add: n [symmetric])
  have ld: "low d \<noteq> 0" using b ub by (metis unat_eq_zero)
  then have pos: "0 < unat (low d)" by (simp add: unat_gt_0)
  then have m: "unat (high n mod low d) < unat (low d)" by (simp add: unat_mod)
  define v X where "v = unat (low d)" "X = unat (high n mod low d) * 2 ^ 64 + unat (low n)"
  note c = udiv128by64to64_correct [OF ld m l, folded v_X_def]
  have "unat (high n) = unat (high n) div v * v + unat (high n mod low d)" by (simp add: unat_mod v_X_def)
  then have "unat a = (unat (high n) div v * v + unat (high n mod low d)) * 2 ^ 64 + unat (low n)" by (simp only: ua)
  also have "\<dots> = unat (high n) div v * 2 ^ 64 * v + X" by (simp add: v_X_def algebra_simps)
  also have "X = unat q * v + unat r" by (simp only: c div_mult_mod_eq)
  finally have "unat a = (unat (high n) div v * 2 ^ 64 + unat q) * v + unat r" by (simp add: algebra_simps)
  then show ?thesis
    using c(2) pos by (intro quot_by_unat) (simp_all add: unat_all unat_div ub v_X_def)
qed

lemma udivmodti4_eq:
  assumes "b \<noteq> 0"
  shows "udivmodti4 a b = (a div b, a mod b)"
proof -
  define n where "n = (of_all a :: du_int halves)"
  define d where "d = (of_all b :: du_int halves)"
  note U = udivmodti4_def [of a b, unfolded Let_def split_beta, folded n_def d_def]
  show ?thesis
  proof (cases "a < b")
    case True
    then have "(0, a) = (a div b, a mod b)" by (intro words_by_unat) (simp_all add: word_less_nat_alt)
    then show ?thesis using True by (simp only: U if_True)
  next
    case False
    show ?thesis
    proof (cases "high d = 0")
      case True
      note nc = narrow_divisor_case [OF n_def d_def assms True prod.collapse [symmetric]]
      show ?thesis
      proof (cases "high n < low d")
        case lt: True
        then have "high n mod low d = high n" "high n div low d = 0"
          by (simp_all add: word_unat_eq_iff unat_mod unat_div word_less_nat_alt)
        then show ?thesis using nc lt True \<open>\<not> a < b\<close> by (simp only: U simp_thms if_True if_False)
      next
        case ge: False
        then show ?thesis using nc True \<open>\<not> a < b\<close> by (simp only: U simp_thms if_True if_False)
      qed
    next
      case nz: False
      have "b \<le> a" using False by simp
      from wide_divisor_case [OF n_def d_def this nz refl prod.collapse [symmetric]]
      show ?thesis using nz False by (simp only: U if_False)
    qed
  qed
qed

interpretation div_ti: unsigned_divmod udivmodti4
  by unfold_locales (rule udivmodti4_eq)

lemma udivti3_eq: "b \<noteq> 0 \<Longrightarrow> udivti3 a b = a div b"
  by (simp add: udivti3_def udivmodti4_eq)

lemma umodti3_eq: "b \<noteq> 0 \<Longrightarrow> umodti3 a b = a mod b"
  by (simp add: umodti3_def udivmodti4_eq)

lemma divti3_eq: "b \<noteq> 0 \<Longrightarrow> divti3 a b = sdiv_c a b"
  unfolding divti3_def by (rule div_ti.div_signed)

lemma modti3_eq: "b \<noteq> 0 \<Longrightarrow> modti3 a b = smod_c a b"
  unfolding modti3_def by (rule div_ti.mod_signed)

lemma divmodti4_eq: "b \<noteq> 0 \<Longrightarrow> divmodti4 a b = (sdiv_c a b, smod_c a b)"
  unfolding divmodti4_def by (rule div_ti.divmod_signed)

end
