(* ===== verification/FP_Spec.thy ===== *)
theory FP_Spec
  imports CRT_Prelude
begin

text \<open>
  What correctly rounded floating-point results are, on natural numbers. A format has
  \<open>sb\<close> stored significand bits; \<open>n\<close> is the bit pattern of an absolute value, and
  \<open>mag sb n\<close> its magnitude as a multiple of the least denormal number. \<open>round_ne sb p q\<close>
  is the pattern of the value nearest to the fraction \<open>p / q\<close> of such units, ties going to
  the even pattern, with no bound on the exponent; a result at or above the pattern of
  infinity is an overflow. \<open>approx\<close> relates the integer kept in a register, with its
  sticky bit, to the exact fraction it stands for.
\<close>

section \<open>Magnitudes and rounding\<close>

definition mag :: "nat \<Rightarrow> nat \<Rightarrow> nat" where
  "mag sb n = (if n < 2 ^ sb then n else (2 ^ sb + n mod 2 ^ sb) * 2 ^ (n div 2 ^ sb - 1))"

definition rne_div :: "nat \<Rightarrow> nat \<Rightarrow> nat" where
  "rne_div p q =
    (let f = p div q; r = p mod q
     in if 2 * r < q then f else if q < 2 * r then f + 1 else f + f mod 2)"

definition round_ne :: "nat \<Rightarrow> nat \<Rightarrow> nat \<Rightarrow> nat" where
  "round_ne sb p q = (let e = nbits (p div q) - (sb + 1) in e * 2 ^ sb + rne_div p (q * 2 ^ e))"

text \<open>The nearest multiple of \<open>q\<close>: no other multiple is closer, and a tie is even.\<close>

lemma multiple_distance:
  fixes f r q :: nat
  assumes "r < q"
  obtains D where "\<And>n. \<bar>int (n * q) - int (f * q + r)\<bar> = D n" "D f = int r" "D (f + 1) = int q - int r"
    "\<And>n. n < f \<Longrightarrow> int q + int r \<le> D n" "\<And>n. f + 1 < n \<Longrightarrow> 2 * int q - int r \<le> D n"
proof (rule that [of "\<lambda>n. \<bar>int (n * q) - int (f * q + r)\<bar>"])
  show "int q + int r \<le> \<bar>int (n * q) - int (f * q + r)\<bar>" if "n < f" for n
    using mult_right_mono [of "int n + 1" "int f" "int q"] that by (simp add: algebra_simps)
  show "2 * int q - int r \<le> \<bar>int (n * q) - int (f * q + r)\<bar>" if "f + 1 < n" for n
    using mult_right_mono [of "int f + 2" "int n" "int q"] that by (simp add: algebra_simps)
qed (use assms in \<open>simp_all add: algebra_simps\<close>)

lemma rne_div_cases:
  assumes "0 < q"
  obtains f r where "p = f * q + r" "r < q" "2 * r < q" "rne_div p q = f"
  | f r where "p = f * q + r" "r < q" "q < 2 * r" "rne_div p q = f + 1"
  | f r where "p = f * q + r" "r < q" "2 * r = q" "rne_div p q = f" "even f"
  | f r where "p = f * q + r" "r < q" "2 * r = q" "rne_div p q = f + 1" "odd f"
proof -
  have p: "p = p div q * q + p mod q" "p mod q < q" using assms by simp_all
  consider "2 * (p mod q) < q" | "q < 2 * (p mod q)" | "2 * (p mod q) = q" "even (p div q)" | "2 * (p mod q) = q" "odd (p div q)"
    by linarith
  then show ?thesis
    using that [OF p] by cases (simp_all add: rne_div_def Let_def odd_iff_mod_2_eq_one)
qed

lemma rne_div_nearest:
  assumes "0 < q"
  shows "\<bar>int (rne_div p q * q) - int p\<bar> \<le> \<bar>int (n * q) - int p\<bar> \<and>
    (n \<noteq> rne_div p q \<longrightarrow> \<bar>int (rne_div p q * q) - int p\<bar> = \<bar>int (n * q) - int p\<bar> \<longrightarrow> even (rne_div p q))"
proof -
  obtain f r where p: "p = f * q + r" "r < q"
    and c: "2 * r < q \<and> rne_div p q = f \<or> q < 2 * r \<and> rne_div p q = f + 1 \<or>
      2 * r = q \<and> (rne_div p q = f \<and> even f \<or> rne_div p q = f + 1 \<and> odd f)"
    using assms by (cases rule: rne_div_cases [of q p]) blast+
  obtain D where D: "\<And>n. \<bar>int (n * q) - int p\<bar> = D n" "D f = int r" "D (f + 1) = int q - int r"
    "n < f \<Longrightarrow> int q + int r \<le> D n" "f + 1 < n \<Longrightarrow> 2 * int q - int r \<le> D n"
    using multiple_distance [OF p(2)] p(1) by metis
  consider "n = f" | "n = f + 1" | "n < f" | "f + 1 < n" by linarith
  then show ?thesis
    using c p(2) D(2-5) unfolding D(1) by cases (elim disjE conjE; force)+
qed

text \<open>Comparisons with the half-integers determine the rounding.\<close>

lemma rne_div_cong:
  assumes "0 < q" "0 < q'"
    and le: "\<And>m. m * q \<le> 2 * p \<longleftrightarrow> m * q' \<le> 2 * p'" and ge: "\<And>m. 2 * p \<le> m * q \<longleftrightarrow> 2 * p' \<le> m * q'"
  shows "rne_div p q = rne_div p' q'"
proof -
  have f: "p div q = p' div q'"
  proof (rule order_antisym)
    have "2 * (p div q) * q \<le> 2 * p" by (simp add: div_times_less_eq_dividend)
    then show "p div q \<le> p' div q'" using le [of "2 * (p div q)"] assms(2) by (simp add: less_eq_div_iff_mult_less_eq)
    have "2 * (p' div q') * q' \<le> 2 * p'" by (simp add: div_times_less_eq_dividend)
    then show "p' div q' \<le> p div q" using le [of "2 * (p' div q')"] assms(1) by (simp add: less_eq_div_iff_mult_less_eq)
  qed
  define m where "m = 2 * (p div q) + 1"
  have p: "2 * p = 2 * (p div q) * q + 2 * (p mod q)" "2 * p' = 2 * (p' div q') * q' + 2 * (p' mod q')"
    by (metis add_mult_distrib2 div_mult_mod_eq mult.assoc)+
  have "2 * (p mod q) < q \<longleftrightarrow> 2 * (p' mod q') < q'"
    using le [of m] p by (simp add: m_def f algebra_simps) linarith
  moreover have "q < 2 * (p mod q) \<longleftrightarrow> q' < 2 * (p' mod q')"
    using ge [of m] p by (simp add: m_def f algebra_simps) linarith
  ultimately show ?thesis by (simp add: rne_div_def Let_def f)
qed

section \<open>\<open>round_ne\<close> is rounding to nearest\<close>

lemma rne_div_exact: "0 < q \<Longrightarrow> rne_div (f * q) q = f"
  by (simp add: rne_div_def)

lemma rne_div_scale: "0 < c \<Longrightarrow> 0 < q \<Longrightarrow> rne_div (p * c) (q * c) = rne_div p q"
  by (rule rne_div_cong) (simp_all flip: mult.assoc)

lemma mag_small: "n \<le> 2 ^ Suc sb \<Longrightarrow> mag sb n = n"
proof -
  assume n: "n \<le> 2 ^ Suc sb"
  show ?thesis
  proof (cases "n = 2 ^ Suc sb")
    case False
    have "n div 2 ^ sb = 1 \<and> n mod 2 ^ sb = n - 2 ^ sb" if "2 ^ sb \<le> n"
      using that n False by (simp add: le_div_geq le_mod_geq)
    then show ?thesis by (auto simp: mag_def)
  qed (simp add: mag_def)
qed

lemma mag_form:
  assumes "2 ^ sb \<le> r \<or> e = 0" "r \<le> 2 ^ Suc sb"
  shows "mag sb (e * 2 ^ sb + r) = r * 2 ^ e"
proof (cases "e = 0")
  case False
  then have r: "2 ^ sb \<le> r" using assms by simp
  show ?thesis
  proof (cases "r = 2 ^ Suc sb")
    case True
    have "e * 2 ^ sb + r = (e + 2) * 2 ^ sb" by (simp add: True algebra_simps)
    then show ?thesis using True by (simp add: mag_def)
  next
    case lt: False
    obtain x where x: "r = 2 ^ sb + x" using r le_Suc_ex by blast
    then have "x < 2 ^ sb" using lt assms(2) by simp
    moreover have eq: "e * 2 ^ sb + r = x + (e + 1) * 2 ^ sb" by (simp add: x)
    ultimately have "(e * 2 ^ sb + r) div 2 ^ sb = e + 1" "(e * 2 ^ sb + r) mod 2 ^ sb = x"
      unfolding eq by (simp_all only: div_mult_self1 mod_mult_self1) simp_all
    then show ?thesis using x by (simp add: mag_def)
  qed
qed (use assms in \<open>simp add: mag_small\<close>)

lemma mag_Suc: "mag sb n < mag sb (Suc n)"
proof (cases "n < 2 ^ sb")
  case False
  define E f where "E = n div 2 ^ sb - 1" "f = n mod 2 ^ sb"
  have "1 \<le> n div 2 ^ sb" using False by (simp add: Suc_le_eq div_greater_zero_iff)
  then have "n div 2 ^ sb = Suc E" by (simp add: E_f_def)
  then have "Suc E * 2 ^ sb + f = n" using div_mult_mod_eq [of n "2 ^ sb"] by (simp only: E_f_def)
  then have n: "n = E * 2 ^ sb + (2 ^ sb + f)" by simp
  have f: "f < 2 ^ sb" by (simp add: E_f_def)
  have "mag sb n = (2 ^ sb + f) * 2 ^ E" unfolding n by (rule mag_form) (use f in simp_all)
  moreover have "mag sb (Suc n) = (2 ^ sb + f + 1) * 2 ^ E"
    using mag_form [of sb "2 ^ sb + f + 1" E] f by (simp add: n)
  ultimately show ?thesis by simp
qed (simp add: mag_small)

lemma mag_less_iff [simp]: "mag sb m < mag sb n \<longleftrightarrow> m < n"
  using strict_mono_less [of "mag sb" m n] by (simp add: strict_mono_Suc_iff mag_Suc)

lemma mag_eq_iff [simp]: "mag sb m = mag sb n \<longleftrightarrow> m = n"
  by (metis mag_less_iff linorder_neqE_nat less_irrefl)

lemma mag_le_iff [simp]: "mag sb m \<le> mag sb n \<longleftrightarrow> m \<le> n"
  by (simp flip: not_less)

lemma mag_multiple: "2 ^ (sb + e) \<le> mag sb n \<Longrightarrow> 2 ^ e dvd mag sb n"
proof (cases "n < 2 ^ sb")
  case False
  assume le: "2 ^ (sb + e) \<le> mag sb n"
  have "mag sb n < 2 ^ Suc sb * 2 ^ (n div 2 ^ sb - 1)" using False by (simp add: mag_def)
  also have "\<dots> = 2 ^ (Suc sb + (n div 2 ^ sb - 1))" by (simp only: power_add)
  finally have "sb + e < Suc sb + (n div 2 ^ sb - 1)"
    using le by (metis le_less_trans one_less_numeral_iff power_less_imp_less_exp semiring_norm(76))
  then have "e \<le> n div 2 ^ sb - 1" by simp
  then show ?thesis using False by (simp add: mag_def le_imp_power_dvd)
next
  case True
  assume "2 ^ (sb + e) \<le> mag sb n"
  moreover have "mag sb n < 2 ^ (sb + e)" using True by (simp add: mag_def power_add less_le_trans [of n])
  ultimately show ?thesis by simp
qed

text \<open>The scaled quotient of a rounding lies in one binade.\<close>

lemma round_ne_range:
  fixes sb p q :: nat
  defines "e \<equiv> nbits (p div q) - (sb + 1)"
  assumes "0 < q"
  shows "p < 2 ^ Suc sb * (q * 2 ^ e)" "0 < e \<Longrightarrow> 2 ^ sb * (q * 2 ^ e) \<le> p"
proof -
  have "nbits (p div q) \<le> sb + 1 + e" by (simp add: e_def)
  then have "p div q < 2 ^ (sb + 1 + e)" by (simp only: nbits_le_iff)
  then have "p < 2 ^ (sb + 1 + e) * q" using assms(2) by (simp add: div_less_iff_less_mult)
  then show "p < 2 ^ Suc sb * (q * 2 ^ e)" by (simp add: power_add algebra_simps)
  assume "0 < e"
  then have "\<not> nbits (p div q) \<le> sb + e" by (simp add: e_def)
  then have "\<not> p div q < 2 ^ (sb + e)" using nbits_le_iff by blast
  then have "2 ^ (sb + e) * q \<le> p" using assms(2) by (simp add: div_less_iff_less_mult)
  then show "2 ^ sb * (q * 2 ^ e) \<le> p" by (simp add: power_add algebra_simps)
qed

lemma rne_div_bounds:
  assumes "0 < q"
  shows "p \<le> n * q \<Longrightarrow> rne_div p q \<le> n" "n * q \<le> p \<Longrightarrow> n \<le> rne_div p q"
proof -
  have f: "p div q \<le> rne_div p q" "rne_div p q \<le> p div q + 1" "p mod q = 0 \<Longrightarrow> rne_div p q = p div q"
    using assms by (auto simp: rne_div_def Let_def)
  show "rne_div p q \<le> n" if "p \<le> n * q"
  proof (cases "p = n * q")
    case True
    then show ?thesis using f assms by simp
  next
    case False
    then have "p div q < n" using that assms by (simp add: div_less_iff_less_mult)
    then show ?thesis using f by simp
  qed
  show "n \<le> rne_div p q" if "n * q \<le> p"
  proof -
    have "n \<le> p div q" using that assms by (simp add: less_eq_div_iff_mult_less_eq)
    then show ?thesis using f(1) by (rule le_trans)
  qed
qed

lemma round_ne_form:
  fixes sb p q :: nat
  defines "e \<equiv> nbits (p div q) - (sb + 1)"
  assumes "0 < q"
  shows "mag sb (round_ne sb p q) = rne_div p (q * 2 ^ e) * 2 ^ e"
    "rne_div p (q * 2 ^ e) \<le> 2 ^ Suc sb" "0 < e \<Longrightarrow> 2 ^ sb \<le> rne_div p (q * 2 ^ e)"
proof -
  have q: "0 < q * 2 ^ e" using assms by simp
  note r = round_ne_range [OF assms(2), of p sb, folded e_def]
  show b: "rne_div p (q * 2 ^ e) \<le> 2 ^ Suc sb" "0 < e \<Longrightarrow> 2 ^ sb \<le> rne_div p (q * 2 ^ e)"
    using rne_div_bounds [OF q] r less_imp_le by blast+
  then show "mag sb (round_ne sb p q) = rne_div p (q * 2 ^ e) * 2 ^ e"
    unfolding round_ne_def Let_def e_def [symmetric] by (intro mag_form) auto
qed

lemma round_ne_nearest:
  assumes "0 < q" "0 < sb"
  shows "\<bar>int (mag sb (round_ne sb p q) * q) - int p\<bar> \<le> \<bar>int (mag sb n * q) - int p\<bar> \<and>
    (n \<noteq> round_ne sb p q \<longrightarrow>
      \<bar>int (mag sb (round_ne sb p q) * q) - int p\<bar> = \<bar>int (mag sb n * q) - int p\<bar> \<longrightarrow> even (round_ne sb p q))"
proof -
  define e where "e = nbits (p div q) - (sb + 1)"
  define r where "r = rne_div p (q * 2 ^ e)"
  define k where "k = round_ne sb p q"
  have q: "0 < q * 2 ^ e" using assms by simp
  have k: "mag sb k = r * 2 ^ e" using round_ne_form(1) [OF assms(1), of sb p] by (simp add: e_def r_def k_def)
  have ev: "even k \<longleftrightarrow> even r" using assms(2) unfolding k_def round_ne_def Let_def e_def [symmetric] r_def [symmetric] by simp
  have kq: "mag sb k * q = r * (q * 2 ^ e)" by (simp add: k)
  show ?thesis
  proof (cases "2 ^ e dvd mag sb n")
    case True
    then obtain n' where n': "mag sb n = n' * 2 ^ e" by (auto simp: dvd_def mult.commute)
    have nq: "mag sb n * q = n' * (q * 2 ^ e)" by (simp add: n')
    have "n' \<noteq> r" if "n \<noteq> k" using that k n' mag_eq_iff by metis
    then show ?thesis
      unfolding k_def [symmetric] kq nq using rne_div_nearest [OF q, of p n'] ev by (simp add: r_def)
  next
    case False
    then have lt: "mag sb n < 2 ^ (sb + e)" using mag_multiple by (meson not_le)
    have "0 < e" using False by (auto intro: ccontr)
    then have B: "2 ^ sb * (q * 2 ^ e) \<le> p" using round_ne_range(2) [OF assms(1), of p sb] by (simp add: e_def)
    have "mag sb n * q < 2 ^ sb * (q * 2 ^ e)" using lt assms(1) by (simp add: power_add)
    moreover have "\<bar>int (r * (q * 2 ^ e)) - int p\<bar> \<le> \<bar>int (2 ^ sb * (q * 2 ^ e)) - int p\<bar>"
      unfolding r_def using rne_div_nearest [OF q] by blast
    ultimately show ?thesis unfolding k_def [symmetric] kq using B by linarith
  qed
qed

section \<open>Registers with a sticky bit\<close>

text \<open>
  \<open>approx j S p q\<close>: the register \<open>S\<close> and the fraction \<open>p / q\<close> compare in the same way
  with every multiple of \<open>2 ^ j\<close>. An exact register satisfies it for \<open>j = 0\<close>; a register
  whose lowest bit collects the bits shifted out (\<open>stk\<close>) for \<open>j = 1\<close>.
\<close>

definition approx :: "nat \<Rightarrow> nat \<Rightarrow> nat \<Rightarrow> nat \<Rightarrow> bool" where
  "approx j S p q \<longleftrightarrow> 0 < q \<and>
    (\<forall>m. (m * 2 ^ j * q \<le> p \<longleftrightarrow> m * 2 ^ j \<le> S) \<and> (p \<le> m * 2 ^ j * q \<longleftrightarrow> S \<le> m * 2 ^ j))"

definition stk :: "nat \<Rightarrow> nat \<Rightarrow> nat" where
  "stk S t = S div 2 ^ t + of_bool (S mod 2 ^ t \<noteq> 0 \<and> even (S div 2 ^ t))"

lemma approxD:
  assumes "approx j S p q"
  shows "0 < q" "m * 2 ^ j * q \<le> p \<longleftrightarrow> m * 2 ^ j \<le> S" "p \<le> m * 2 ^ j * q \<longleftrightarrow> S \<le> m * 2 ^ j"
  using assms by (simp_all add: approx_def)

lemma approx_exact: "0 < q \<Longrightarrow> approx j S (S * q) q"
  by (simp add: approx_def)

lemma exp_split: "j \<le> k \<Longrightarrow> m * 2 ^ k = m * 2 ^ (k - j) * (2 :: nat) ^ j"
  by (simp flip: power_add)

lemma approx_mono: "approx j S p q \<Longrightarrow> j \<le> k \<Longrightarrow> approx k S p q"
  unfolding approx_def by (simp only: exp_split) blast

lemma approx_scale: "0 < c \<Longrightarrow> approx j S (p * c) (q * c) \<longleftrightarrow> approx j S p q"
  by (simp add: approx_def flip: mult.assoc)

lemma approx_shift: "approx j S p q \<Longrightarrow> approx (j + k) (S * 2 ^ k) (p * 2 ^ k) q"
proof -
  assume a: "approx j S p q"
  have "m * 2 ^ (j + k) * q = m * 2 ^ j * q * 2 ^ k" "m * 2 ^ (j + k) = m * 2 ^ j * 2 ^ k" for m
    by (simp_all add: power_add)
  note e = this
  show ?thesis using a unfolding approx_def e by (simp add: mult.assoc)
qed

lemma approx_trans:
  assumes "approx i T S (2 ^ t)" "approx j S p q" "j \<le> i + t"
  shows "approx i T p (q * 2 ^ t)"
proof -
  have k: "approx (i + t) S p q" using approx_mono [OF assms(2,3)] .
  have e: "m * 2 ^ i * (q * 2 ^ t) = m * 2 ^ (i + t) * q" "m * 2 ^ (i + t) = m * 2 ^ i * 2 ^ t" for m
    by (simp_all add: power_add)
  show ?thesis
    unfolding approx_def e(1) using approxD [OF k] approxD [OF assms(1)] by (simp add: e(2))
qed

lemma approx_stk: "approx 1 (stk S t) S (2 ^ t)"
proof -
  define f r where "f = S div 2 ^ t" "r = S mod 2 ^ t"
  have S: "S = f * 2 ^ t + r" unfolding f_r_def by (simp only: div_mult_mod_eq)
  have l: "n * 2 ^ t \<le> S \<longleftrightarrow> n \<le> f" for n by (simp add: f_r_def less_eq_div_iff_mult_less_eq)
  have g: "S \<le> n * 2 ^ t \<longleftrightarrow> f < n \<or> f = n \<and> r = 0" for n
  proof -
    have "S < n * 2 ^ t \<longleftrightarrow> f < n" by (simp add: f_r_def div_less_iff_less_mult)
    moreover have "S = n * 2 ^ t \<longleftrightarrow> f = n \<and> r = 0" using S by (auto simp: f_r_def)
    ultimately show ?thesis by auto
  qed
  have k: "stk S t = f + of_bool (r \<noteq> 0 \<and> even f)" by (simp add: stk_def f_r_def)
  have "m * 2 \<le> f \<longleftrightarrow> m * 2 \<le> stk S t" for m
    unfolding k by (cases "r \<noteq> 0 \<and> even f") (auto elim!: evenE)
  moreover have "f < m * 2 \<or> f = m * 2 \<and> r = 0 \<longleftrightarrow> stk S t \<le> m * 2" for m
    unfolding k by (cases "r = 0"; cases "even f") (auto simp: le_less)
  ultimately show ?thesis by (simp add: approx_def l g)
qed

lemma approx_sticky_shift: "approx j S p q \<Longrightarrow> j \<le> Suc t \<Longrightarrow> approx 1 (stk S t) p (q * 2 ^ t)"
  using approx_trans [OF approx_stk] by simp

lemma approx_le: "approx j S p q \<Longrightarrow> j \<le> k \<Longrightarrow> m * 2 ^ k \<le> S \<longleftrightarrow> m * 2 ^ k * q \<le> p"
  using approxD(2) [OF approx_mono] by blast

lemma approx_ge: "approx j S p q \<Longrightarrow> j \<le> k \<Longrightarrow> S \<le> m * 2 ^ k \<longleftrightarrow> p \<le> m * 2 ^ k * q"
  using approxD(3) [OF approx_mono] by blast

lemma approx_plus:
  assumes "approx j S p q" "2 ^ j dvd A"
  shows "approx j (A + S) (A * q + p) q"
proof -
  obtain a where A: "A = a * 2 ^ j" using assms(2) by (auto simp: dvd_def mult.commute)
  show ?thesis unfolding approx_def
  proof (intro conjI allI)
    show "0 < q" by (rule approxD [OF assms(1)])
    fix m
    show "m * 2 ^ j * q \<le> A * q + p \<longleftrightarrow> m * 2 ^ j \<le> A + S"
    proof (cases "a \<le> m")
      case True
      then obtain d where "m = a + d" using le_Suc_ex by blast
      then show ?thesis using approxD(2) [OF assms(1), of d] by (simp add: A algebra_simps)
    next
      case False
      then have "m * 2 ^ j \<le> A" by (simp add: A)
      then have "m * 2 ^ j \<le> A + S" "m * 2 ^ j * q \<le> A * q + p" by (simp_all add: trans_le_add1)
      then show ?thesis by blast
    qed
    show "A * q + p \<le> m * 2 ^ j * q \<longleftrightarrow> A + S \<le> m * 2 ^ j"
    proof (cases "a \<le> m")
      case True
      then obtain d where "m = a + d" using le_Suc_ex by blast
      then show ?thesis using approxD(3) [OF assms(1), of d] by (simp add: A algebra_simps)
    next
      case False
      then have "m * 2 ^ j < A" by (simp add: A)
      moreover from this have "m * 2 ^ j * q < A * q" using approxD(1) [OF assms(1)] by simp
      ultimately show ?thesis by linarith
    qed
  qed
qed

lemma approx_minus:
  assumes "approx j S p q" "2 ^ j dvd A" "S \<le> A"
  shows "p \<le> A * q" "approx j (A - S) (A * q - p) q"
proof -
  obtain a where A: "A = a * 2 ^ j" using assms(2) by (auto simp: dvd_def mult.commute)
  show p: "p \<le> A * q" using approxD(3) [OF assms(1), of a] assms(3) by (simp add: A)
  have q: "0 < q" by (rule approxD [OF assms(1)])
  have "(m * 2 ^ j * q \<le> A * q - p \<longleftrightarrow> m * 2 ^ j \<le> A - S) \<and> (A * q - p \<le> m * 2 ^ j * q \<longleftrightarrow> A - S \<le> m * 2 ^ j)" for m
  proof (cases "m \<le> a")
    case True
    then obtain d where d: "a = m + d" using le_Suc_ex by blast
    have e: "A * q = m * 2 ^ j * q + d * 2 ^ j * q" "A = m * 2 ^ j + d * 2 ^ j" by (simp_all add: A d algebra_simps)
    have "m * 2 ^ j * q \<le> A * q - p \<longleftrightarrow> p \<le> d * 2 ^ j * q" "A * q - p \<le> m * 2 ^ j * q \<longleftrightarrow> d * 2 ^ j * q \<le> p"
      using p unfolding e(1) by linarith+
    moreover have "m * 2 ^ j \<le> A - S \<longleftrightarrow> S \<le> d * 2 ^ j" "A - S \<le> m * 2 ^ j \<longleftrightarrow> d * 2 ^ j \<le> S"
      using assms(3) unfolding e(2) by linarith+
    ultimately show ?thesis using approxD(2,3) [OF assms(1), of d] by simp
  next
    case False
    then have "A < m * 2 ^ j" by (simp add: A)
    moreover from this have "A * q < m * 2 ^ j * q" using q by simp
    ultimately show ?thesis by linarith
  qed
  then show "approx j (A - S) (A * q - p) q" using q by (simp add: approx_def)
qed

text \<open>Rounding a register whose lowest \<open>x\<close> bits lie below the last place.\<close>

lemma approx_rne:
  assumes "approx j S p q" "Suc j \<le> x"
  shows "rne_div S (2 ^ x) = rne_div p (q * 2 ^ x)"
proof (rule rne_div_cong)
  show "0 < q * 2 ^ x" using approxD(1) [OF assms(1)] by simp
  have h: "(2 :: nat) ^ x = 2 * 2 ^ (x - 1)" using assms(2) by (cases x) simp_all
  have a: "approx (x - 1) S p q" by (rule approx_mono [OF assms(1)]) (use assms(2) in simp)
  fix m
  show "m * 2 ^ x \<le> 2 * S \<longleftrightarrow> m * (q * 2 ^ x) \<le> 2 * p"
    using approxD(2) [OF a, of m] by (simp add: h algebra_simps)
  show "2 * S \<le> m * 2 ^ x \<longleftrightarrow> 2 * p \<le> m * (q * 2 ^ x)"
    using approxD(3) [OF a, of m] by (simp add: h algebra_simps)
qed simp

lemma round_ne_register:
  assumes a: "approx j S (p * 2 ^ x) (q * 2 ^ e)" "Suc j \<le> x" and q: "0 < q"
    and S: "2 ^ (sb + x) \<le> S \<or> e = 0" "S < 2 ^ (Suc sb + x)"
  shows "round_ne sb p q = e * 2 ^ sb + rne_div S (2 ^ x)"
proof -
  have j: "j \<le> sb + x" "j \<le> Suc sb + x" using a(2) by simp_all
  have "p * 2 ^ x < 2 ^ (Suc sb + x) * (q * 2 ^ e)"
    using approx_le [OF a(1) j(2), of 1] S(2) by simp
  then have lt: "p div q < 2 ^ (Suc sb + e)" using q by (simp add: power_add div_less_iff_less_mult algebra_simps)
  have ge: "2 ^ (sb + e) \<le> p div q" if "e \<noteq> 0"
  proof -
    have "2 ^ (sb + x) * (q * 2 ^ e) \<le> p * 2 ^ x"
      using approx_le [OF a(1) j(1), of 1] S(1) that by simp
    then show ?thesis using q by (simp add: power_add less_eq_div_iff_mult_less_eq algebra_simps)
  qed
  have e: "nbits (p div q) - (sb + 1) = e"
  proof (cases "e = 0")
    case True
    then show ?thesis using lt nbits_le_iff [of "p div q" "sb + 1"] by simp
  next
    case False
    then have "nbits (p div q) = Suc (sb + e)" using ge lt by (intro nbits_eqI) simp_all
    then show ?thesis by simp
  qed
  have "rne_div S (2 ^ x) = rne_div (p * 2 ^ x) (q * 2 ^ e * 2 ^ x)" by (rule approx_rne [OF a])
  also have "\<dots> = rne_div p (q * 2 ^ e)"
    by (rule rne_div_cong) (use q in \<open>simp_all flip: mult.assoc\<close>)
  finally show ?thesis by (simp only: round_ne_def e Let_def)
qed

lemma round_ne_overflow:
  assumes a: "approx j S (p * 2 ^ x) (q * 2 ^ e)" "j \<le> x" and q: "0 < q" and S: "2 ^ (sb + x) \<le> S"
  shows "Suc e * 2 ^ sb \<le> round_ne sb p q"
proof -
  have "2 ^ (sb + x) * (q * 2 ^ e) \<le> p * 2 ^ x" using approx_le [OF a(1), of "sb + x" 1] a(2) S by simp
  then have "2 ^ (sb + e) \<le> p div q" using q by (simp add: power_add less_eq_div_iff_mult_less_eq algebra_simps)
  then have n: "sb + e < nbits (p div q)" using nbits_le_iff [of "p div q" "sb + e"] by simp
  define e' where "e' = nbits (p div q) - (sb + 1)"
  have e: "e \<le> e'" using n by (simp add: e'_def)
  have "2 ^ sb \<le> rne_div p (q * 2 ^ e')"
  proof (cases "e' = 0")
    case True
    then show ?thesis
      using e \<open>2 ^ (sb + e) \<le> p div q\<close> q by (intro rne_div_bounds(2)) (simp_all add: less_eq_div_iff_mult_less_eq)
  next
    case False
    then show ?thesis using round_ne_form(3) [OF q, of p sb] by (simp add: e'_def)
  qed
  moreover have "e * 2 ^ sb \<le> e' * 2 ^ sb" using e by simp
  ultimately show ?thesis unfolding round_ne_def Let_def e'_def [symmetric] mult_Suc by linarith
qed

end
