(* ===== verification/FP_Lib.thy ===== *)
theory FP_Lib
  imports Int_Bits FP_Spec
begin

text \<open>
  \<open>fp_lib.h\<close>: what the floating-point routines share. A value of \<open>fp_t\<close> is the word
  \<open>rep_t\<close> of its bit pattern, so \<open>toRep\<close> and \<open>fromRep\<close> are the identity. The choice of
  \<open>SINGLE_PRECISION\<close>, \<open>DOUBLE_PRECISION\<close> or \<open>QUAD_PRECISION\<close> is the record \<open>fp_lib\<close> of
  what the header defines for each of them; the macros derived from it take the record as
  their argument. A C \<open>int\<close> that holds an exponent is an \<open>int\<close>: exponents stay below
  \<open>2 ^ 17\<close> in absolute value. The locale \<open>fp_format\<close> states what the routines rely on;
  \<open>fp_wide\<close> adds that \<open>wideMultiply\<close> computes the full product.
\<close>

section \<open>The three precisions\<close>

record 'w fp_lib =
  significandBits :: nat
  rep_clz :: "'w \<Rightarrow> int"
  wideMultiply :: "'w \<Rightarrow> 'w \<Rightarrow> 'w \<times> 'w"

definition rep_clz_sf :: "32 word \<Rightarrow> int" where
  "rep_clz_sf a = int (builtin_clz a)"

definition wideMultiply_sf :: "32 word \<Rightarrow> 32 word \<Rightarrow> 32 word \<times> 32 word" where
  "wideMultiply_sf a b = (let product = (ucast a * ucast b :: 64 word) in (ucast (drop_bit 32 product), ucast product))"

definition single_precision :: "32 word fp_lib" where
  "single_precision = \<lparr>significandBits = 23, rep_clz = rep_clz_sf, wideMultiply = wideMultiply_sf\<rparr>"

text \<open>Without \<open>__LP64__\<close> the leading zeros of a \<open>double\<close> are counted on its halves.\<close>

definition rep_clz_df :: "64 word \<Rightarrow> int" where
  "rep_clz_df a = int (builtin_clz a)"

definition rep_clz_df_ilp32 :: "64 word \<Rightarrow> int" where
  "rep_clz_df_ilp32 a =
    (if a AND 0xffffffff00000000 \<noteq> 0 then int (builtin_clz (ucast (drop_bit 32 a) :: 32 word))
     else 32 + int (builtin_clz (ucast (a AND 0xffffffff) :: 32 word)))"

definition wideMultiply_df :: "64 word \<Rightarrow> 64 word \<Rightarrow> 64 word \<times> 64 word" where
  "wideMultiply_df a b =
    (let loWord = (\<lambda>a. a AND 0xffffffff); hiWord = (\<lambda>a. drop_bit 32 a);
         plolo = loWord a * loWord b;
         plohi = loWord a * hiWord b;
         philo = hiWord a * loWord b;
         phihi = hiWord a * hiWord b;
         r0 = loWord plolo;
         r1 = hiWord plolo + loWord plohi + loWord philo;
         lo = r0 + push_bit 32 r1;
         hi = hiWord plohi + hiWord philo + hiWord r1 + phihi
     in (hi, lo))"

definition double_precision :: "64 word fp_lib" where
  "double_precision = \<lparr>significandBits = 52, rep_clz = rep_clz_df, wideMultiply = wideMultiply_df\<rparr>"

definition rep_clz_tf :: "128 word \<Rightarrow> int" where
  "rep_clz_tf a =
    (let uu = (of_all a :: 64 word halves);
         (word, add) = (if high uu \<noteq> 0 then (high uu, 0) else (low uu, 64 :: int))
     in int (builtin_clz word) + add)"

definition wideMultiply_tf :: "128 word \<Rightarrow> 128 word \<Rightarrow> 128 word \<times> 128 word" where
  "wideMultiply_tf a b =
    (let Word_LoMask = 0x00000000ffffffff;
         Word_HiMask = 0xffffffff00000000;
         Word_FullMask = 0xffffffffffffffff;
         Word_1 = (\<lambda>a :: 128 word. ucast (drop_bit 96 a AND Word_LoMask) :: 64 word);
         Word_2 = (\<lambda>a :: 128 word. ucast (drop_bit 64 a AND Word_LoMask) :: 64 word);
         Word_3 = (\<lambda>a :: 128 word. ucast (drop_bit 32 a AND Word_LoMask) :: 64 word);
         Word_4 = (\<lambda>a :: 128 word. ucast (a AND Word_LoMask) :: 64 word);
         product11 = Word_1 a * Word_1 b; product12 = Word_1 a * Word_2 b;
         product13 = Word_1 a * Word_3 b; product14 = Word_1 a * Word_4 b;
         product21 = Word_2 a * Word_1 b; product22 = Word_2 a * Word_2 b;
         product23 = Word_2 a * Word_3 b; product24 = Word_2 a * Word_4 b;
         product31 = Word_3 a * Word_1 b; product32 = Word_3 a * Word_2 b;
         product33 = Word_3 a * Word_3 b; product34 = Word_3 a * Word_4 b;
         product41 = Word_4 a * Word_1 b; product42 = Word_4 a * Word_2 b;
         product43 = Word_4 a * Word_3 b; product44 = Word_4 a * Word_4 b;
         sum0 = ucast product44 :: 128 word;
         sum1 = ucast product34 + ucast product43 :: 128 word;
         sum2 = ucast product24 + ucast product33 + ucast product42 :: 128 word;
         sum3 = ucast product14 + ucast product23 + ucast product32 + ucast product41 :: 128 word;
         sum4 = ucast product13 + ucast product22 + ucast product31 :: 128 word;
         sum5 = ucast product12 + ucast product21 :: 128 word;
         sum6 = ucast product11 :: 128 word;
         r0 = (sum0 AND Word_FullMask) + push_bit 32 (sum1 AND Word_LoMask);
         r1 = drop_bit 64 sum0 + (drop_bit 32 sum1 AND Word_FullMask) +
              (sum2 AND Word_FullMask) + (push_bit 32 sum3 AND Word_HiMask);
         lo = r0 + push_bit 64 r1;
         hi = drop_bit 64 r1 + drop_bit 96 sum1 + drop_bit 64 sum2 + drop_bit 32 sum3 + sum4 +
              push_bit 32 sum5 + push_bit 64 sum6
     in (hi, lo))"

definition quad_precision :: "128 word fp_lib" where
  "quad_precision = \<lparr>significandBits = 112, rep_clz = rep_clz_tf, wideMultiply = wideMultiply_tf\<rparr>"

section \<open>Derived constants and helpers\<close>

definition typeWidth :: "'a::len word fp_lib \<Rightarrow> nat" where
  "typeWidth F = LENGTH('a)"

definition exponentBits :: "'a::len word fp_lib \<Rightarrow> nat" where
  "exponentBits F = typeWidth F - significandBits F - 1"

definition maxExponent :: "'a::len word fp_lib \<Rightarrow> int" where
  "maxExponent F = 2 ^ exponentBits F - 1"

definition exponentBias :: "'a::len word fp_lib \<Rightarrow> int" where
  "exponentBias F = maxExponent F div 2"

definition implicitBit :: "'a::len word fp_lib \<Rightarrow> 'a word" where
  "implicitBit F = push_bit (significandBits F) 1"

definition significandMask :: "'a::len word fp_lib \<Rightarrow> 'a word" where
  "significandMask F = implicitBit F - 1"

definition signBit :: "'a::len word fp_lib \<Rightarrow> 'a word" where
  "signBit F = push_bit (significandBits F + exponentBits F) 1"

definition absMask :: "'a::len word fp_lib \<Rightarrow> 'a word" where
  "absMask F = signBit F - 1"

definition exponentMask :: "'a::len word fp_lib \<Rightarrow> 'a word" where
  "exponentMask F = absMask F XOR significandMask F"

definition oneRep :: "'a::len word fp_lib \<Rightarrow> 'a word" where
  "oneRep F = push_bit (significandBits F) (of_int (exponentBias F))"

definition infRep :: "'a::len word fp_lib \<Rightarrow> 'a word" where
  "infRep F = exponentMask F"

definition quietBit :: "'a::len word fp_lib \<Rightarrow> 'a word" where
  "quietBit F = drop_bit 1 (implicitBit F)"

definition qnanRep :: "'a::len word fp_lib \<Rightarrow> 'a word" where
  "qnanRep F = exponentMask F OR quietBit F"

text \<open>\<open>normalize\<close> returns the shifted significand and its C result.\<close>

definition normalize :: "'a::len word fp_lib \<Rightarrow> 'a word \<Rightarrow> 'a word \<times> int" where
  "normalize F significand =
    (let shift = rep_clz F significand - rep_clz F (implicitBit F)
     in (push_bit (nat shift) significand, 1 - shift))"

definition wideLeftShift :: "'a::len word fp_lib \<Rightarrow> 'a word \<Rightarrow> 'a word \<Rightarrow> nat \<Rightarrow> 'a word \<times> 'a word" where
  "wideLeftShift F hi lo count =
    (push_bit count hi OR drop_bit (typeWidth F - count) lo, push_bit count lo)"

definition wideRightShiftWithSticky ::
    "'a::len word fp_lib \<Rightarrow> 'a word \<Rightarrow> 'a word \<Rightarrow> nat \<Rightarrow> 'a word \<times> 'a word" where
  "wideRightShiftWithSticky F hi lo count =
    (if count < typeWidth F then
       let sticky = push_bit (typeWidth F - count) lo \<noteq> 0
       in (drop_bit count hi, push_bit (typeWidth F - count) hi OR drop_bit count lo OR of_bool sticky)
     else if count < 2 * typeWidth F then
       let sticky = push_bit (2 * typeWidth F - count) hi OR lo \<noteq> 0
       in (0, drop_bit (count - typeWidth F) hi OR of_bool sticky)
     else
       let sticky = hi OR lo \<noteq> 0
       in (0, of_bool sticky))"

section \<open>What the routines rely on\<close>

locale fp_format =
  fixes F :: "'a::len word fp_lib"
  assumes significandBits_pos: "2 \<le> significandBits F"
    and exponentBits_ge: "significandBits F + 5 \<le> LENGTH('a)"
    and exponentBits_le: "LENGTH('a) \<le> significandBits F + 16"
    and width_le: "LENGTH('a) < 2 ^ 15"
    and rep_clz: "a \<noteq> 0 \<Longrightarrow> rep_clz F a = int (builtin_clz a)"

text \<open>The patterns of absolute values, and the classes of values they denote.\<close>

definition absr :: "'a::len word \<Rightarrow> nat" where
  "absr x = unat x mod 2 ^ (LENGTH('a) - 1)"

definition negative :: "'a::len word \<Rightarrow> bool" where
  "negative x \<longleftrightarrow> bit x (LENGTH('a) - 1)"

definition inf_nat :: "'a::len word fp_lib \<Rightarrow> nat" where
  "inf_nat F = (2 ^ exponentBits F - 1) * 2 ^ significandBits F"

definition is_nan :: "'a::len word fp_lib \<Rightarrow> 'a word \<Rightarrow> bool" where
  "is_nan F x \<longleftrightarrow> inf_nat F < absr x"

definition is_inf :: "'a::len word fp_lib \<Rightarrow> 'a word \<Rightarrow> bool" where
  "is_inf F x \<longleftrightarrow> absr x = inf_nat F"

definition is_finite :: "'a::len word fp_lib \<Rightarrow> 'a word \<Rightarrow> bool" where
  "is_finite F x \<longleftrightarrow> absr x < inf_nat F"

text \<open>The value of a finite number in units of the least denormal, and the word for a rounded magnitude.\<close>

definition fval :: "'a::len word fp_lib \<Rightarrow> 'a word \<Rightarrow> int" where
  "fval F x = (if negative x then - int (mag (significandBits F) (absr x)) else int (mag (significandBits F) (absr x)))"

definition encode :: "'a::len word fp_lib \<Rightarrow> bool \<Rightarrow> nat \<Rightarrow> 'a word" where
  "encode F s n = of_nat (min n (inf_nat F)) OR (if s then signBit F else 0)"

lemma unat_negative_absr: "unat x = (if negative x then 2 ^ (LENGTH('a) - 1) else 0) + absr (x :: 'a::len word)"
proof -
  let ?M = "2 ^ (LENGTH('a) - 1) :: nat"
  have "2 * ?M = 2 ^ LENGTH('a)" by (simp flip: power_Suc)
  then have "unat x < 2 * ?M" using unat_lt [of x] by simp
  then have d: "unat x div ?M < 2" by (simp add: less_mult_imp_div_less)
  have "negative x \<longleftrightarrow> odd (unat x div ?M)"
    using bit_imp_le_length [of x "LENGTH('a) - 1"]
    by (simp add: negative_def bit_iff_odd [symmetric]) (auto simp: bit_simps)
  then have "unat x div ?M = (if negative x then 1 else 0)" using d by (auto simp: less_2_cases_iff)
  then show ?thesis using div_mult_mod_eq [of "unat x" ?M] by (simp only: absr_def) (auto split: if_splits)
qed

lemma absr_less: "absr (x :: 'a::len word) < 2 ^ (LENGTH('a) - 1)"
  by (simp add: absr_def)

lemma word_eq_sign_absr: "x = y \<longleftrightarrow> negative x = negative y \<and> absr x = absr (y :: 'a::len word)"
  using unat_negative_absr [of x] unat_negative_absr [of y] by (auto intro: unat_eqI)

lemma word_of_sign_absr:
  fixes x :: "'a::len word"
  assumes "unat x = (if s then 2 ^ (LENGTH('a) - 1) else 0) + n" "n < 2 ^ (LENGTH('a) - 1)"
  shows "absr x = n" "negative x = s"
proof -
  show a: "absr x = n" using assms by (cases s) (simp_all add: absr_def)
  show "negative x = s" using unat_negative_absr [of x] assms a by (auto split: if_splits)
qed

lemma unat_mask_le: "n \<le> LENGTH('a) \<Longrightarrow> unat (mask n :: 'a::len word) = 2 ^ n - 1"
proof -
  assume "n \<le> LENGTH('a)"
  then have "(2 :: nat) ^ n \<le> 2 ^ LENGTH('a)" by simp
  moreover have "0 < (2 :: nat) ^ n" by simp
  ultimately have "(2 :: nat) ^ n - 1 < 2 ^ LENGTH('a)" by linarith
  moreover have "mask n = (of_nat (2 ^ n - 1) :: 'a word)"
    by (simp add: mask_eq_exp_minus_1 of_nat_diff)
  ultimately show ?thesis by (simp only: unat_of_nat mod_less)
qed

context fp_format begin

lemma sb_width: "significandBits F + exponentBits F = LENGTH('a) - 1" "4 \<le> exponentBits F" "exponentBits F \<le> 15"
  using exponentBits_ge exponentBits_le by (simp_all add: exponentBits_def typeWidth_def)

lemma unat_implicitBit: "unat (implicitBit F) = 2 ^ significandBits F"
proof -
  have "(2 :: nat) ^ significandBits F < 2 ^ LENGTH('a)" using exponentBits_ge by simp
  then show ?thesis unfolding implicitBit_def by (subst unat_push_bit_small) simp_all
qed

lemma significandMask_mask: "significandMask F = mask (significandBits F)"
  unfolding significandMask_def implicitBit_def by (simp add: mask_eq_decr_exp push_bit_eq_mult)

lemma signBit_eq: "signBit F = push_bit (LENGTH('a) - 1) 1"
  by (simp only: signBit_def sb_width)

lemma unat_signBit: "unat (signBit F) = 2 ^ (LENGTH('a) - 1)"
proof -
  have "(2 :: nat) ^ (LENGTH('a) - 1) < 2 ^ LENGTH('a)" by simp
  then show ?thesis unfolding signBit_eq by (subst unat_push_bit_small) simp_all
qed

lemma absMask_mask: "absMask F = mask (LENGTH('a) - 1)"
  unfolding absMask_def signBit_eq by (simp add: mask_eq_decr_exp push_bit_eq_mult)

lemma unat_and_absMask: "unat (x AND absMask F) = absr x"
  by (simp only: absMask_mask unat_and_mask absr_def)

lemma unat_and_significandMask: "unat (x AND significandMask F) = unat x mod 2 ^ significandBits F"
  by (simp only: significandMask_mask unat_and_mask)

lemma bit_infRep: "bit (infRep F) n \<longleftrightarrow> significandBits F \<le> n \<and> n < LENGTH('a) - 1"
  unfolding infRep_def exponentMask_def absMask_mask significandMask_mask
  using sb_width by (auto simp: bit_simps)

lemma inf_nat_less: "inf_nat F < 2 ^ (LENGTH('a) - 1)"
proof -
  have "inf_nat F < 2 ^ exponentBits F * 2 ^ significandBits F" by (simp add: inf_nat_def)
  also have "\<dots> = 2 ^ (LENGTH('a) - 1)" by (metis add.commute power_add sb_width(1))
  finally show ?thesis .
qed

lemma unat_infRep: "unat (infRep F) = inf_nat F"
proof -
  have "infRep F = push_bit (significandBits F) (mask (exponentBits F))"
    using sb_width exponentBits_ge by (intro bit_word_eqI) (auto simp: bit_infRep bit_simps)
  moreover have "inf_nat F < 2 ^ LENGTH('a)" by (rule less_le_trans [OF inf_nat_less]) simp
  moreover have "unat (mask (exponentBits F) :: 'a word) = 2 ^ exponentBits F - 1"
    using sb_width(1) by (simp add: unat_mask_le)
  ultimately show ?thesis by (simp only: unat_push_bit_small inf_nat_def)
qed

lemma unat_quietBit: "unat (quietBit F) = 2 ^ (significandBits F - 1)"
proof -
  have "(2 :: nat) ^ significandBits F div 2 = 2 ^ (significandBits F - 1)"
    using significandBits_pos by (simp add: power_diff)
  then show ?thesis by (simp add: quietBit_def unat_drop_bit_div unat_implicitBit)
qed

lemma unat_exponent:
  "unat (drop_bit (significandBits F) x AND of_int (maxExponent F)) = unat x div 2 ^ significandBits F mod 2 ^ exponentBits F"
  for x :: "'a word"
proof -
  have "of_int (maxExponent F) = (mask (exponentBits F) :: 'a word)"
    by (simp add: maxExponent_def mask_eq_exp_minus_1)
  then show ?thesis by (simp only: unat_and_mask unat_drop_bit_div)
qed

lemma exponent_absr: "unat x div 2 ^ significandBits F mod 2 ^ exponentBits F = absr x div 2 ^ significandBits F"
  "unat x mod 2 ^ significandBits F = absr x mod 2 ^ significandBits F"
  for x :: "'a word"
proof -
  have e: "(2 :: nat) ^ (LENGTH('a) - 1) = 2 ^ significandBits F * 2 ^ exponentBits F"
    by (simp only: power_add [symmetric] sb_width)
  show "unat x div 2 ^ significandBits F mod 2 ^ exponentBits F = absr x div 2 ^ significandBits F"
    unfolding absr_def e by (simp add: mod_mult2_eq)
  show "unat x mod 2 ^ significandBits F = absr x mod 2 ^ significandBits F"
    unfolding absr_def e by (simp add: mod_mult2_eq)
qed

lemma maxExponent_bounds: "15 \<le> maxExponent F" "maxExponent F < 2 ^ 15" "int (2 ^ exponentBits F - 1) = maxExponent F"
proof -
  have "(2 :: int) ^ 4 \<le> 2 ^ exponentBits F" "(2 :: int) ^ exponentBits F \<le> 2 ^ 15"
    using sb_width by (intro power_increasing; simp)+
  then show "15 \<le> maxExponent F" "maxExponent F < 2 ^ 15" by (simp_all add: maxExponent_def)
  show "int (2 ^ exponentBits F - 1) = maxExponent F" by (simp add: maxExponent_def of_nat_diff)
qed

lemma bit_quietBit: "bit (quietBit F) n \<longleftrightarrow> n = significandBits F - 1"
  using exponentBits_ge significandBits_pos by (auto simp: quietBit_def implicitBit_def bit_simps)

text \<open>A normalised denormal significand, and the exponent that goes with it.\<close>

lemma normalize_correct:
  assumes "normalize F x = (s, e)" "x \<noteq> 0" "unat x < 2 ^ significandBits F"
  shows "2 ^ significandBits F \<le> unat s" "unat s < 2 ^ Suc (significandBits F)" "1 - int (significandBits F) \<le> e" "e \<le> 0"
    "unat s = unat x * 2 ^ nat (1 - e)"
proof -
  let ?sb = "significandBits F"
  have i0: "implicitBit F \<noteq> 0" using unat_implicitBit by auto
  have ni: "nbits (unat (implicitBit F)) = Suc ?sb" by (simp add: unat_implicitBit)
  have nx: "nbits (unat x) \<le> ?sb" using assms(3) by (simp add: nbits_le_iff)
  have x0: "0 < unat x" "nbits (unat x) \<noteq> 0" using assms(2) by (simp_all add: unat_gt_0 unat_eq_zero)
  define d where "d = Suc ?sb - nbits (unat x)"
  have "rep_clz F x - rep_clz F (implicitBit F) = int d"
    using rep_clz [OF assms(2)] rep_clz [OF i0] nx exponentBits_ge ni
    unfolding builtin_clz_def d_def by linarith
  then have s: "s = push_bit d x" and e: "e = 1 - int d" using assms(1) by (auto simp: normalize_def Let_def)
  have nb: "nbits (unat x * 2 ^ d) = Suc ?sb" using x0 nx by (simp add: nbits_mult_exp d_def)
  then have lt: "unat x * 2 ^ d < 2 ^ Suc ?sb" using less_exp_nbits [of "unat x * 2 ^ d"] by simp
  also have "\<dots> \<le> 2 ^ LENGTH('a)" using exponentBits_ge by (intro power_increasing) simp_all
  finally have us: "unat s = unat x * 2 ^ d" unfolding s by (rule unat_push_bit_small)
  then show "unat s < 2 ^ Suc ?sb" using lt by simp
  show "2 ^ ?sb \<le> unat s" using exp_nbits_le [of "unat x * 2 ^ d"] nb x0 us by simp
  show "1 - int ?sb \<le> e" "e \<le> 0" using x0(2) nx unfolding e d_def by linarith+
  show "unat s = unat x * 2 ^ nat (1 - e)" using us e by simp
qed

lemma unat_or_implicitBit:
  "unat s < 2 ^ significandBits F \<Longrightarrow> unat (s OR implicitBit F) = 2 ^ significandBits F + unat s"
  "2 ^ significandBits F \<le> unat s \<Longrightarrow> unat s < 2 ^ Suc (significandBits F) \<Longrightarrow> s OR implicitBit F = s"
proof -
  let ?sb = "significandBits F"
  show "unat (s OR implicitBit F) = 2 ^ ?sb + unat s" if "unat s < 2 ^ ?sb"
    using unat_or_aligned [of ?sb "implicitBit F" s] that by (simp add: unat_implicitBit or.commute)
  show "s OR implicitBit F = s" if "2 ^ ?sb \<le> unat s" "unat s < 2 ^ Suc ?sb"
  proof (rule bit_word_eqI)
    have "bit (unat s) ?sb" using nat_bit_top [OF that(2)] that(1) by simp
    then have "bit s ?sb" by (simp add: bit_simps)
    then show "bit (s OR implicitBit F) n \<longleftrightarrow> bit s n" for n
      by (auto simp: implicitBit_def bit_simps)
  qed
qed

text \<open>Unpacking a finite number other than zero into a significand with its leading bit set and an exponent.\<close>

lemma unpack:
  fixes x S :: "'a word"
  assumes x: "is_finite F x" "absr x \<noteq> 0"
    and E0: "E0 = int (unat (drop_bit (significandBits F) x AND of_int (maxExponent F)))"
    and u: "(S, E) = (if E0 = 0 then normalize F (x AND significandMask F) else (x AND significandMask F, E0))"
  shows "2 ^ significandBits F \<le> unat (S OR implicitBit F)" "unat (S OR implicitBit F) < 2 ^ Suc (significandBits F)"
    "1 - int (significandBits F) \<le> E" "E < maxExponent F"
    "mag (significandBits F) (absr x) * 2 ^ significandBits F =
      unat (S OR implicitBit F) * 2 ^ nat (E - 1 + int (significandBits F))"
    "E = (if E0 = 0 then E else int (absr x div 2 ^ significandBits F))" "E0 = int (absr x div 2 ^ significandBits F)"
proof -
  let ?sb = "significandBits F"
  define f where "f = absr x mod 2 ^ ?sb"
  have us: "unat (x AND significandMask F) = f" by (simp add: unat_and_significandMask exponent_absr f_def)
  have f: "f < 2 ^ ?sb" by (simp add: f_def)
  show e0: "E0 = int (absr x div 2 ^ ?sb)" by (simp add: E0 unat_exponent exponent_absr)
  have abs: "absr x = absr x div 2 ^ ?sb * 2 ^ ?sb + f" by (simp only: f_def div_mult_mod_eq)
  have *: "2 ^ ?sb \<le> unat (S OR implicitBit F) \<and> unat (S OR implicitBit F) < 2 ^ Suc ?sb \<and> 1 - int ?sb \<le> E \<and>
    E < maxExponent F \<and> mag ?sb (absr x) * 2 ^ ?sb = unat (S OR implicitBit F) * 2 ^ nat (E - 1 + int ?sb)"
  proof (cases "E0 = 0")
    case True
    then have "absr x = f" using e0 abs by simp
    then have nz: "x AND significandMask F \<noteq> 0" and m: "mag ?sb (absr x) = f" using x(2) us f by (auto simp: mag_def)
    have "normalize F (x AND significandMask F) = (S, E)" using u True by simp
    note n = normalize_correct [OF this nz, unfolded us, OF f]
    have "f * 2 ^ ?sb = f * 2 ^ nat (1 - E) * 2 ^ nat (E - 1 + int ?sb)"
      using n(3,4) by (simp add: mult.assoc flip: power_add nat_add_distrib)
    then show ?thesis using n unat_or_implicitBit(2) [OF n(1,2)] m maxExponent_bounds by simp
  next
    case False
    then have SE: "S = x AND significandMask F" "E = int (absr x div 2 ^ ?sb)" using u e0 by simp_all
    have uS: "unat (S OR implicitBit F) = 2 ^ ?sb + f" using unat_or_implicitBit(1) f by (simp add: SE us)
    have pos: "0 < absr x div 2 ^ ?sb" using False e0 by simp
    then have m: "mag ?sb (absr x) = (2 ^ ?sb + f) * 2 ^ (absr x div 2 ^ ?sb - 1)"
      by (simp add: mag_def f_def div_greater_zero_iff)
    have "absr x div 2 ^ ?sb < 2 ^ exponentBits F - 1"
      using x(1) by (simp add: is_finite_def inf_nat_def less_mult_imp_div_less)
    then have lt: "E < maxExponent F" unfolding SE(2) maxExponent_bounds(3) [symmetric] by (simp only: of_nat_less_iff)
    have "nat (E - 1 + int ?sb) = absr x div 2 ^ ?sb - 1 + ?sb" using pos SE(2) by simp
    then have "mag ?sb (absr x) * 2 ^ ?sb = unat (S OR implicitBit F) * 2 ^ nat (E - 1 + int ?sb)"
      by (simp only: m uS power_add mult.assoc)
    then show ?thesis using uS f lt pos SE(2) by simp
  qed
  then show "2 ^ ?sb \<le> unat (S OR implicitBit F)" "unat (S OR implicitBit F) < 2 ^ Suc ?sb" "1 - int ?sb \<le> E" "E < maxExponent F"
    "mag ?sb (absr x) * 2 ^ ?sb = unat (S OR implicitBit F) * 2 ^ nat (E - 1 + int ?sb)" by blast+
  show "E = (if E0 = 0 then E else int (absr x div 2 ^ ?sb))" using u e0 by auto
qed

lemma inf_nat_pos: "0 < inf_nat F"
proof -
  have "(1 :: nat) < 2 ^ exponentBits F" by (rule one_less_power) (use sb_width in simp_all)
  then show ?thesis by (simp add: inf_nat_def)
qed

text \<open>The test \<open>aAbs - 1 >= infRep - 1\<close> for zero, infinity and NaN, where the subtraction wraps for zero.\<close>

lemma special_test: "(x AND absMask F) - 1 \<ge> infRep F - 1 \<longleftrightarrow> absr x = 0 \<or> inf_nat F \<le> absr x"
proof -
  have i: "unat (infRep F - 1) = inf_nat F - 1" using inf_nat_pos unat_infRep by (subst unat_minus_one) auto
  show ?thesis
  proof (cases "absr x = 0")
    case True
    then have "x AND absMask F = 0" using unat_and_absMask [of x] by (simp add: unat_eq_zero)
    then show ?thesis using True by simp
  next
    case False
    then have "x AND absMask F \<noteq> 0" using unat_and_absMask [of x] by auto
    then have "unat ((x AND absMask F) - 1) = absr x - 1" by (simp add: unat_minus_one unat_and_absMask)
    then show ?thesis using i False inf_nat_pos by (simp add: word_le_nat_alt) linarith
  qed
qed

lemma rep_tests:
  "(x AND absMask F) > infRep F \<longleftrightarrow> is_nan F x" "(x AND absMask F) = infRep F \<longleftrightarrow> is_inf F x"
  "(x AND absMask F) = 0 \<longleftrightarrow> absr x = 0" "(y AND absMask F) > (x AND absMask F) \<longleftrightarrow> absr x < absr y"
  "(x AND absMask F) < implicitBit F \<longleftrightarrow> absr x < 2 ^ significandBits F"
  by (simp_all add: word_less_nat_alt word_unat_eq_iff unat_and_absMask unat_infRep is_nan_def is_inf_def unat_implicitBit)

lemma and_signBit: "x AND signBit F = (if negative x then signBit F else 0)"
  by (rule bit_word_eqI) (auto simp: signBit_eq negative_def bit_simps)

lemma negative_xor: "negative (x XOR y) \<longleftrightarrow> negative x \<noteq> negative (y :: 'a word)"
  by (simp add: negative_def bit_simps)

lemma signBit_nonzero: "signBit F \<noteq> 0"
  using unat_signBit by auto

text \<open>Setting the sign on a pattern of an absolute value.\<close>

lemma unat_or_sign:
  assumes "unat x < 2 ^ (LENGTH('a) - 1)"
  shows "unat (x OR (if s then signBit F else 0)) = (if s then 2 ^ (LENGTH('a) - 1) else 0) + unat x"
  using unat_or_aligned [of "LENGTH('a) - 1" "signBit F" x] assms
  by (cases s) (simp_all add: unat_signBit [simplified] or.commute)

lemma unat_encode: "unat (encode F s n) = (if s then 2 ^ (LENGTH('a) - 1) else 0) + min n (inf_nat F)"
proof -
  have "min n (inf_nat F) < 2 ^ (LENGTH('a) - 1)" using inf_nat_less by simp
  moreover from this have "unat (of_nat (min n (inf_nat F)) :: 'a word) = min n (inf_nat F)"
    by (subst unat_of_nat) (simp add: less_le_trans)
  ultimately show ?thesis unfolding encode_def by (subst unat_or_sign) simp_all
qed

lemma encode_eqI:
  "unat x = (if s then 2 ^ (LENGTH('a) - 1) else 0) + n \<Longrightarrow> n \<le> inf_nat F \<Longrightarrow> x = encode F s n"
  by (rule unat_eqI) (simp add: unat_encode)

lemma inf_or_sign: "infRep F OR (if s then signBit F else 0) = encode F s n" if "inf_nat F \<le> n"
  by (rule unat_eqI) (use that inf_nat_less in \<open>simp add: unat_encode unat_or_sign unat_infRep\<close>)

end

section \<open>The three formats\<close>

interpretation sf: fp_format single_precision
  by unfold_locales (simp_all add: single_precision_def rep_clz_sf_def)

interpretation df: fp_format double_precision
  by unfold_locales (simp_all add: double_precision_def rep_clz_df_def)

lemma rep_clz_tf_eq: "rep_clz_tf a = int (builtin_clz a)"
proof -
  define x where "x = (of_all a :: 64 word halves)"
  have "nbits (unat a) = (if high x = 0 then nbits (unat (low x)) else 64 + nbits (unat (high x)))"
    using nbits_halves [OF _ x_def] by simp
  moreover have "nbits (unat (low x)) \<le> 64" "nbits (unat (high x)) \<le> 64" "nbits (unat (low x)) \<le> 128"
    using nbits_unat_le [of "low x"] nbits_unat_le [of "high x"] by simp_all
  ultimately show ?thesis
    unfolding rep_clz_tf_def Let_def x_def [symmetric] by (simp add: builtin_clz_def of_nat_diff)
qed

lemma rep_clz_df_ilp32_eq: "a \<noteq> 0 \<Longrightarrow> rep_clz_df_ilp32 a = rep_clz_df a"
proof -
  assume a: "a \<noteq> 0"
  define x where "x = (of_all a :: 32 word halves)"
  have "a AND 0xffffffff = a AND mask 32" by (simp add: mask_numeral)
  then have h: "ucast (drop_bit 32 a) = high x" "ucast (a AND 0xffffffff) = low x"
    by (auto intro!: bit_word_eqI simp: x_def of_all_def bit_simps simp del: ucast_drop_bit_eq)
  have "unat a div 2 ^ 32 < 2 ^ 32" using unat_lt [of a] by (intro less_mult_imp_div_less) simp
  then have "a AND 0xffffffff00000000 = 0 \<longleftrightarrow> unat (high x) = 0"
    using and_field_eq_0 [of "0xffffffff00000000" 32 32 a] by (simp add: x_def unat_high)
  moreover have "nbits (unat a) = (if high x = 0 then nbits (unat (low x)) else 32 + nbits (unat (high x)))"
    using nbits_halves [OF _ x_def] by simp
  moreover have "nbits (unat (low x)) \<le> 32" "nbits (unat (high x)) \<le> 32" "nbits (unat (low x)) \<le> 64"
    using nbits_unat_le [of "low x"] nbits_unat_le [of "high x"] by simp_all
  ultimately show ?thesis
    unfolding rep_clz_df_ilp32_def rep_clz_df_def h by (simp add: builtin_clz_def of_nat_diff unat_eq_zero)
qed

interpretation tf: fp_format quad_precision
  by unfold_locales (simp_all add: quad_precision_def rep_clz_tf_eq)

end
