(* ===== verification/FP_Add.thy ===== *)
theory FP_Add
  imports FP_Lib
begin

text \<open>
  Addition and subtraction: \<open>fp_mode.c\<close>, \<open>fp_add_impl.inc\<close>, \<open>add?f3.c\<close> and
  \<open>sub?f3.c\<close>. The body of \<open>__addXf3__\<close> is four definitions: the special cases, the
  exchange of the operands, the alignment and sum of the significands, and the rounding. \<open>ieee_add\<close> is the contract, an
  exact sum rounded once; the locale \<open>fp_format\<close> proves it for every format. \<open>fe_getround\<close> is the
  generic \<open>fp_mode.c\<close>, which always rounds to nearest; the files of the same name for i386, arm and aarch64,
  which read the rounding mode of the machine, are not modelled, so the theorems are about targets without one.
\<close>

section \<open>The code\<close>

datatype CRT_FE_ROUND_MODE = CRT_FE_TONEAREST | CRT_FE_DOWNWARD | CRT_FE_UPWARD | CRT_FE_TOWARDZERO

definition fe_getround :: CRT_FE_ROUND_MODE where
  "fe_getround = CRT_FE_TONEAREST"

definition fe_raise_inexact :: int where
  "fe_raise_inexact = 0"

text \<open>The call of \<open>__fe_raise_inexact\<close> returns \<open>fe_raise_inexact\<close>, which is not used.\<close>

definition addXf3_round :: "'a::len word fp_lib \<Rightarrow> 'a word \<Rightarrow> int \<Rightarrow> 'a word \<Rightarrow> 'a word" where
  "addXf3_round F resultSign aExponent aSignificand =
    (if aExponent \<ge> maxExponent F then infRep F OR resultSign
     else
       let (aSignificand, aExponent) =
             (if aExponent \<le> 0 then
                let shift = nat (1 - aExponent);
                    sticky = push_bit (typeWidth F - shift) aSignificand \<noteq> 0
                in (drop_bit shift aSignificand OR of_bool sticky, 0)
              else (aSignificand, aExponent));
           roundGuardSticky = aSignificand AND 7;
           result = drop_bit 3 aSignificand AND significandMask F;
           result = result OR push_bit (significandBits F) (of_int aExponent);
           result = result OR resultSign
       in case fe_getround of
            CRT_FE_TONEAREST \<Rightarrow>
              (let result = (if roundGuardSticky > 4 then result + 1 else result)
               in if roundGuardSticky = 4 then result + (result AND 1) else result)
          | CRT_FE_DOWNWARD \<Rightarrow> (if resultSign \<noteq> 0 \<and> roundGuardSticky \<noteq> 0 then result + 1 else result)
          | CRT_FE_UPWARD \<Rightarrow> (if resultSign = 0 \<and> roundGuardSticky \<noteq> 0 then result + 1 else result)
          | CRT_FE_TOWARDZERO \<Rightarrow> result)"

definition addXf3_aligned :: "'a::len word fp_lib \<Rightarrow> 'a word \<Rightarrow> 'a word \<Rightarrow> 'a word" where
  "addXf3_aligned F aRep bRep =
    (let aExponent = int (unat (drop_bit (significandBits F) aRep AND of_int (maxExponent F)));
         bExponent = int (unat (drop_bit (significandBits F) bRep AND of_int (maxExponent F)));
         aSignificand = aRep AND significandMask F;
         bSignificand = bRep AND significandMask F;
         (aSignificand, aExponent) = (if aExponent = 0 then normalize F aSignificand else (aSignificand, aExponent));
         (bSignificand, bExponent) = (if bExponent = 0 then normalize F bSignificand else (bSignificand, bExponent));
         resultSign = aRep AND signBit F;
         subtraction = (aRep XOR bRep) AND signBit F \<noteq> 0;
         aSignificand = push_bit 3 (aSignificand OR implicitBit F);
         bSignificand = push_bit 3 (bSignificand OR implicitBit F);
         align = of_int (aExponent - bExponent) :: 32 word;
         bSignificand =
           (if align \<noteq> 0 then
              if unat align < typeWidth F then
                let sticky = push_bit (typeWidth F - unat align) bSignificand \<noteq> 0
                in drop_bit (unat align) bSignificand OR of_bool sticky
              else 1
            else bSignificand)
     in if subtraction then
          let aSignificand = aSignificand - bSignificand
          in if aSignificand = 0 then 0
             else if aSignificand < push_bit 3 (implicitBit F) then
               let shift = rep_clz F aSignificand - rep_clz F (push_bit 3 (implicitBit F))
               in addXf3_round F resultSign (aExponent - shift) (push_bit (nat shift) aSignificand)
             else addXf3_round F resultSign aExponent aSignificand
        else
          let aSignificand = aSignificand + bSignificand
          in if aSignificand AND push_bit 4 (implicitBit F) \<noteq> 0 then
               let sticky = aSignificand AND 1 \<noteq> 0
               in addXf3_round F resultSign (aExponent + 1) (drop_bit 1 aSignificand OR of_bool sticky)
             else addXf3_round F resultSign aExponent aSignificand)"

definition addXf3_core :: "'a::len word fp_lib \<Rightarrow> 'a word \<Rightarrow> 'a word \<Rightarrow> 'a word" where
  "addXf3_core F aRep bRep =
    (let aAbs = aRep AND absMask F;
         bAbs = bRep AND absMask F;
         (aRep, bRep) = (if bAbs > aAbs then (bRep, aRep) else (aRep, bRep))
     in addXf3_aligned F aRep bRep)"

definition addXf3 :: "'a::len word fp_lib \<Rightarrow> 'a word \<Rightarrow> 'a word \<Rightarrow> 'a word" where
  "addXf3 F a b =
    (let aAbs = a AND absMask F;
         bAbs = b AND absMask F
     in if aAbs - 1 \<ge> infRep F - 1 \<or> bAbs - 1 \<ge> infRep F - 1 then
          if aAbs > infRep F then a OR quietBit F
          else if bAbs > infRep F then b OR quietBit F
          else if aAbs = infRep F then (if a XOR b = signBit F then qnanRep F else a)
          else if bAbs = infRep F then b
          else if aAbs = 0 then (if bAbs = 0 then a AND b else b)
          else if bAbs = 0 then a
          else addXf3_core F a b
        else addXf3_core F a b)"

definition addsf3 :: "32 word \<Rightarrow> 32 word \<Rightarrow> 32 word" where "addsf3 a b = addXf3 single_precision a b"
definition adddf3 :: "64 word \<Rightarrow> 64 word \<Rightarrow> 64 word" where "adddf3 a b = addXf3 double_precision a b"
definition addtf3 :: "128 word \<Rightarrow> 128 word \<Rightarrow> 128 word" where "addtf3 a b = addXf3 quad_precision a b"

definition subsf3 :: "32 word \<Rightarrow> 32 word \<Rightarrow> 32 word" where
  "subsf3 a b = addsf3 a (b XOR signBit single_precision)"
definition subdf3 :: "64 word \<Rightarrow> 64 word \<Rightarrow> 64 word" where
  "subdf3 a b = adddf3 a (b XOR signBit double_precision)"
definition subtf3 :: "128 word \<Rightarrow> 128 word \<Rightarrow> 128 word" where
  "subtf3 a b = addtf3 a (b XOR signBit quad_precision)"

section \<open>The contract\<close>

definition ieee_add :: "'a::len word fp_lib \<Rightarrow> 'a word \<Rightarrow> 'a word \<Rightarrow> 'a word" where
  "ieee_add F a b =
    (if is_nan F a then a OR quietBit F
     else if is_nan F b then b OR quietBit F
     else if is_inf F a then (if is_inf F b \<and> negative a \<noteq> negative b then qnanRep F else a)
     else if is_inf F b then b
     else
       let v = fval F a + fval F b
       in if v = 0 then encode F (negative a \<and> negative b) 0
          else encode F (v < 0) (round_ne (significandBits F) (nat \<bar>v\<bar>) 1))"

section \<open>Sticky shifts and the final rounding\<close>

lemma stk_0 [simp]: "stk S 0 = S"
  by (simp add: stk_def)

lemma stk_less: "S < 2 ^ (Suc k + t) \<Longrightarrow> stk S t < 2 ^ Suc k"
proof -
  assume "S < 2 ^ (Suc k + t)"
  then have "S div 2 ^ t < 2 ^ Suc k" by (simp add: power_add less_mult_imp_div_less)
  moreover have "Suc (S div 2 ^ t) \<noteq> 2 ^ Suc k" if "even (S div 2 ^ t)"
    using that by (metis even_Suc even_power even_numeral zero_less_Suc)
  ultimately show ?thesis by (auto simp: stk_def le_less)
qed

lemma unat_or_of_bool: "unat (w OR of_bool b :: 'a::len word) = unat w + of_bool (b \<and> even (unat w))"
proof (cases b)
  case True
  have "unat (w OR 1) = unat w OR unat (1 :: 'a word)" by (rule unat_or_eq)
  also have "\<dots> = unat w + of_bool (even (unat w))" by (simp only: unat_1 or_one_eq)
  finally show ?thesis using True by simp
qed simp

lemma unat_sticky_shift:
  fixes w :: "'a::len word"
  assumes "t < LENGTH('a)"
  shows "unat (drop_bit t w OR of_bool (push_bit (LENGTH('a) - t) w \<noteq> 0)) = stk (unat w) t"
proof -
  have e: "(2 :: nat) ^ LENGTH('a) = 2 ^ t * 2 ^ (LENGTH('a) - t)" using assms by (simp flip: power_add)
  have "unat (push_bit (LENGTH('a) - t) w) = unat w mod 2 ^ t * 2 ^ (LENGTH('a) - t)"
    by (simp only: unat_push_bit e mult_mod_left)
  then have "push_bit (LENGTH('a) - t) w \<noteq> 0 \<longleftrightarrow> unat w mod 2 ^ t \<noteq> 0"
    by (metis mult_eq_0_iff power_not_zero unat_eq_zero zero_neq_numeral)
  then show ?thesis by (simp only: unat_or_of_bool stk_def unat_drop_bit_div)
qed

lemma rne_div_8:
  "rne_div S 8 = (if S mod 8 > 4 then S div 8 + 1 else if S mod 8 = 4 then S div 8 + S div 8 mod 2 else S div 8)"
  by (simp add: rne_div_def Let_def)

lemma unat_increment:
  fixes r :: "'a::len word"
  assumes "Suc (unat r) < 2 ^ LENGTH('a)"
  shows "unat (r + 1) = Suc (unat r)" "unat (r + (r AND 1)) = unat r + unat r mod 2"
proof -
  show "unat (r + 1) = Suc (unat r)" using assms by (simp add: unat_add_small)
  have "unat (r AND 1) = unat r mod 2"
    using unat_and_mask [of r 1] by (simp add: mask_Suc_0)
  moreover have "unat r mod 2 \<le> 1" by simp
  ultimately show "unat (r + (r AND 1)) = unat r + unat r mod 2" using assms by (subst unat_add_small) linarith+
qed

lemma unat_of_int_small: "0 \<le> k \<Longrightarrow> k < 2 ^ LENGTH('a) \<Longrightarrow> unat (of_int k :: 'a::len word) = nat k"
  by (simp add: uint_word_of_int take_bit_int_eq_self flip: nat_uint_eq)

context fp_format begin

lemma inf_nat_less_full: "inf_nat F < 2 ^ LENGTH('a)"
  by (rule less_le_trans [OF inf_nat_less]) simp

lemma unat_sig_fields:
  fixes S :: "'a word"
  assumes "0 \<le> E" "E < maxExponent F" "R = drop_bit 3 S AND significandMask F"
  shows "unat ((R OR push_bit (significandBits F) (of_int E)) OR (if s then signBit F else 0)) =
    (if s then 2 ^ (LENGTH('a) - 1) else 0) + (nat E * 2 ^ significandBits F + unat S div 8 mod 2 ^ significandBits F)"
    "nat E * 2 ^ significandBits F + unat S div 8 mod 2 ^ significandBits F < inf_nat F"
proof -
  let ?sb = "significandBits F"
  have r: "unat R = unat S div 8 mod 2 ^ ?sb" unfolding assms(3) by (simp add: unat_and_significandMask unat_drop_bit_div)
  have lt: "nat E * 2 ^ ?sb + 2 ^ ?sb \<le> inf_nat F"
  proof -
    have "nat E < 2 ^ exponentBits F - 1" using assms(1,2) maxExponent_bounds(3) by linarith
    then have "(nat E + 1) * 2 ^ ?sb \<le> (2 ^ exponentBits F - 1) * 2 ^ ?sb" by (intro mult_right_mono) simp_all
    then show ?thesis by (simp add: inf_nat_def)
  qed
  have "unat S div 8 mod 2 ^ ?sb < 2 ^ ?sb" by simp
  then show lt2: "nat E * 2 ^ ?sb + unat S div 8 mod 2 ^ ?sb < inf_nat F" using lt by linarith
  have ue: "unat (of_int E :: 'a word) = nat E"
  proof (rule unat_of_int_small)
    have "(2 :: int) ^ exponentBits F \<le> 2 ^ LENGTH('a)" using sb_width(1) by (intro power_increasing) simp_all
    then show "E < 2 ^ LENGTH('a)" using assms(2) unfolding maxExponent_def by linarith
  qed (rule assms(1))
  have "unat (push_bit ?sb (of_int E :: 'a word)) = nat E * 2 ^ ?sb"
    using lt inf_nat_less_full by (subst unat_push_bit_small) (simp_all add: ue)
  then have "unat (R OR push_bit ?sb (of_int E)) = nat E * 2 ^ ?sb + unat S div 8 mod 2 ^ ?sb"
    using unat_or_aligned [of ?sb "push_bit ?sb (of_int E :: 'a word)" R] r by (simp add: or.commute)
  then show "unat ((R OR push_bit ?sb (of_int E)) OR (if s then signBit F else 0)) =
    (if s then 2 ^ (LENGTH('a) - 1) else 0) + (nat E * 2 ^ ?sb + unat S div 8 mod 2 ^ ?sb)"
    using lt2 inf_nat_less by (subst unat_or_sign) simp_all
qed

lemma unat_4: "unat (4 :: 'a word) = 4"
proof -
  have "(2 :: nat) ^ 7 \<le> 2 ^ LENGTH('a)" using exponentBits_ge significandBits_pos by (intro power_increasing) simp_all
  then show ?thesis by (simp add: take_bit_nat_eq_self)
qed

text \<open>The increment for the round, guard and sticky bits rounds the whole pattern to nearest even.\<close>

lemma nearest_result:
  fixes S :: "'a word"
  assumes E: "0 \<le> E" "E < maxExponent F"
    and m: "unat S div 8 = m + unat S div 8 mod 2 ^ significandBits F" "m \<le> nat E * 2 ^ significandBits F" "even m"
    and R: "R = ((drop_bit 3 S AND significandMask F) OR push_bit (significandBits F) (of_int E)) OR (if s then signBit F else 0)"
  shows "(let result = (if S AND 7 > 4 then R + 1 else R) in if S AND 7 = 4 then result + (result AND 1) else result) =
    encode F s (nat E * 2 ^ significandBits F - m + rne_div (unat S) 8)"
proof -
  let ?sb = "significandBits F" and ?r = "unat S" and ?h = "(if s then 2 ^ (LENGTH('a) - 1) else 0) :: nat"
  define b where "b = nat E * 2 ^ ?sb - m"
  have nr: "nat E * 2 ^ ?sb + ?r div 8 mod 2 ^ ?sb = b + ?r div 8" using m(1,2) unfolding b_def by linarith
  have uR: "unat R = ?h + (b + ?r div 8)" and n: "b + ?r div 8 < inf_nat F"
    using unat_sig_fields(1) [OF E refl, of S s] unat_sig_fields(2) [OF E refl, of S] by (simp_all only: R nr)
  have half: "(2 :: nat) ^ LENGTH('a) = 2 * 2 ^ (LENGTH('a) - 1)" by (simp flip: power_Suc)
  have "even ?h" "even b" using exponentBits_ge significandBits_pos m(3) by (auto simp: b_def)
  then have par: "unat R mod 2 = ?r div 8 mod 2" unfolding uR by (auto elim!: evenE)
  have "Suc (unat R) < 2 ^ LENGTH('a)" using n inf_nat_less uR half by (cases s) simp_all
  note inc = unat_increment [OF this]
  have "S AND 7 = S AND mask 3" by (simp add: mask_numeral)
  then have rgs: "unat (S AND 7) = ?r mod 8" by (simp only: unat_and_mask) simp
  have g: "S AND 7 > 4 \<longleftrightarrow> ?r mod 8 > 4" "S AND 7 = 4 \<longleftrightarrow> ?r mod 8 = 4"
    unfolding word_less_nat_alt word_unat_eq_iff rgs unat_4 by (rule refl)+
  have le: "?r div 8 mod 2 \<le> 1" by linarith
  consider "?r mod 8 > 4" | "?r mod 8 = 4" | "?r mod 8 < 4" by linarith
  then show ?thesis
    unfolding b_def [symmetric] Let_def g rne_div_8
    by cases (rule encode_eqI; use uR inc par n le in auto)+
qed

text \<open>The register holds the exact value up to a sticky bit; the result is the rounded value.\<close>

lemma addXf3_round_correct:
  fixes w :: "'a word"
  assumes S: "2 ^ (significandBits F + 3) \<le> unat w" "unat w < 2 ^ (significandBits F + 4)"
    and E: "1 - int (significandBits F) \<le> E"
    and a: "approx j (unat w) (p * 8 * 2 ^ significandBits F) (2 ^ nat (E - 1 + int (significandBits F)))" "j \<le> 2"
  shows "addXf3_round F (if s then signBit F else 0) E w = encode F s (round_ne (significandBits F) p 1)"
proof -
  let ?sb = "significandBits F"
  have sc: "approx j (unat w) (p * 2 ^ 3) (1 * 2 ^ e)" if "E = int e + 1" for e
  proof -
    have "nat (E - 1 + int ?sb) = e + ?sb" using that by simp
    then show ?thesis using a(1) approx_scale [of "2 ^ ?sb" j "unat w" "p * 8" "2 ^ e"] by (simp add: power_add)
  qed
  consider "maxExponent F \<le> E" | "0 < E" "E < maxExponent F" | "E \<le> 0" by linarith
  then show ?thesis
  proof cases
    case 1
    then obtain e where e: "E = int e + 1" using maxExponent_bounds(1) that [of "nat (E - 1)"] by simp
    have "2 ^ exponentBits F - 1 \<le> Suc e" using 1 e maxExponent_bounds(3) by linarith
    then have "inf_nat F \<le> Suc e * 2 ^ ?sb" unfolding inf_nat_def by (intro mult_right_mono) simp_all
    also have "\<dots> \<le> round_ne ?sb p 1" by (rule round_ne_overflow [OF sc [OF e]]) (use a(2) S in simp_all)
    finally show ?thesis using 1 by (simp add: addXf3_round_def inf_or_sign)
  next
    case 2
    then obtain e where e: "E = int e + 1" using that [of "nat (E - 1)"] by simp
    have r: "round_ne ?sb p 1 = e * 2 ^ ?sb + rne_div (unat w) 8"
      using round_ne_register [OF sc [OF e], of ?sb] a(2) S by (simp add: add.commute)
    have "unat w div 8 = 2 ^ ?sb + unat w div 8 mod 2 ^ ?sb"
    proof -
      have "2 ^ ?sb \<le> unat w div 8" "unat w div 8 < 2 * 2 ^ ?sb" using S by (simp_all add: power_add)
      then show ?thesis by (simp add: le_mod_geq)
    qed
    note nr = nearest_result [OF less_imp_le [OF 2(1)] 2(2) this _ _ refl, of s]
    have m: "nat E * 2 ^ ?sb - 2 ^ ?sb = e * 2 ^ ?sb" "2 ^ ?sb \<le> nat E * 2 ^ ?sb" "even ((2 :: nat) ^ ?sb)"
      using e significandBits_pos by (simp_all add: nat_add_distrib)
    have c: "\<not> maxExponent F \<le> E" "\<not> E \<le> 0" using 2 by simp_all
    show ?thesis
      using nr [OF m(2,3)] unfolding r m(1)
      by (simp only: addXf3_round_def fe_getround_def CRT_FE_ROUND_MODE.case c if_False prod.case Let_def)
  next
    case 3
    define t where "t = nat (1 - E)"
    have t: "0 < t" "t \<le> ?sb" "t < LENGTH('a)" using 3 E exponentBits_ge by (simp_all add: t_def)
    define w' where "w' = drop_bit t w OR of_bool (push_bit (LENGTH('a) - t) w \<noteq> 0)"
    have u: "unat w' = stk (unat w) t" unfolding w'_def by (rule unat_sticky_shift [OF t(3)])
    have "nat (E - 1 + int ?sb) + t = ?sb" using 3 E by (simp add: t_def)
    then have q: "2 ^ nat (E - 1 + int ?sb) * 2 ^ t = 1 * (2 :: nat) ^ ?sb" by (simp flip: power_add)
    have "approx 1 (unat w') (p * 8 * 2 ^ ?sb) (1 * 2 ^ ?sb)"
      unfolding u q [symmetric] by (rule approx_sticky_shift [OF a(1)]) (use a(2) t in simp)
    then have ap: "approx 1 (unat w') (p * 2 ^ 3) (1 * 2 ^ 0)" by (subst (asm) approx_scale) simp_all
    have "unat w < 2 ^ (Suc (?sb + 2) + t)" using S(2) t(1)
      by (rule_tac less_le_trans [of _ "2 ^ (?sb + 4)"]) (simp_all only: power_increasing_iff)
    note stk_less [OF this]
    then have lt: "unat w' < 2 ^ (?sb + 3)" unfolding u by (simp add: numeral_3_eq_3)
    have r: "round_ne ?sb p 1 = rne_div (unat w') 8"
      using round_ne_register [OF ap, of ?sb] lt by (simp add: power_add)
    have "unat w' div 8 = 0 + unat w' div 8 mod 2 ^ ?sb" using lt by (simp add: power_add less_mult_imp_div_less)
    note nr = nearest_result [OF _ _ this _ _ refl, of 0 s]
    have c: "\<not> maxExponent F \<le> E" "E \<le> 0" "0 < maxExponent F" using 3 maxExponent_bounds(1) by simp_all
    show ?thesis
      using nr c(3) unfolding r
      by (simp only: addXf3_round_def fe_getround_def CRT_FE_ROUND_MODE.case c if_False if_True prod.case Let_def
          typeWidth_def t_def [symmetric] w'_def [symmetric]) simp
  qed
qed

end

section \<open>Alignment, sum and difference\<close>

text \<open>The registers of the two operands: \<open>A\<close> and \<open>B\<close> the significands, \<open>d\<close> the alignment.\<close>

lemma exponent_le:
  fixes A B ma mb sb :: nat
  assumes "A < 2 ^ Suc sb" "2 ^ sb \<le> B" "1 - int sb \<le> Ea" "1 - int sb \<le> Eb"
    and m: "ma * 2 ^ sb = A * 2 ^ nat (Ea - 1 + int sb)" "mb * 2 ^ sb = B * 2 ^ nat (Eb - 1 + int sb)" "mb \<le> ma"
  shows "Eb \<le> Ea"
proof (rule ccontr)
  assume "\<not> Eb \<le> Ea"
  then obtain k where k: "nat (Eb - 1 + int sb) = Suc (nat (Ea - 1 + int sb) + k)"
    using assms(3,4) that [of "nat (Eb - Ea - 1)"] by simp
  have "ma * 2 ^ sb < 2 ^ Suc sb * 2 ^ nat (Ea - 1 + int sb)" using assms(1) by (simp add: m)
  also have "\<dots> \<le> 2 ^ sb * 2 ^ nat (Eb - 1 + int sb)" unfolding k by (simp add: power_add)
  also have "\<dots> \<le> mb * 2 ^ sb" unfolding m by (rule mult_right_mono [OF assms(2)]) simp
  finally show False using m(3) by simp
qed

lemma aligned_registers:
  fixes A B T ma mb \<beta> d sb :: nat
  assumes A: "2 ^ sb \<le> A" "A < 2 ^ Suc sb" and B: "B < 2 ^ Suc sb"
    and m: "ma * 2 ^ sb = A * 2 ^ (\<beta> + d)" "mb * 2 ^ sb = B * 2 ^ \<beta>" and T: "T = stk (8 * B) d"
  shows "T < 2 ^ (sb + 4)"
    and "approx 1 (8 * A + T) ((ma + mb) * 8 * 2 ^ sb) (2 ^ (\<beta> + d))"
    and "mb \<le> ma \<Longrightarrow> T \<le> 8 * A"
    and "mb \<le> ma \<Longrightarrow> approx 1 (8 * A - T) ((ma - mb) * 8 * 2 ^ sb) (2 ^ (\<beta> + d))"
    and "mb \<le> ma \<Longrightarrow> d \<le> 1 \<Longrightarrow> (8 * A - T) * 2 ^ (\<beta> + d) = (ma - mb) * 8 * 2 ^ sb"
    and "2 \<le> d \<Longrightarrow> 2 ^ (sb + 2) \<le> 8 * A - T"
proof -
  have B8: "8 * B < 2 ^ (sb + 4)" using B by (simp add: power_add)
  have lt: "T < 2 ^ Suc k" if "sb + 4 \<le> Suc k + d" for k
  proof -
    have "8 * B < 2 ^ (Suc k + d)" by (rule less_le_trans [OF B8]) (use that in \<open>simp only: power_increasing_iff\<close>; simp)
    then show ?thesis unfolding T by (rule stk_less)
  qed
  show "T < 2 ^ (sb + 4)" using lt [of "sb + 3"] by (simp add: eval_nat_numeral)
  have ap: "approx 1 T (8 * B) (2 ^ d)" unfolding T by (rule approx_stk)
  have sum: "(8 * A * 2 ^ d + 8 * B) * 2 ^ \<beta> = (ma + mb) * 8 * 2 ^ sb"
    and dif: "(8 * A * 2 ^ d - 8 * B) * 2 ^ \<beta> = (ma - mb) * 8 * 2 ^ sb"
    using m by (simp_all add: power_add algebra_simps diff_mult_distrib diff_mult_distrib2)
  have q: "2 ^ d * 2 ^ \<beta> = (2 :: nat) ^ (\<beta> + d)" by (simp add: power_add)
  have e: "2 ^ 1 dvd 8 * A" by simp
  show "approx 1 (8 * A + T) ((ma + mb) * 8 * 2 ^ sb) (2 ^ (\<beta> + d))"
    using approx_plus [OF ap e] unfolding sum [symmetric] q [symmetric] by (subst approx_scale) simp_all
  show small: "2 ^ (sb + 2) \<le> 8 * A - T" if "2 \<le> d"
    using lt [of "sb + 1"] that A(1) by (simp add: eval_nat_numeral)
  have ord: "8 * B \<le> 8 * A * 2 ^ d" if "mb \<le> ma"
  proof -
    have "B * 2 ^ \<beta> \<le> A * 2 ^ d * 2 ^ \<beta>" using m that mult_right_mono [OF that, of "2 ^ sb"] by (simp add: power_add algebra_simps)
    then show ?thesis by simp
  qed
  have ex: "T * 2 ^ d = 8 * B" if "d \<le> 1"
  proof -
    have "d = 0 \<or> d = 1" using that by auto
    then show ?thesis by (auto simp: T stk_def)
  qed
  show le: "T \<le> 8 * A" if "mb \<le> ma"
  proof (cases "d \<le> 1")
    case True
    then have "T * 2 ^ d \<le> 8 * A * 2 ^ d" using ord [OF that] ex by simp
    then show ?thesis by simp
  next
    case False
    then show ?thesis using small by (cases "T \<le> 8 * A") simp_all
  qed
  show "approx 1 (8 * A - T) ((ma - mb) * 8 * 2 ^ sb) (2 ^ (\<beta> + d))" if "mb \<le> ma"
    using approx_minus(2) [OF ap e le [OF that]] unfolding dif [symmetric] q [symmetric] by (subst approx_scale) simp_all
  show "(8 * A - T) * 2 ^ (\<beta> + d) = (ma - mb) * 8 * 2 ^ sb" if "mb \<le> ma" "d \<le> 1"
    unfolding dif [symmetric] q [symmetric] by (simp add: diff_mult_distrib ex [OF that(2)] flip: mult.assoc)
qed

context fp_format begin

lemma unat_implicit_shift: "k \<le> 4 \<Longrightarrow> unat (push_bit k (implicitBit F)) = 2 ^ (significandBits F + k)"
proof -
  assume "k \<le> 4"
  then have "(2 :: nat) ^ (significandBits F + k) < 2 ^ LENGTH('a)"
    using exponentBits_ge by (intro power_strict_increasing) simp_all
  then show ?thesis using unat_implicitBit by (subst unat_push_bit_small) (simp_all add: power_add)
qed

lemma addXf3_sum_branch:
  fixes w :: "'a word"
  assumes S: "2 ^ (significandBits F + 3) \<le> unat w" "unat w < 2 ^ (significandBits F + 5)"
    and E: "1 - int (significandBits F) \<le> E"
    and a: "approx 1 (unat w) (p * 8 * 2 ^ significandBits F) (2 ^ nat (E - 1 + int (significandBits F)))"
  shows "(if w AND push_bit 4 (implicitBit F) \<noteq> 0 then
      addXf3_round F (if s then signBit F else 0) (E + 1) (drop_bit 1 w OR of_bool (w AND 1 \<noteq> 0))
    else addXf3_round F (if s then signBit F else 0) E w) = encode F s (round_ne (significandBits F) p 1)"
proof -
  let ?sb = "significandBits F"
  have "w AND push_bit 4 (implicitBit F) \<noteq> 0 \<longleftrightarrow> odd (unat w div 2 ^ (?sb + 4))"
    using and_field_eq_0 [of "push_bit 4 (implicitBit F)" "?sb + 4" 1 w] by (simp add: unat_implicit_shift odd_iff_mod_2_eq_one)
  also have "\<dots> \<longleftrightarrow> 2 ^ (?sb + 4) \<le> unat w"
  proof -
    have "unat w div 2 ^ (?sb + 4) < 2" using S(2) by (simp add: power_add less_mult_imp_div_less)
    then have "odd (unat w div 2 ^ (?sb + 4)) \<longleftrightarrow> 0 < unat w div 2 ^ (?sb + 4)" by (auto simp: less_2_cases_iff)
    then show ?thesis by (simp add: div_greater_zero_iff)
  qed
  finally have c: "w AND push_bit 4 (implicitBit F) \<noteq> 0 \<longleftrightarrow> 2 ^ (?sb + 4) \<le> unat w" .
  show ?thesis
  proof (cases "2 ^ (?sb + 4) \<le> unat w")
    case True
    have "w AND 1 \<noteq> 0 \<longleftrightarrow> unat w mod 2 ^ 1 \<noteq> 0" using and_field_eq_0 [of "1 :: 'a word" 0 1 w] by simp
    then have u: "unat (drop_bit 1 w OR of_bool (w AND 1 \<noteq> 0)) = stk (unat w) 1"
      by (simp only: unat_or_of_bool stk_def unat_drop_bit_div)
    have n: "nat (E + 1 - 1 + int ?sb) = nat (E - 1 + int ?sb) + 1" using E by simp
    have lo: "2 ^ (?sb + 3) \<le> stk (unat w) 1" using True by (auto simp: stk_def power_add)
    have "stk (unat w) 1 < 2 ^ Suc (?sb + 3)" by (rule stk_less) (use S(2) in \<open>simp add: power_add\<close>)
    then have hi: "stk (unat w) 1 < 2 ^ (?sb + 4)" by (simp add: power_add)
    have ap: "approx 1 (stk (unat w) 1) (p * 8 * 2 ^ ?sb) (2 ^ nat (E + 1 - 1 + int ?sb))"
      unfolding n power_add by (rule approx_sticky_shift [OF a]) simp
    have "1 - int ?sb \<le> E + 1" using E by simp
    note addXf3_round_correct [OF lo [folded u] hi [folded u] this ap [folded u] one_le_numeral, of s]
    then show ?thesis using True by (simp only: c if_True)
  next
    case False
    then show ?thesis unfolding c using addXf3_round_correct [OF S(1) _ E a] by simp
  qed
qed

lemma addXf3_diff_branch:
  fixes w :: "'a word"
  assumes S: "unat w < 2 ^ (significandBits F + 4)" and p: "0 < p"
    and E: "1 - int (significandBits F) \<le> E"
    and a: "approx 1 (unat w) (p * 8 * 2 ^ significandBits F) (2 ^ nat (E - 1 + int (significandBits F)))"
    and x: "2 ^ (significandBits F + 2) \<le> unat w \<or>
      unat w * 2 ^ nat (E - 1 + int (significandBits F)) = p * 8 * 2 ^ significandBits F"
  shows "(if w < push_bit 3 (implicitBit F) then
      let shift = rep_clz F w - rep_clz F (push_bit 3 (implicitBit F))
      in addXf3_round F (if s then signBit F else 0) (E - shift) (push_bit (nat shift) w)
    else addXf3_round F (if s then signBit F else 0) E w) = encode F s (round_ne (significandBits F) p 1)"
proof -
  let ?sb = "significandBits F"
  define \<alpha> where "\<alpha> = nat (E - 1 + int ?sb)"
  have i: "unat (push_bit 3 (implicitBit F)) = 2 ^ (?sb + 3)" by (rule unat_implicit_shift) simp
  show ?thesis
  proof (cases "unat w < 2 ^ (?sb + 3)")
    case False
    then show ?thesis
      using addXf3_round_correct [OF _ S E a] by (simp only: word_less_nat_alt i if_False not_less) simp
  next
    case True
    have "unat w \<noteq> 0" using approxD(3) [OF a, of 0] p by simp
    then have w0: "w \<noteq> 0" by auto
    define k where "k = nbits (unat w)"
    have "k \<noteq> 0" using \<open>unat w \<noteq> 0\<close> by (simp only: k_def nbits_eq_0 not_False_eq_True)
    then have k: "0 < k" "k \<le> ?sb + 3" "unat w < 2 ^ k"
      using True nbits_le_iff [of "unat w" k] nbits_le_iff [of "unat w" "?sb + 3"] unfolding k_def by (simp_all del: nbits_eq_0)
    define t where "t = ?sb + 4 - k"
    have i0: "push_bit 3 (implicitBit F) \<noteq> 0" using i by auto
    have sh: "rep_clz F w - rep_clz F (push_bit 3 (implicitBit F)) = int t"
      using rep_clz [OF w0] rep_clz [OF i0] k exponentBits_ge by (simp add: builtin_clz_def i t_def k_def of_nat_diff)
    have "2 ^ (?sb + 3) \<le> p * 8 * 2 ^ ?sb" using p by (simp add: power_add)
    also have "\<dots> < 2 ^ k * 2 ^ \<alpha>" using approx_le [OF a, of k 1] k unfolding \<alpha>_def by simp
    finally have "(2 :: nat) ^ (?sb + 3) < 2 ^ (k + \<alpha>)" by (simp only: power_add)
    then have "?sb + 3 < k + \<alpha>" by (simp only: power_strict_increasing_iff)
    then have t: "t \<le> \<alpha>" "1 - int ?sb \<le> E - int t" "nat (E - int t - 1 + int ?sb) = \<alpha> - t" "\<alpha> = \<alpha> - t + t"
      using k E by (auto simp: t_def \<alpha>_def)
    have n: "nbits (unat w * 2 ^ t) = ?sb + 4" using \<open>unat w \<noteq> 0\<close> k by (simp add: nbits_mult_exp t_def k_def [symmetric])
    have lo: "2 ^ (?sb + 3) \<le> unat w * 2 ^ t" and hi: "unat w * 2 ^ t < 2 ^ (?sb + 4)"
      using n nbits_le_iff [of "unat w * 2 ^ t" "?sb + 3"] nbits_le_iff [of "unat w * 2 ^ t" "?sb + 4"] by simp_all
    have u: "unat (push_bit t w) = unat w * 2 ^ t"
      by (rule unat_push_bit_small, rule less_trans [OF hi], rule power_strict_increasing) (use exponentBits_ge in simp_all)
    obtain j where ap: "approx j (unat w * 2 ^ t) (p * 8 * 2 ^ ?sb) (2 ^ nat (E - int t - 1 + int ?sb))" "j \<le> 2"
    proof (cases "2 ^ (?sb + 2) \<le> unat w")
      case True
      then have "?sb + 2 < k" using nbits_le_iff [of "unat w" "?sb + 2"] by (simp add: k_def)
      then have "t \<le> 1" by (simp add: t_def)
      moreover have "approx (1 + t) (unat w * 2 ^ t) (p * 8 * 2 ^ ?sb * 2 ^ t) (2 ^ (\<alpha> - t) * 2 ^ t)"
        using approx_shift [OF a, of t] t(4) by (simp add: \<alpha>_def flip: power_add)
      ultimately show ?thesis using that [of "1 + t"] by (subst (asm) approx_scale) (simp_all add: t(3))
    next
      case False
      then have "unat w * 2 ^ t * 2 ^ (\<alpha> - t) = p * 8 * 2 ^ ?sb"
        using x t(4) by (simp add: \<alpha>_def mult.assoc flip: power_add)
      then show ?thesis using approx_exact [of "2 ^ (\<alpha> - t)" 0 "unat w * 2 ^ t"] that [of 0] by (simp add: t(3))
    qed
    show ?thesis
      using addXf3_round_correct [OF lo [folded u] hi [folded u] t(2) ap(1) [folded u] ap(2), of s] True
      by (simp only: word_less_nat_alt i if_True Let_def sh nat_int)
  qed
qed

lemma unat_aligned:
  fixes w :: "'a word" and align :: "32 word"
  assumes "0 < unat w" "unat w < 2 ^ (significandBits F + 4)"
  shows "unat (if align \<noteq> 0 then
      if unat align < typeWidth F then
        drop_bit (unat align) w OR of_bool (push_bit (typeWidth F - unat align) w \<noteq> 0)
      else 1
    else w) = stk (unat w) (unat align)"
proof -
  have "stk (unat w) (unat align) = 1" if "LENGTH('a) \<le> unat align"
  proof -
    have "unat w < 2 ^ unat align"
      by (rule less_le_trans [OF assms(2)], rule power_increasing) (use that exponentBits_ge in simp_all)
    then show ?thesis using assms(1) by (simp add: stk_def)
  qed
  then show ?thesis using unat_sticky_shift [of "unat align" w] by (simp add: typeWidth_def)
qed

lemma unat_significand3:
  "unat (S OR implicitBit F) < 2 ^ Suc (significandBits F) \<Longrightarrow>
    unat (push_bit 3 (S OR implicitBit F)) = 8 * unat (S OR implicitBit F)"
proof -
  assume "unat (S OR implicitBit F) < 2 ^ Suc (significandBits F)"
  then have "unat (S OR implicitBit F) * 2 ^ 3 < 2 ^ (significandBits F + 4)" by (simp add: power_add)
  also have "\<dots> < 2 ^ LENGTH('a)" by (rule power_strict_increasing) (use exponentBits_ge in simp_all)
  finally show ?thesis by (subst unat_push_bit_small) simp_all
qed

lemma sign_test: "(if c then signBit F else 0) \<noteq> 0 \<longleftrightarrow> c"
  by (simp add: signBit_nonzero)

lemma addXf3_aligned_correct:
  assumes fin: "is_finite F a" "is_finite F b" and nz: "absr a \<noteq> 0" "absr b \<noteq> 0" and le: "absr b \<le> absr a"
  defines "ma \<equiv> mag (significandBits F) (absr a)" and "mb \<equiv> mag (significandBits F) (absr b)"
  shows "addXf3_aligned F a b =
    (if negative a = negative b then encode F (negative a) (round_ne (significandBits F) (ma + mb) 1)
     else if ma = mb then 0 else encode F (negative a) (round_ne (significandBits F) (ma - mb) 1))"
proof -
  let ?sb = "significandBits F"
  define Ea0 where "Ea0 = int (unat (drop_bit ?sb a AND of_int (maxExponent F)))"
  define Eb0 where "Eb0 = int (unat (drop_bit ?sb b AND of_int (maxExponent F)))"
  obtain SA Ea where A: "(SA, Ea) = (if Ea0 = 0 then normalize F (a AND significandMask F) else (a AND significandMask F, Ea0))"
    by (metis surj_pair)
  obtain SB Eb where B: "(SB, Eb) = (if Eb0 = 0 then normalize F (b AND significandMask F) else (b AND significandMask F, Eb0))"
    by (metis surj_pair)
  note ua = unpack [OF fin(1) nz(1) Ea0_def A] and ub = unpack [OF fin(2) nz(2) Eb0_def B]
  define wa wb where "wa = push_bit 3 (SA OR implicitBit F)" and "wb = push_bit 3 (SB OR implicitBit F)"
  define align where "align = (of_int (Ea - Eb) :: 32 word)"
  define wt where "wt = (if align \<noteq> 0 then
      if unat align < typeWidth F then
        drop_bit (unat align) wb OR of_bool (push_bit (typeWidth F - unat align) wb \<noteq> 0)
      else 1
    else wb)"
  have mab: "mb \<le> ma" using le unfolding ma_def mb_def by simp
  have "Eb \<le> Ea" by (rule exponent_le [OF ua(2) ub(1) ua(3) ub(3) ua(5) ub(5)]) (use mab in \<open>simp add: ma_def mb_def\<close>)
  moreover have "Ea - Eb < 2 ^ 17" using ua(4) ub(3) maxExponent_bounds(2) width_le exponentBits_ge by simp
  ultimately have "unat align = nat (Ea - Eb)" unfolding align_def by (intro unat_of_int_small) simp_all
  then have d: "unat align = nat (Ea - Eb)" "nat (Ea - 1 + int ?sb) = nat (Eb - 1 + int ?sb) + unat align"
    using ub(3) \<open>Eb \<le> Ea\<close> by simp_all
  have w: "unat wa = 8 * unat (SA OR implicitBit F)" "unat wb = 8 * unat (SB OR implicitBit F)"
    unfolding wa_def wb_def by (rule unat_significand3 [OF ua(2)] unat_significand3 [OF ub(2)])+
  have wt: "unat wt = stk (8 * unat (SB OR implicitBit F)) (unat align)"
    unfolding wt_def w(2) [symmetric] by (rule unat_aligned) (use ub(1,2) in \<open>simp_all add: w power_add\<close>)
  note r = aligned_registers [OF ua(1,2) ub(2) ua(5) [unfolded d(2)] ub(5) wt, folded w(1) d(2) ma_def mb_def]
  let ?s = "if negative a then signBit F else 0"
  have e: "addXf3_aligned F a b =
    (if negative a \<noteq> negative b then
       if wa - wt = 0 then 0
       else if wa - wt < push_bit 3 (implicitBit F) then
         let shift = rep_clz F (wa - wt) - rep_clz F (push_bit 3 (implicitBit F))
         in addXf3_round F ?s (Ea - shift) (push_bit (nat shift) (wa - wt))
       else addXf3_round F ?s Ea (wa - wt)
     else if (wa + wt) AND push_bit 4 (implicitBit F) \<noteq> 0 then
       addXf3_round F ?s (Ea + 1) (drop_bit 1 (wa + wt) OR of_bool ((wa + wt) AND 1 \<noteq> 0))
     else addXf3_round F ?s Ea (wa + wt))"
    unfolding addXf3_aligned_def Let_def Ea0_def [symmetric] Eb0_def [symmetric] A [symmetric] B [symmetric] prod.case
      wa_def [symmetric] wb_def [symmetric] align_def [symmetric] wt_def [symmetric] and_signBit negative_xor sign_test
    by (rule refl)
  show ?thesis
  proof (cases "negative a = negative b")
    case True
    have S: "2 ^ (?sb + 3) \<le> unat wa" "unat wa + unat wt < 2 ^ (?sb + 5)" using ua(1,2) r(1) by (simp_all add: w power_add)
    have u: "unat (wa + wt) = unat wa + unat wt"
      by (rule unat_add_small, rule less_le_trans [OF S(2)], rule power_increasing) (use exponentBits_ge in simp_all)
    show ?thesis
      using addXf3_sum_branch [OF _ _ ua(3) r(2) [folded u], of "negative a"] True S u by (simp only: e) simp
  next
    case False
    have u: "unat (wa - wt) = unat wa - unat wt" using r(3) [OF mab] by (simp add: unat_sub word_le_nat_alt)
    have hi: "unat (wa - wt) < 2 ^ (?sb + 4)" using ua(2) by (simp add: u w power_add)
    note ap = r(4) [OF mab, folded u]
    have z: "wa - wt = 0 \<longleftrightarrow> ma = mb" using approxD(3) [OF ap, of 0] mab by (auto simp: word_unat_eq_iff)
    have x: "2 ^ (?sb + 2) \<le> unat (wa - wt) \<or> unat (wa - wt) * 2 ^ nat (Ea - 1 + int ?sb) = (ma - mb) * 8 * 2 ^ ?sb"
      using r(5) [OF mab] r(6) unfolding u by linarith
    show ?thesis
      using addXf3_diff_branch [OF hi _ ua(3) ap x, of "negative a"] False mab by (simp only: e z) simp
  qed
qed

lemma unat_sign_abs: "unat x = (if negative x then 2 ^ (LENGTH('a) - 1) else 0) + absr x"
  for x :: "'a word"
proof -
  have top: "n < LENGTH('a) - Suc 0 \<longleftrightarrow> n \<noteq> LENGTH('a) - Suc 0" if "n < LENGTH('a)" for n using that by linarith
  have "x = (x AND absMask F) OR (if negative x then signBit F else 0)"
    by (rule bit_word_eqI) (auto simp: absMask_mask signBit_eq negative_def bit_simps top)
  moreover have "absr x < 2 ^ (LENGTH('a) - 1)" by (simp add: absr_def)
  ultimately show ?thesis
    using unat_or_sign [of "x AND absMask F" "negative x"] by (simp only: unat_and_absMask)
qed

lemma rep_eq_iff: "x = y \<longleftrightarrow> negative x = negative y \<and> absr x = absr y"
  for x y :: "'a word"
  by (metis unat_sign_abs word_unat_eq_iff)

lemma encode_finite: "is_finite F x \<Longrightarrow> encode F (negative x) (absr x) = x"
  for x :: "'a word"
  by (rule encode_eqI [symmetric, OF unat_sign_abs]) (simp add: is_finite_def)

text \<open>Flipping the sign bit.\<close>

lemma flip_sign: "absr (b XOR signBit F) = absr b" "negative (b XOR signBit F) \<longleftrightarrow> \<not> negative b"
proof -
  have "(b XOR signBit F) AND absMask F = b AND absMask F"
    by (rule bit_word_eqI) (auto simp: absMask_mask signBit_eq bit_simps)
  then show "absr (b XOR signBit F) = absr b" by (metis unat_and_absMask)
  show "negative (b XOR signBit F) \<longleftrightarrow> \<not> negative b" by (simp add: negative_xor) (simp add: negative_def signBit_eq bit_simps)
qed

lemma round_ne_exact: "round_ne (significandBits F) (mag (significandBits F) n) 1 = n"
  using round_ne_nearest [of 1 "significandBits F" "mag (significandBits F) n" n] significandBits_pos by simp

lemma encode_0: "encode F False 0 = 0"
  by (simp add: encode_def)

lemma addXf3_core_correct:
  assumes fin: "is_finite F a" "is_finite F b" and nz: "absr a \<noteq> 0" "absr b \<noteq> 0"
  defines "v \<equiv> fval F a + fval F b"
  shows "addXf3_core F a b =
    (if v = 0 then 0 else encode F (v < 0) (round_ne (significandBits F) (nat \<bar>v\<bar>) 1))"
proof -
  have p: "0 < mag (significandBits F) (absr a)" "0 < mag (significandBits F) (absr b)"
    using nz mag_less_iff [of "significandBits F" 0] by (simp_all add: mag_def)
  have n: "nat (int x - int y) = x - y" "nat (2 * int x) = x + x" for x y by simp_all
  show ?thesis
  proof (cases "absr a < absr b")
    case True
    then have "addXf3_core F a b = addXf3_aligned F b a" by (simp add: addXf3_core_def rep_tests)
    then show ?thesis
      using addXf3_aligned_correct [OF fin(2,1) nz(2,1)] p True
      by (auto simp: v_def fval_def nat_add_distrib n add.commute)
  next
    case False
    then have "addXf3_core F a b = addXf3_aligned F a b" by (simp add: addXf3_core_def rep_tests)
    then show ?thesis
      using addXf3_aligned_correct [OF fin nz] p False
      by (auto simp: v_def fval_def nat_add_distrib n add.commute)
  qed
qed

lemma xor_signBit_iff:
  "is_inf F a \<Longrightarrow> a XOR b = signBit F \<longleftrightarrow> is_inf F b \<and> negative a \<noteq> negative b"
  for a b :: "'a word"
proof -
  assume "is_inf F a"
  moreover have "b XOR (b XOR x) = x" for x by (simp flip: xor.assoc)
  then have "a XOR b = signBit F \<longleftrightarrow> a = b XOR signBit F" by (metis xor.commute)
  ultimately show ?thesis by (auto simp: rep_eq_iff flip_sign is_inf_def)
qed

lemma fval_eq_0: "fval F x = 0 \<longleftrightarrow> absr x = 0"
  using mag_eq_iff [of "significandBits F" "absr x" 0] by (simp add: fval_def mag_def)

lemma encode_fval:
  assumes "is_finite F x" "absr x \<noteq> 0"
  shows "encode F (fval F x < 0) (round_ne (significandBits F) (nat \<bar>fval F x\<bar>) 1) = x"
proof -
  have "nat \<bar>fval F x\<bar> = mag (significandBits F) (absr x)" by (simp add: fval_def)
  moreover have "fval F x < 0 \<longleftrightarrow> negative x" using assms(2) fval_eq_0 [of x] by (auto simp: fval_def)
  ultimately show ?thesis by (simp only: round_ne_exact encode_finite [OF assms(1)])
qed

lemma zero_and_zero:
  fixes a b :: "'a word"
  assumes "absr a = 0" "absr b = 0"
  shows "a AND b = encode F (negative a \<and> negative b) 0"
proof -
  have "(a AND b) AND absMask F = (a AND absMask F) AND b" by (simp only: ac_simps and.commute)
  then have "absr (a AND b) = 0" using assms(1) rep_tests(3) [of a] rep_tests(3) [of "a AND b"] by simp
  moreover have "negative (a AND b) \<longleftrightarrow> negative a \<and> negative b" by (simp add: negative_def bit_simps)
  ultimately show ?thesis using unat_sign_abs [of "a AND b"] by (intro encode_eqI) simp_all
qed

theorem addXf3_correct: "addXf3 F a b = ieee_add F a b"
proof (cases "is_finite F a \<and> is_finite F b")
  case False
  then have "is_nan F a \<or> is_inf F a \<or> is_nan F b \<or> is_inf F b" by (auto simp: is_finite_def is_nan_def is_inf_def)
  moreover have "inf_nat F \<le> absr x \<longleftrightarrow> is_nan F x \<or> is_inf F x" for x :: "'a word"
    by (auto simp: is_nan_def is_inf_def)
  ultimately show ?thesis
    using xor_signBit_iff [of a b] unfolding addXf3_def ieee_add_def Let_def special_test rep_tests by auto
next
  case True
  then have c: "\<not> is_nan F a" "\<not> is_nan F b" "\<not> is_inf F a" "\<not> is_inf F b"
    "inf_nat F \<le> absr a \<longleftrightarrow> False" "inf_nat F \<le> absr b \<longleftrightarrow> False"
    by (auto simp: is_finite_def is_nan_def is_inf_def)
  consider "absr a = 0" "absr b = 0" | "absr a = 0" "absr b \<noteq> 0" | "absr a \<noteq> 0" "absr b = 0" | "absr a \<noteq> 0" "absr b \<noteq> 0"
    by blast
  moreover have "encode F (negative a \<and> negative b) 0 = 0" if "fval F a + fval F b = 0" "absr a \<noteq> 0"
    using that fval_eq_0 [of a] encode_0 by (auto simp: fval_def split: if_splits)
  ultimately show ?thesis
    unfolding addXf3_def ieee_add_def Let_def special_test rep_tests
    using True addXf3_core_correct [of a b] encode_fval [of a] encode_fval [of b] zero_and_zero [of a b]
    by cases (simp_all add: c fval_eq_0 fval_eq_0 [THEN iffD2] encode_0)
qed

text \<open>Subtraction of finite values is the sum with the sign of the second operand flipped.\<close>

lemma addXf3_flip_sign:
  assumes "is_finite F a" "is_finite F b" "fval F a \<noteq> fval F b"
  shows "addXf3 F a (b XOR signBit F) =
    encode F (fval F a < fval F b) (round_ne (significandBits F) (nat \<bar>fval F a - fval F b\<bar>) 1)"
proof -
  have "fval F (b XOR signBit F) = - fval F b" by (simp add: fval_def flip_sign)
  moreover have "\<not> is_nan F a" "\<not> is_inf F a" "\<not> is_nan F (b XOR signBit F)" "\<not> is_inf F (b XOR signBit F)"
    using assms by (auto simp: is_finite_def is_nan_def is_inf_def flip_sign)
  ultimately show ?thesis using assms(3) by (simp add: addXf3_correct ieee_add_def Let_def)
qed

end

text \<open>The routines of the three formats.\<close>

lemma add_correct:
  "addsf3 a b = ieee_add single_precision a b"
  "adddf3 c d = ieee_add double_precision c d"
  "addtf3 e f = ieee_add quad_precision e f"
  by (simp_all add: addsf3_def adddf3_def addtf3_def sf.addXf3_correct df.addXf3_correct tf.addXf3_correct)

lemma sub_correct:
  "is_finite single_precision a \<Longrightarrow> is_finite single_precision b \<Longrightarrow>
    fval single_precision a \<noteq> fval single_precision b \<Longrightarrow>
    subsf3 a b = encode single_precision (fval single_precision a < fval single_precision b)
      (round_ne 23 (nat \<bar>fval single_precision a - fval single_precision b\<bar>) 1)"
  "is_finite double_precision c \<Longrightarrow> is_finite double_precision d \<Longrightarrow>
    fval double_precision c \<noteq> fval double_precision d \<Longrightarrow>
    subdf3 c d = encode double_precision (fval double_precision c < fval double_precision d)
      (round_ne 52 (nat \<bar>fval double_precision c - fval double_precision d\<bar>) 1)"
  "is_finite quad_precision e \<Longrightarrow> is_finite quad_precision f \<Longrightarrow>
    fval quad_precision e \<noteq> fval quad_precision f \<Longrightarrow>
    subtf3 e f = encode quad_precision (fval quad_precision e < fval quad_precision f)
      (round_ne 112 (nat \<bar>fval quad_precision e - fval quad_precision f\<bar>) 1)"
  using sf.addXf3_flip_sign [of a b] df.addXf3_flip_sign [of c d] tf.addXf3_flip_sign [of e f]
  by (simp_all add: subsf3_def subdf3_def subtf3_def addsf3_def adddf3_def addtf3_def
      single_precision_def double_precision_def quad_precision_def)

end
