(* ===== verification/FP_Float.thy ===== *)
theory FP_Float
  imports FP_Add Int_Arith
begin

text \<open>
  Conversions from integers: \<open>float{,un}{si,di,ti}{sf,df,tf}.c\<close>. The files come in two families.
  The first shifts the significand into place, with a rounding step where the integer is wider than
  the significand; the second keeps two extra bits (\<open>Q\<close> and \<open>R\<close>), rounds on them and
  renormalises. Both are proved equal to \<open>ieee_of_int\<close>, one rounding of the exact value. The
  variants of \<open>floatdidf.c\<close> and \<open>floatundidf.c\<close> for hardware floating point are not modelled.
\<close>

section \<open>The code\<close>

text \<open>The conversion of a nonzero magnitude, without and with the rounding of a right shift.\<close>

definition float_shift :: "'r::len word fp_lib \<Rightarrow> 's::len word \<Rightarrow> 'r word" where
  "float_shift F a =
    (let aWidth = int LENGTH('s);
         exponent = (aWidth - 1) - int (builtin_clz a);
         shift = int (significandBits F) - exponent;
         result = push_bit (nat shift) (ucast a) XOR implicitBit F
     in result + push_bit (significandBits F) (of_int (exponent + exponentBias F)))"

definition float_shift_round :: "'r::len word fp_lib \<Rightarrow> 's::len word \<Rightarrow> 'r word" where
  "float_shift_round F a =
    (let aWidth = int LENGTH('s);
         exponent = (aWidth - 1) - int (builtin_clz a);
         result =
           (if exponent \<le> int (significandBits F) then
              let shift = int (significandBits F) - exponent
              in push_bit (nat shift) (ucast a) XOR implicitBit F
            else
              let shift = exponent - int (significandBits F);
                  result = drop_bit (nat shift) (ucast a) XOR implicitBit F;
                  round = push_bit (typeWidth F - nat shift) (ucast a);
                  result = (if round > signBit F then result + 1 else result)
              in if round = signBit F then result + (result AND 1) else result)
     in result + push_bit (significandBits F) (of_int (exponent + exponentBias F)))"

definition floatsisf :: "si_int \<Rightarrow> 32 word" where
  "floatsisf a =
    (if a = 0 then 0
     else let (sign, a) = (if a <s 0 then (signBit single_precision, - a) else (0, a))
          in float_shift_round single_precision a OR sign)"

definition floatunsisf :: "su_int \<Rightarrow> 32 word" where
  "floatunsisf a = (if a = 0 then 0 else float_shift_round single_precision a)"

definition floatsidf :: "si_int \<Rightarrow> 64 word" where
  "floatsidf a =
    (if a = 0 then 0
     else let (sign, a) = (if a <s 0 then (signBit double_precision, - a) else (0, a))
          in float_shift double_precision a OR sign)"

definition floatunsidf :: "su_int \<Rightarrow> 64 word" where
  "floatunsidf a = (if a = 0 then 0 else float_shift double_precision a)"

definition floatsitf :: "si_int \<Rightarrow> 128 word" where
  "floatsitf a =
    (if a = 0 then 0
     else let (sign, aAbs) = (if a <s 0 then (signBit quad_precision, NOT a + 1) else (0, a))
          in float_shift quad_precision aAbs OR sign)"

definition floatunsitf :: "su_int \<Rightarrow> 128 word" where
  "floatunsitf a = (if a = 0 then 0 else float_shift quad_precision a)"

definition floatditf :: "di_int \<Rightarrow> 128 word" where
  "floatditf a =
    (if a = 0 then 0
     else let (sign, aAbs) = (if a <s 0 then (signBit quad_precision, NOT a + 1) else (0, a))
          in float_shift quad_precision aAbs OR sign)"

definition floatunditf :: "du_int \<Rightarrow> 128 word" where
  "floatunditf a = (if a = 0 then 0 else float_shift quad_precision a)"

text \<open>
  The second family: \<open>sd\<close> is the number of significant digits and \<open>shr\<close> the right shift of the
  type of \<open>a\<close>. The result is the rounded significand and the exponent.
\<close>

definition float_round :: "(nat \<Rightarrow> 'a word \<Rightarrow> 'a::len word) \<Rightarrow> nat \<Rightarrow> nat \<Rightarrow> 'a word \<Rightarrow> 'a word \<times> int" where
  "float_round shr MANT_DIG sd a =
    (let N = LENGTH('a);
         e = int sd - 1
     in if sd > MANT_DIG then
          let a = (if sd = MANT_DIG + 1 then push_bit 1 a
                   else if sd = MANT_DIG + 2 then a
                   else drop_bit (sd - (MANT_DIG + 2)) a OR
                        of_bool (a AND drop_bit ((N + MANT_DIG + 2) - sd) (- 1) \<noteq> 0));
              a = a OR of_bool (a AND 4 \<noteq> 0);
              a = a + 1;
              a = shr 2 a
          in if a AND push_bit MANT_DIG 1 \<noteq> 0 then (shr 1 a, e + 1) else (a, e)
        else (push_bit (MANT_DIG - sd) a, e))"

definition FLT_MANT_DIG :: nat where "FLT_MANT_DIG = 24"
definition DBL_MANT_DIG :: nat where "DBL_MANT_DIG = 53"
definition LDBL_MANT_DIG :: nat where "LDBL_MANT_DIG = 113"

text \<open>The assembly of the three formats from sign mask, exponent and significand.\<close>

definition float_bits :: "(nat \<Rightarrow> 'a word \<Rightarrow> 'a::len word) \<Rightarrow> 'a word \<Rightarrow> 'a word \<times> int \<Rightarrow> 32 word" where
  "float_bits shr s = (\<lambda>(a, e).
    ((ucast s AND 0x80000000) OR push_bit 23 (of_int (e + 127))) OR (ucast a AND 0x007FFFFF))"

definition double_bits :: "(nat \<Rightarrow> 'a word \<Rightarrow> 'a::len word) \<Rightarrow> 'a word \<Rightarrow> 'a word \<times> int \<Rightarrow> 64 word" where
  "double_bits shr s = (\<lambda>(a, e).
    all \<lparr>low = ucast a :: su_int,
         high = ((ucast s AND 0x80000000) OR push_bit 20 (of_int (e + 1023))) OR (ucast (shr 32 a) AND 0x000FFFFF)\<rparr>)"

definition long_double_bits :: "(nat \<Rightarrow> 'a word \<Rightarrow> 'a::len word) \<Rightarrow> 'a word \<Rightarrow> 'a word \<times> int \<Rightarrow> 128 word" where
  "long_double_bits shr s = (\<lambda>(a, e).
    all \<lparr>low = ucast a :: du_int,
         high = ((ucast s AND 0x8000000000000000) OR push_bit 48 (of_int (e + 16383))) OR
           (ucast (shr 64 a) AND 0x0000ffffffffffff)\<rparr>)"

definition floatdisf :: "di_int \<Rightarrow> 32 word" where
  "floatdisf a =
    (if a = 0 then 0
     else let N = 64; s = signed_drop_bit (N - 1) a; a = (a XOR s) - s; sd = N - builtin_clz a
          in float_bits signed_drop_bit s (float_round signed_drop_bit FLT_MANT_DIG sd a))"

definition floatundisf :: "du_int \<Rightarrow> 32 word" where
  "floatundisf a =
    (if a = 0 then 0
     else let N = 64; sd = N - builtin_clz a
          in float_bits drop_bit 0 (float_round drop_bit FLT_MANT_DIG sd a))"

definition floatdidf :: "di_int \<Rightarrow> 64 word" where
  "floatdidf a =
    (if a = 0 then 0
     else let N = 64; s = signed_drop_bit (N - 1) a; a = (a XOR s) - s; sd = N - builtin_clz a
          in double_bits signed_drop_bit s (float_round signed_drop_bit DBL_MANT_DIG sd a))"

definition floatundidf :: "du_int \<Rightarrow> 64 word" where
  "floatundidf a =
    (if a = 0 then 0
     else let N = 64; sd = N - builtin_clz a
          in double_bits drop_bit 0 (float_round drop_bit DBL_MANT_DIG sd a))"

definition floattisf :: "ti_int \<Rightarrow> 32 word" where
  "floattisf a =
    (if a = 0 then 0
     else let N = 128; s = signed_drop_bit (N - 1) a; a = (a XOR s) - s; sd = N - unat (clzti2 a)
          in float_bits signed_drop_bit s (float_round signed_drop_bit FLT_MANT_DIG sd a))"

definition floatuntisf :: "tu_int \<Rightarrow> 32 word" where
  "floatuntisf a =
    (if a = 0 then 0
     else let N = 128; sd = N - unat (clzti2 a)
          in float_bits drop_bit 0 (float_round drop_bit FLT_MANT_DIG sd a))"

definition floattidf :: "ti_int \<Rightarrow> 64 word" where
  "floattidf a =
    (if a = 0 then 0
     else let N = 128; s = signed_drop_bit (N - 1) a; a = (a XOR s) - s; sd = N - unat (clzti2 a)
          in double_bits signed_drop_bit s (float_round signed_drop_bit DBL_MANT_DIG sd a))"

definition floatuntidf :: "tu_int \<Rightarrow> 64 word" where
  "floatuntidf a =
    (if a = 0 then 0
     else let N = 128; sd = N - unat (clzti2 a)
          in double_bits drop_bit 0 (float_round drop_bit DBL_MANT_DIG sd a))"

definition floattitf :: "ti_int \<Rightarrow> 128 word" where
  "floattitf a =
    (if a = 0 then 0
     else let N = 128; s = signed_drop_bit (N - 1) a; a = (a XOR s) - s; sd = N - unat (clzti2 a)
          in long_double_bits signed_drop_bit s (float_round signed_drop_bit LDBL_MANT_DIG sd a))"

definition floatuntitf :: "tu_int \<Rightarrow> 128 word" where
  "floatuntitf a =
    (if a = 0 then 0
     else let N = 128; sd = N - unat (clzti2 a)
          in long_double_bits drop_bit 0 (float_round drop_bit LDBL_MANT_DIG sd a))"

section \<open>The contract\<close>

definition ieee_of_int :: "'r::len word fp_lib \<Rightarrow> int \<Rightarrow> 'r word" where
  "ieee_of_int F k = encode F (k < 0)
    (round_ne (significandBits F) (nat \<bar>k\<bar> * 2 ^ (nat (exponentBias F) - 1 + significandBits F)) 1)"

text \<open>The rounded magnitude of a nonzero integer.\<close>

lemma round_ne_int:
  assumes n: "0 < n" and b: "0 < b"
  shows "round_ne sb (n * 2 ^ (b - 1 + sb)) 1 = (nbits n + b - 2) * 2 ^ sb +
    (if nbits n \<le> sb + 1 then n * 2 ^ (sb + 1 - nbits n) else rne_div n (2 ^ (nbits n - (sb + 1))))"
proof -
  define s where "s = nbits n"
  have s: "0 < s" using n by (simp add: s_def nbits_pos)
  then have e: "nbits (n * 2 ^ (b - 1 + sb)) - (sb + 1) = s + b - 2" using n b by (simp add: nbits_mult_exp s_def [symmetric])
  have r: "rne_div (n * 2 ^ (b - 1 + sb)) (2 ^ (s + b - 2)) =
    (if s \<le> sb + 1 then n * 2 ^ (sb + 1 - s) else rne_div n (2 ^ (s - (sb + 1))))"
  proof (cases "s \<le> sb + 1")
    case True
    then have "(2 :: nat) ^ (b - 1 + sb) = 2 ^ (sb + 1 - s) * 2 ^ (s + b - 2)" using s b by (simp flip: power_add)
    then have "n * 2 ^ (b - 1 + sb) = n * 2 ^ (sb + 1 - s) * 2 ^ (s + b - 2)" by (simp only: mult.assoc)
    then show ?thesis using True by (simp only: rne_div_exact zero_less_power zero_less_numeral if_True)
  next
    case False
    then have "(2 :: nat) ^ (s + b - 2) = 2 ^ (s - (sb + 1)) * 2 ^ (b - 1 + sb)" using b by (simp flip: power_add)
    then show ?thesis using False by (simp only: rne_div_scale zero_less_power zero_less_numeral if_False)
  qed
  show ?thesis unfolding round_ne_def Let_def s_def [symmetric] using e r by simp
qed

text \<open>Rounding on the bits \<open>Q\<close> and \<open>R\<close>.\<close>

lemma rne_div_4: "rne_div S 4 = (S + of_bool (odd (S div 4) \<and> even S) + 1) div 4"
proof -
  define f r where "f = S div 4" and "r = S mod 4"
  have S: "S = 4 * f + r" "r < 4" by (simp_all add: f_def r_def)
  have "r = 0 \<or> r = 1 \<or> r = 2 \<or> r = 3" using S(2) by auto
  then show ?thesis unfolding S(1) by (auto simp: rne_div_def Let_def odd_iff_mod_2_eq_one)
qed

text \<open>The register with \<open>Q\<close> and \<open>R\<close>.\<close>

lemma float_register:
  fixes a :: "'a::len word"
  assumes sd: "sd = nbits (unat a)" "M < sd" and M: "M + 4 \<le> LENGTH('a)"
    and S: "S = (if sd = M + 1 then push_bit 1 a
       else if sd = M + 2 then a
       else drop_bit (sd - (M + 2)) a OR of_bool (a AND drop_bit ((LENGTH('a) + M + 2) - sd) (- 1) \<noteq> 0))"
  shows "2 ^ (M + 1) \<le> unat S" "unat S < 2 ^ (M + 2)" "rne_div (unat S) 4 = rne_div (unat a) (2 ^ (sd - M))"
proof -
  have n: "0 < unat a" using sd by (cases "unat a = 0") simp_all
  have lo: "2 ^ (sd - 1) \<le> unat a" and hi: "unat a < 2 ^ sd" using exp_nbits_le [OF n] less_exp_nbits [of "unat a"] sd(1) by simp_all
  have len: "sd \<le> LENGTH('a)" unfolding sd(1) by (rule nbits_unat_le)
  consider "sd = M + 1" | k where "sd = M + 2 + k" using sd(2) by (metis Suc_eq_plus1 add_2_eq_Suc' add_Suc_right le_Suc_ex less_eq_Suc_le le_neq_implies_less)
  then have "2 ^ (M + 1) \<le> unat S \<and> unat S < 2 ^ (M + 2) \<and> rne_div (unat S) 4 = rne_div (unat a) (2 ^ (sd - M))"
  proof cases
    case 1
    have "unat a * 2 ^ 1 < 2 ^ (M + 2)" using hi 1 by simp
    also have "\<dots> \<le> 2 ^ LENGTH('a)" by (rule power_increasing) (use M in simp_all)
    finally have "unat S = unat a * 2" using 1 S unat_push_bit_small [of a 1] by simp
    then show ?thesis using 1 lo hi rne_div_scale [of 2 2 "unat a"] by simp
  next
    case (2 k)
    then have k: "sd - (M + 2) = k" "LENGTH('a) + M + 2 - sd = LENGTH('a) - k" "LENGTH('a) - (LENGTH('a) - k) = k" "sd - M = k + 2"
      using len by simp_all
    have "unat S = unat (drop_bit k a OR of_bool (a AND mask k \<noteq> 0))"
      using S 2 unfolding k lower_mask_eq by (cases "k = 0") (simp_all add: k)
    also have "\<dots> = stk (unat a) k"
      by (simp only: unat_or_of_bool stk_def unat_drop_bit_div word_unat_eq_iff unat_and_mask unat_0)
    finally have u: "unat S = stk (unat a) k" .
    have "2 ^ (M + 1) * 2 ^ k \<le> unat a" using lo by (simp add: 2 power_add)
    then have "2 ^ (M + 1) \<le> stk (unat a) k" by (simp add: stk_def less_eq_div_iff_mult_less_eq trans_le_add1)
    moreover have "stk (unat a) k < 2 ^ Suc (M + 1)" by (rule stk_less) (use hi in \<open>simp add: 2\<close>)
    moreover have "rne_div (stk (unat a) k) (2 ^ 2) = rne_div (unat a) (2 ^ k * 2 ^ 2)" by (rule approx_rne [OF approx_stk]) simp
    ultimately show ?thesis by (simp add: u k power_add mult.commute)
  qed
  then show "2 ^ (M + 1) \<le> unat S" "unat S < 2 ^ (M + 2)" "rne_div (unat S) 4 = rne_div (unat a) (2 ^ (sd - M))" by blast+
qed

lemma single_bit_test:
  fixes w :: "'a::len word"
  assumes "k < LENGTH('a)" "unat w \<le> 2 ^ k"
  shows "w AND push_bit k 1 \<noteq> 0 \<longleftrightarrow> unat w = 2 ^ k"
proof -
  have "unat (push_bit k 1 :: 'a word) = 2 ^ k * (2 ^ 1 - 1)" using assms(1) by (subst unat_push_bit_small) simp_all
  from and_field_eq_0 [OF this, of w] show ?thesis using assms(2)
    by (cases "unat w = 2 ^ k") (simp_all add: div_less)
qed

lemma round_QR:
  fixes S :: "'a::len word"
  assumes S: "unat S < 2 ^ (M + 2)" and M: "M + 4 \<le> LENGTH('a)"
    and shr: "\<And>n x. unat x < 2 ^ (LENGTH('a) - 1) \<Longrightarrow> shr n x = drop_bit n x"
  shows "unat (shr 2 ((S OR of_bool (S AND 4 \<noteq> 0)) + 1)) = rne_div (unat S) 4"
proof -
  have "(2 :: nat) ^ 4 \<le> 2 ^ LENGTH('a)" using M by (intro power_increasing) simp_all
  then have "unat (4 :: 'a word) = 2 ^ 2 * (2 ^ 1 - 1)" by (simp add: take_bit_nat_eq_self)
  from and_field_eq_0 [OF this, of S] have "S AND 4 \<noteq> 0 \<longleftrightarrow> odd (unat S div 4)" by (simp add: odd_iff_mod_2_eq_one)
  then have u: "unat (S OR of_bool (S AND 4 \<noteq> 0)) = unat S + of_bool (odd (unat S div 4) \<and> even (unat S))"
    by (simp only: unat_or_of_bool)
  define c where "c = (2 :: nat) ^ M"
  have "0 < c" "unat S < c * 4" "2 ^ (M + 3) = c * 8" using S by (simp_all add: c_def power_add)
  then have "unat S + 2 < 2 ^ (M + 3)" by linarith
  also have "\<dots> \<le> 2 ^ (LENGTH('a) - 1)" using M by (intro power_increasing) simp_all
  finally have lt: "unat S + 2 < 2 ^ (LENGTH('a) - 1)" .
  also have "\<dots> \<le> 2 ^ LENGTH('a)" by (intro power_increasing) simp_all
  finally have "unat ((S OR of_bool (S AND 4 \<noteq> 0)) + 1) = unat S + of_bool (odd (unat S div 4) \<and> even (unat S)) + 1"
    by (subst unat_add_small) (simp_all only: u unat_1, auto)
  moreover from this have "unat ((S OR of_bool (S AND 4 \<noteq> 0)) + 1) < 2 ^ (LENGTH('a) - 1)" using lt by auto
  ultimately show ?thesis by (simp only: shr unat_drop_bit_div rne_div_4) simp
qed

lemma float_round_correct:
  fixes a m :: "'a::len word"
  assumes a: "a \<noteq> 0" and sd: "sd = nbits (unat a)" and M: "2 \<le> M" "M + 4 \<le> LENGTH('a)"
    and shr: "\<And>n x. unat x < 2 ^ (LENGTH('a) - 1) \<Longrightarrow> shr n x = drop_bit n x"
    and r: "float_round shr M sd a = (m, e)" and b: "0 < b"
  shows "2 ^ (M - 1) \<le> unat m" "unat m < 2 ^ M" "0 \<le> e" "e \<le> int sd" "e = int sd \<longrightarrow> unat m = 2 ^ (M - 1)"
    "round_ne (M - 1) (unat a * 2 ^ (b - 1 + (M - 1))) 1 = (nat e + b - 1) * 2 ^ (M - 1) + unat m"
proof -
  have n: "0 < unat a" using a by (simp add: unat_gt_0)
  have lo: "2 ^ (sd - 1) \<le> unat a" and hi: "unat a < 2 ^ sd" and s0: "0 < sd"
    using exp_nbits_le [OF n] less_exp_nbits [of "unat a"] n by (simp_all add: sd nbits_pos del: nbits_eq_0)
  note rn = round_ne_int [OF n b, of "M - 1", folded sd]
  have "2 ^ (M - 1) \<le> unat m \<and> unat m < 2 ^ M \<and> 0 \<le> e \<and> e \<le> int sd \<and> (e = int sd \<longrightarrow> unat m = 2 ^ (M - 1)) \<and>
    round_ne (M - 1) (unat a * 2 ^ (b - 1 + (M - 1))) 1 = (nat e + b - 1) * 2 ^ (M - 1) + unat m"
  proof (cases "sd \<le> M")
    case True
    have e: "m = push_bit (M - sd) a" "e = int sd - 1" using r True by (simp_all add: float_round_def)
    have "2 ^ (sd - 1) * 2 ^ (M - sd) \<le> unat a * 2 ^ (M - sd)" "unat a * 2 ^ (M - sd) < 2 ^ sd * 2 ^ (M - sd)"
      using lo hi by simp_all
    then have u: "2 ^ (M - 1) \<le> unat a * 2 ^ (M - sd)" "unat a * 2 ^ (M - sd) < 2 ^ M" using True s0 by (simp_all flip: power_add)
    have "unat m = unat a * 2 ^ (M - sd)" unfolding e(1)
      by (rule unat_push_bit_small, rule less_le_trans [OF u(2)], rule power_increasing) (use M in simp_all)
    then show ?thesis using u rn True e(2) s0 M by (simp add: nat_diff_distrib numeral_2_eq_2)
  next
    case False
    define S where "S = (if sd = M + 1 then push_bit 1 a
       else if sd = M + 2 then a
       else drop_bit (sd - (M + 2)) a OR of_bool (a AND drop_bit ((LENGTH('a) + M + 2) - sd) (- 1) \<noteq> 0))"
    define w where "w = shr 2 ((S OR of_bool (S AND 4 \<noteq> 0)) + 1)"
    have "M < sd" using False by simp
    note S = float_register [OF sd this M(2) S_def]
    have w: "unat w = rne_div (unat S) 4" unfolding w_def by (rule round_QR [OF S(2) M(2) shr])
    have R: "2 ^ (M - 1) \<le> unat w" "unat w \<le> 2 ^ M"
      unfolding w using S(1,2) M(1) by (intro rne_div_bounds; simp add: power_add power_eq_if)+
    have "w AND push_bit M 1 \<noteq> 0 \<longleftrightarrow> unat w = 2 ^ M"
      using single_bit_test [OF _ R(2)] M(2) by simp
    moreover have "float_round shr M sd a = (if w AND push_bit M 1 \<noteq> 0 then (shr 1 w, int sd - 1 + 1) else (w, int sd - 1))"
      unfolding float_round_def Let_def S_def [symmetric] w_def [symmetric] using \<open>M < sd\<close> by (simp only: if_True)
    ultimately have me: "(m, e) = (if unat w = 2 ^ M then (shr 1 w, int sd) else (w, int sd - 1))"
      using r by (simp only: diff_add_cancel)
    have rn': "round_ne (M - 1) (unat a * 2 ^ (b - 1 + (M - 1))) 1 = (sd + b - 2) * 2 ^ (M - 1) + unat w"
      using rn False M(1) S(3) w by simp
    show ?thesis
    proof (cases "unat w = 2 ^ M")
      case True
      have "shr 1 w = drop_bit 1 w" by (rule shr, unfold True, rule power_strict_increasing) (use M in simp_all)
      then have "m = drop_bit 1 w" "e = int sd" using me True by simp_all
      then have "unat m = 2 ^ (M - 1)" "e = int sd" using M(1) by (simp_all only: unat_drop_bit_div True) (cases M; simp)
      moreover have "(sd + b - 2) * 2 ^ (M - 1) + 2 ^ M = (sd + b - 1) * 2 ^ (M - 1) + (2 :: nat) ^ (M - 1)"
      proof -
        have "sd + b - 1 = Suc (sd + b - 2)" "(2 :: nat) ^ M = 2 * 2 ^ (M - 1)" using s0 b M(1) by (simp_all flip: power_Suc)
        then show ?thesis by simp
      qed
      ultimately show ?thesis using rn' True M(1) by simp
    next
      case False
      then have "m = w" "e = int sd - 1" using me by simp_all
      then show ?thesis using rn' R False s0 by (simp add: nat_diff_distrib numeral_2_eq_2)
    qed
  qed
  then show "2 ^ (M - 1) \<le> unat m" "unat m < 2 ^ M" "0 \<le> e" "e \<le> int sd" "e = int sd \<longrightarrow> unat m = 2 ^ (M - 1)"
    "round_ne (M - 1) (unat a * 2 ^ (b - 1 + (M - 1))) 1 = (nat e + b - 1) * 2 ^ (M - 1) + unat m" by blast+
qed

text \<open>The assembly of the fields.\<close>

lemma unat_fields:
  fixes sg ex mn :: "'a::len word"
  assumes "unat sg = (if neg then 2 ^ (LENGTH('a) - 1) else 0)" "unat ex = x * 2 ^ k" "x * 2 ^ k + 2 ^ k \<le> 2 ^ (LENGTH('a) - 1)"
    "unat mn < 2 ^ k" "k < LENGTH('a)"
  shows "unat ((sg OR ex) OR mn) = (if neg then 2 ^ (LENGTH('a) - 1) else 0) + (x * 2 ^ k + unat mn)"
proof -
  have p: "(0 :: nat) < 2 ^ k" by simp
  have d: "(2 :: nat) ^ k dvd 2 ^ (LENGTH('a) - 1)" using assms(5) by (intro le_imp_power_dvd) simp
  have "unat (sg OR ex) = unat sg + unat ex"
    by (rule unat_or_aligned [of "LENGTH('a) - 1"]) (use assms p in \<open>auto simp del: zero_less_power\<close>)
  moreover have "unat ((sg OR ex) OR mn) = unat (sg OR ex) + unat mn"
    by (rule unat_or_aligned [of k]) (use assms(4) d in \<open>simp_all add: calculation assms(1,2)\<close>)
  ultimately show ?thesis by (simp add: assms(1,2))
qed

text \<open>The pattern of an exponent and a significand, sign apart.\<close>

lemma pattern_bounds:
  fixes m e b sb eb :: nat
  assumes "2 ^ sb \<le> m" "m < 2 * 2 ^ sb" "e + b < 2 ^ eb - 1 \<or> e + b = 2 ^ eb - 1 \<and> m = 2 ^ sb" "0 < b"
  shows "(e + b - 1) * 2 ^ sb + m = (e + b) * 2 ^ sb + m mod 2 ^ sb" "(e + b) * 2 ^ sb + m mod 2 ^ sb \<le> (2 ^ eb - 1) * 2 ^ sb"
proof -
  have m: "m mod 2 ^ sb = m - 2 ^ sb" using assms(1,2) by (simp add: le_mod_geq)
  obtain c where c: "e + b = Suc c" using assms(4) by (metis add_is_0 gr0_conv_Suc not0_implies_Suc)
  show "(e + b - 1) * 2 ^ sb + m = (e + b) * 2 ^ sb + m mod 2 ^ sb" using assms(1) by (simp add: m c)
  show "(e + b) * 2 ^ sb + m mod 2 ^ sb \<le> (2 ^ eb - 1) * 2 ^ sb"
  proof (cases "e + b < 2 ^ eb - 1")
    case True
    then have "Suc (e + b) * 2 ^ sb \<le> (2 ^ eb - 1) * 2 ^ sb" by (intro mult_right_mono) simp_all
    moreover have "m mod 2 ^ sb < 2 ^ sb" by simp
    ultimately show ?thesis unfolding mult_Suc by linarith
  next
    case False
    then have "e + b = 2 ^ eb - 1" "m = 2 ^ sb" using assms(3) by auto
    then show ?thesis by simp
  qed
qed

lemma ucast_sign_mask:
  fixes c :: "'b::len word"
  assumes "LENGTH('b) \<le> LENGTH('a::len)"
  shows "ucast (if neg then - 1 else 0 :: 'a word) AND c = (if neg then c else 0)"
  by (rule bit_word_eqI) (use assms in \<open>auto simp: bit_simps\<close>)

lemma float_bits_eq:
  fixes m :: "'a::len word"
  assumes "2 ^ 23 \<le> unat m" "unat m < 2 * 2 ^ 23" "e + 127 < 2 ^ 8 - 1 \<or> e + 127 = 2 ^ 8 - 1 \<and> unat m = 2 ^ 23"
    and "32 \<le> LENGTH('a)"
  shows "float_bits shr (if neg then - 1 else 0) (m, int e) = encode single_precision neg ((e + 127 - 1) * 2 ^ 23 + unat m)"
proof (rule sf.encode_eqI)
  note p = pattern_bounds [OF assms(1-3) zero_less_numeral]
  show "(e + 127 - 1) * 2 ^ 23 + unat m \<le> inf_nat single_precision"
    using p by (simp add: inf_nat_def single_precision_def exponentBits_def typeWidth_def)
  have e: "e + 127 \<le> 255" using assms(3) by auto
  have "ucast m AND 0x007FFFFF = (ucast m :: 32 word) AND mask 23" by (simp add: mask_numeral)
  then have mn: "unat (ucast m AND 0x007FFFFF :: 32 word) = unat m mod 2 ^ 23"
    by (simp only: unat_and_mask unat_ucast_mod) (simp add: mod_mod_cancel)
  have ex: "unat (push_bit 23 (of_int (int e + 127)) :: 32 word) = (e + 127) * 2 ^ 23"
  proof -
    have "unat (of_int (int e + 127) :: 32 word) = e + 127" using e by (subst unat_of_int_small) simp_all
    then show ?thesis using e by (subst unat_push_bit_small) simp_all
  qed
  have sg: "unat (ucast (if neg then - 1 else 0 :: 'a word) AND 0x80000000 :: 32 word) = (if neg then 2 ^ (LENGTH(32) - 1) else 0)"
    using ucast_sign_mask [of neg "0x80000000 :: 32 word", where 'a = 'a] assms(4) by simp
  show "unat (float_bits shr (if neg then - 1 else 0) (m, int e)) =
    (if neg then 2 ^ (LENGTH(32) - 1) else 0) + ((e + 127 - 1) * 2 ^ 23 + unat m)"
    unfolding p(1) float_bits_def prod.case mn [symmetric]
    by (rule unat_fields [OF sg ex]) (use e in \<open>simp_all add: mn\<close>)
qed

lemma two_word_fields:
  fixes m x sg :: nat
  shows "(sg + (x * 2 ^ j + m div 2 ^ h mod 2 ^ j)) * 2 ^ h + m mod 2 ^ h = sg * 2 ^ h + (x * 2 ^ (h + j) + m mod 2 ^ (h + j))"
proof -
  have "m mod 2 ^ (h + j) = 2 ^ h * (m div 2 ^ h mod 2 ^ j) + m mod 2 ^ h" by (simp only: power_add mod_mult2_eq)
  then show ?thesis by (simp only: power_add) (simp add: algebra_simps)
qed

lemma double_bits_eq:
  fixes m :: "'a::len word"
  assumes "2 ^ 52 \<le> unat m" "unat m < 2 * 2 ^ 52" "e + 1023 < 2 ^ 11 - 1 \<or> e + 1023 = 2 ^ 11 - 1 \<and> unat m = 2 ^ 52"
    and "32 \<le> LENGTH('a)" "shr 32 m = drop_bit 32 m"
  shows "double_bits shr (if neg then - 1 else 0) (m, int e) = encode double_precision neg ((e + 1023 - 1) * 2 ^ 52 + unat m)"
proof (rule df.encode_eqI)
  note p = pattern_bounds [OF assms(1-3) zero_less_numeral]
  show "(e + 1023 - 1) * 2 ^ 52 + unat m \<le> inf_nat double_precision"
    using p by (simp add: inf_nat_def double_precision_def exponentBits_def typeWidth_def)
  have e: "e + 1023 \<le> 2047" using assms(3) by auto
  have "ucast (drop_bit 32 m) AND 0x000FFFFF = (ucast (drop_bit 32 m) :: 32 word) AND mask 20" by (simp add: mask_numeral)
  then have mn: "unat (ucast (shr 32 m) AND 0x000FFFFF :: 32 word) = unat m div 2 ^ 32 mod 2 ^ 20"
    by (simp only: assms(5) unat_and_mask unat_ucast_mod unat_drop_bit_div) (simp add: mod_mod_cancel)
  have ex: "unat (push_bit 20 (of_int (int e + 1023)) :: 32 word) = (e + 1023) * 2 ^ 20"
  proof -
    have "unat (of_int (int e + 1023) :: 32 word) = e + 1023" using e by (subst unat_of_int_small) simp_all
    then show ?thesis using e by (subst unat_push_bit_small) simp_all
  qed
  have sg: "unat (ucast (if neg then - 1 else 0 :: 'a word) AND 0x80000000 :: 32 word) = (if neg then 2 ^ (LENGTH(32) - 1) else 0)"
    using ucast_sign_mask [of neg "0x80000000 :: 32 word", where 'a = 'a] assms(4) by simp
  have "unat (double_bits shr (if neg then - 1 else 0) (m, int e)) =
    ((if neg then 2 ^ (LENGTH(32) - 1) else 0) + ((e + 1023) * 2 ^ 20 + unat m div 2 ^ 32 mod 2 ^ 20)) * 2 ^ 32 + unat m mod 2 ^ 32"
    unfolding double_bits_def prod.case
    by (subst unat_all, simp, unfold halves.select_convs, subst unat_fields [OF sg ex])
      (use e in \<open>simp_all add: mn unat_ucast_mod\<close>)
  also have "\<dots> = (if neg then 2 ^ (LENGTH(32) - 1) else 0) * 2 ^ 32 + ((e + 1023) * 2 ^ (32 + 20) + unat m mod 2 ^ (32 + 20))"
    by (rule two_word_fields)
  also have "\<dots> = (if neg then 2 ^ (LENGTH(64) - 1) else 0) + ((e + 1023) * 2 ^ 52 + unat m mod 2 ^ 52)" by simp
  finally show "unat (double_bits shr (if neg then - 1 else 0) (m, int e)) =
    (if neg then 2 ^ (LENGTH(64) - 1) else 0) + ((e + 1023 - 1) * 2 ^ 52 + unat m)" unfolding p(1) .
qed

lemma long_double_bits_eq:
  fixes m :: "'a::len word"
  assumes "2 ^ 112 \<le> unat m" "unat m < 2 * 2 ^ 112" "e + 16383 < 2 ^ 15 - 1 \<or> e + 16383 = 2 ^ 15 - 1 \<and> unat m = 2 ^ 112"
    and "64 \<le> LENGTH('a)" "shr 64 m = drop_bit 64 m"
  shows "long_double_bits shr (if neg then - 1 else 0) (m, int e) = encode quad_precision neg ((e + 16383 - 1) * 2 ^ 112 + unat m)"
proof (rule tf.encode_eqI)
  note p = pattern_bounds [OF assms(1-3) zero_less_numeral]
  show "(e + 16383 - 1) * 2 ^ 112 + unat m \<le> inf_nat quad_precision"
    using p by (simp add: inf_nat_def quad_precision_def exponentBits_def typeWidth_def)
  have e: "e + 16383 \<le> 32767" using assms(3) by auto
  have "ucast (drop_bit 64 m) AND 0x0000ffffffffffff = (ucast (drop_bit 64 m) :: 64 word) AND mask 48" by (simp add: mask_numeral)
  then have mn: "unat (ucast (shr 64 m) AND 0x0000ffffffffffff :: 64 word) = unat m div 2 ^ 64 mod 2 ^ 48"
    by (simp only: assms(5) unat_and_mask unat_ucast_mod unat_drop_bit_div) (simp add: mod_mod_cancel)
  have ex: "unat (push_bit 48 (of_int (int e + 16383)) :: 64 word) = (e + 16383) * 2 ^ 48"
  proof -
    have "unat (of_int (int e + 16383) :: 64 word) = e + 16383" using e by (subst unat_of_int_small) simp_all
    then show ?thesis using e by (subst unat_push_bit_small) simp_all
  qed
  have sg: "unat (ucast (if neg then - 1 else 0 :: 'a word) AND 0x8000000000000000 :: 64 word) = (if neg then 2 ^ (LENGTH(64) - 1) else 0)"
    using ucast_sign_mask [of neg "0x8000000000000000 :: 64 word", where 'a = 'a] assms(4) by simp
  have "unat (long_double_bits shr (if neg then - 1 else 0) (m, int e)) =
    ((if neg then 2 ^ (LENGTH(64) - 1) else 0) + ((e + 16383) * 2 ^ 48 + unat m div 2 ^ 64 mod 2 ^ 48)) * 2 ^ 64 + unat m mod 2 ^ 64"
    unfolding long_double_bits_def prod.case
    by (subst unat_all, simp, unfold halves.select_convs, subst unat_fields [OF sg ex])
      (use e in \<open>simp_all add: mn unat_ucast_mod\<close>)
  also have "\<dots> = (if neg then 2 ^ (LENGTH(64) - 1) else 0) * 2 ^ 64 + ((e + 16383) * 2 ^ (64 + 48) + unat m mod 2 ^ (64 + 48))"
    by (rule two_word_fields)
  also have "\<dots> = (if neg then 2 ^ (LENGTH(128) - 1) else 0) + ((e + 16383) * 2 ^ 112 + unat m mod 2 ^ 112)" by simp
  finally show "unat (long_double_bits shr (if neg then - 1 else 0) (m, int e)) =
    (if neg then 2 ^ (LENGTH(128) - 1) else 0) + ((e + 16383 - 1) * 2 ^ 112 + unat m)" unfolding p(1) .
qed

text \<open>A right shift that agrees with the unsigned one on values without the top bit.\<close>

definition shift_right :: "(nat \<Rightarrow> 'a word \<Rightarrow> 'a::len word) \<Rightarrow> bool" where
  "shift_right shr \<longleftrightarrow> (\<forall>n x. unat x < 2 ^ (LENGTH('a) - 1) \<longrightarrow> shr n x = drop_bit n x)"

lemma shift_right_unsigned: "shift_right drop_bit"
  by (simp add: shift_right_def)

lemma shift_right_signed: "shift_right signed_drop_bit"
proof -
  have "signed_drop_bit n x = drop_bit n x" if "unat x < 2 ^ (LENGTH('a) - 1)" for n and x :: "'a::len word"
  proof -
    have z: "\<not> bit x (LENGTH('a) - 1)" using nat_bit_small [OF that order_refl] by (simp add: bit_simps)
    show ?thesis by (rule bit_word_eqI) (use z in \<open>auto simp: bit_simps bit_signed_drop_bit_iff dest: bit_imp_le_length\<close>)
  qed
  then show ?thesis by (simp add: shift_right_def)
qed

lemma float_round_fields:
  fixes a :: "'a::len word"
  assumes a: "a \<noteq> 0" and sd: "sd = LENGTH('a) - builtin_clz a" and sb: "0 < sb" "sb + 5 \<le> LENGTH('a)" and shr: "shift_right shr"
    and b: "0 < b" "LENGTH('a) + b \<le> 2 ^ eb - 1"
  obtains m e where "float_round shr (Suc sb) sd a = (m, int e)" "2 ^ sb \<le> unat m" "unat m < 2 * 2 ^ sb"
    "e + b < 2 ^ eb - 1 \<or> e + b = 2 ^ eb - 1 \<and> unat m = 2 ^ sb"
    "round_ne sb (unat a * 2 ^ (b - 1 + sb)) 1 = (e + b - 1) * 2 ^ sb + unat m"
proof -
  obtain m e where r: "float_round shr (Suc sb) sd a = (m, e)" by (metis surj_pair)
  have s: "sd = nbits (unat a)" "sd \<le> LENGTH('a)" using nbits_unat_le [of a] by (simp_all add: sd nbits_builtin_clz)
  have shr': "shr n x = drop_bit n x" if "unat x < 2 ^ (LENGTH('a) - 1)" for n x using shr that by (simp add: shift_right_def)
  note c = float_round_correct [OF a s(1) _ _ shr' r b(1), unfolded diff_Suc_1 power_Suc]
  have c': "2 ^ sb \<le> unat m" "unat m < 2 * 2 ^ sb" "0 \<le> e" "e \<le> int sd" "e = int sd \<longrightarrow> unat m = 2 ^ sb"
    "round_ne sb (unat a * 2 ^ (b - 1 + sb)) 1 = (nat e + b - 1) * 2 ^ sb + unat m"
    using c sb by simp_all
  show ?thesis
  proof (rule that [of m "nat e"])
    show "nat e + b < 2 ^ eb - 1 \<or> nat e + b = 2 ^ eb - 1 \<and> unat m = 2 ^ sb"
      using c'(3-5) b(2) s(2) by (cases "e = int sd") auto
  qed (use r c' in simp_all)
qed

lemma mant_digs: "FLT_MANT_DIG = Suc 23" "DBL_MANT_DIG = Suc 52" "LDBL_MANT_DIG = Suc 112"
  by (simp_all add: FLT_MANT_DIG_def DBL_MANT_DIG_def LDBL_MANT_DIG_def)

lemma float_of_magnitude:
  fixes a :: "'a::len word"
  assumes a: "a \<noteq> 0" and len: "32 \<le> LENGTH('a)" "LENGTH('a) \<le> 128" and shr: "shift_right shr"
    and sd: "sd = LENGTH('a) - builtin_clz a"
  shows "float_bits shr (if neg then - 1 else 0) (float_round shr FLT_MANT_DIG sd a) =
      encode single_precision neg (round_ne 23 (unat a * 2 ^ (127 - 1 + 23)) 1)"
    and "57 \<le> LENGTH('a) \<Longrightarrow> double_bits shr (if neg then - 1 else 0) (float_round shr DBL_MANT_DIG sd a) =
      encode double_precision neg (round_ne 52 (unat a * 2 ^ (1023 - 1 + 52)) 1)"
    and "117 \<le> LENGTH('a) \<Longrightarrow> long_double_bits shr (if neg then - 1 else 0) (float_round shr LDBL_MANT_DIG sd a) =
      encode quad_precision neg (round_ne 112 (unat a * 2 ^ (16383 - 1 + 112)) 1)"
proof -
  have sh: "shr n m = drop_bit n m" if "unat m < 2 * 2 ^ sb" "sb + 2 \<le> LENGTH('a)" for n m sb
  proof -
    have "unat m < 2 ^ (LENGTH('a) - 1)"
      by (rule less_le_trans [OF that(1)], unfold power_Suc [symmetric], rule power_increasing) (use that(2) in simp_all)
    then show ?thesis using shr by (simp add: shift_right_def)
  qed
  have f: "0 < (23 :: nat)" "23 + 5 \<le> LENGTH('a)" "0 < (127 :: nat)" "LENGTH('a) + 127 \<le> 2 ^ 8 - 1" using len by simp_all
  obtain m e where r: "float_round shr (Suc 23) sd a = (m, int e)" "2 ^ 23 \<le> unat m" "unat m < 2 * 2 ^ 23"
    "e + 127 < 2 ^ 8 - 1 \<or> e + 127 = 2 ^ 8 - 1 \<and> unat m = 2 ^ 23"
    "round_ne 23 (unat a * 2 ^ (127 - 1 + 23)) 1 = (e + 127 - 1) * 2 ^ 23 + unat m"
    by (rule float_round_fields [OF a sd f(1,2) shr f(3,4)], rule that; assumption)
  show "float_bits shr (if neg then - 1 else 0) (float_round shr FLT_MANT_DIG sd a) =
      encode single_precision neg (round_ne 23 (unat a * 2 ^ (127 - 1 + 23)) 1)"
    unfolding r(1,5) mant_digs by (rule float_bits_eq [OF r(2-4) len(1)])
  show "double_bits shr (if neg then - 1 else 0) (float_round shr DBL_MANT_DIG sd a) =
      encode double_precision neg (round_ne 52 (unat a * 2 ^ (1023 - 1 + 52)) 1)" if l: "57 \<le> LENGTH('a)"
  proof -
    have f: "0 < (52 :: nat)" "52 + 5 \<le> LENGTH('a)" "0 < (1023 :: nat)" "LENGTH('a) + 1023 \<le> 2 ^ 11 - 1" using l len by simp_all
    obtain m e where r: "float_round shr (Suc 52) sd a = (m, int e)" "2 ^ 52 \<le> unat m" "unat m < 2 * 2 ^ 52"
      "e + 1023 < 2 ^ 11 - 1 \<or> e + 1023 = 2 ^ 11 - 1 \<and> unat m = 2 ^ 52"
      "round_ne 52 (unat a * 2 ^ (1023 - 1 + 52)) 1 = (e + 1023 - 1) * 2 ^ 52 + unat m"
      by (rule float_round_fields [OF a sd f(1,2) shr f(3,4)], rule that; assumption)
    show ?thesis
      unfolding r(1,5) mant_digs by (rule double_bits_eq [OF r(2-4) len(1)], rule sh [OF r(3)]) (use l in simp)
  qed
  show "long_double_bits shr (if neg then - 1 else 0) (float_round shr LDBL_MANT_DIG sd a) =
      encode quad_precision neg (round_ne 112 (unat a * 2 ^ (16383 - 1 + 112)) 1)" if l: "117 \<le> LENGTH('a)"
  proof -
    have f: "0 < (112 :: nat)" "112 + 5 \<le> LENGTH('a)" "0 < (16383 :: nat)" "LENGTH('a) + 16383 \<le> 2 ^ 15 - 1" using l len by simp_all
    obtain m e where r: "float_round shr (Suc 112) sd a = (m, int e)" "2 ^ 112 \<le> unat m" "unat m < 2 * 2 ^ 112"
      "e + 16383 < 2 ^ 15 - 1 \<or> e + 16383 = 2 ^ 15 - 1 \<and> unat m = 2 ^ 112"
      "round_ne 112 (unat a * 2 ^ (16383 - 1 + 112)) 1 = (e + 16383 - 1) * 2 ^ 112 + unat m"
      by (rule float_round_fields [OF a sd f(1,2) shr f(3,4)], rule that; assumption)
    show ?thesis
      unfolding r(1,5) mant_digs by (rule long_double_bits_eq [OF r(2-4)], use l in simp, rule sh [OF r(3)]) (use l in simp_all)
  qed
qed

text \<open>The routines of the second family.\<close>

lemma ieee_of_int_unfold:
  "ieee_of_int single_precision k = encode single_precision (k < 0) (round_ne 23 (nat \<bar>k\<bar> * 2 ^ (127 - 1 + 23)) 1)"
  "ieee_of_int double_precision k = encode double_precision (k < 0) (round_ne 52 (nat \<bar>k\<bar> * 2 ^ (1023 - 1 + 52)) 1)"
  "ieee_of_int quad_precision k = encode quad_precision (k < 0) (round_ne 112 (nat \<bar>k\<bar> * 2 ^ (16383 - 1 + 112)) 1)"
proof -
  have "exponentBias single_precision = 127" "exponentBias double_precision = 1023" "exponentBias quad_precision = 16383"
    "significandBits single_precision = 23" "significandBits double_precision = 52" "significandBits quad_precision = 112"
    by (simp_all add: exponentBias_def maxExponent_def exponentBits_def typeWidth_def single_precision_def
        double_precision_def quad_precision_def)
  then show
    "ieee_of_int single_precision k = encode single_precision (k < 0) (round_ne 23 (nat \<bar>k\<bar> * 2 ^ (127 - 1 + 23)) 1)"
    "ieee_of_int double_precision k = encode double_precision (k < 0) (round_ne 52 (nat \<bar>k\<bar> * 2 ^ (1023 - 1 + 52)) 1)"
    "ieee_of_int quad_precision k = encode quad_precision (k < 0) (round_ne 112 (nat \<bar>k\<bar> * 2 ^ (16383 - 1 + 112)) 1)"
    by (simp_all only: ieee_of_int_def nat_numeral)
qed

lemma ieee_of_int_0: "ieee_of_int F 0 = 0"
  by (simp add: ieee_of_int_def encode_def round_ne_def rne_div_def)

lemma abs_uint: "nat \<bar>uint a\<bar> = unat (a :: 'a::len word)" "\<not> uint a < 0"
  by simp_all

lemma float_unsigned:
  "floatundisf a = ieee_of_int single_precision (uint a)" "floatundidf a = ieee_of_int double_precision (uint a)"
  "floatuntisf b = ieee_of_int single_precision (uint b)" "floatuntidf b = ieee_of_int double_precision (uint b)"
  "floatuntitf b = ieee_of_int quad_precision (uint b)"
proof -
  note m = float_of_magnitude [where neg = False, unfolded if_False, OF _ _ _ shift_right_unsigned]
  note d = Let_def unat_clzti2 ieee_of_int_unfold abs_uint
  have l: "LENGTH(64) = 64" "LENGTH(128) = 128" by simp_all
  show "floatundisf a = ieee_of_int single_precision (uint a)"
    by (cases "a = 0", simp add: floatundisf_def ieee_of_int_0, simp only: floatundisf_def if_False d, rule m(1)) simp_all
  show "floatundidf a = ieee_of_int double_precision (uint a)"
    by (cases "a = 0", simp add: floatundidf_def ieee_of_int_0, simp only: floatundidf_def if_False d, rule m(2)) simp_all
  show "floatuntisf b = ieee_of_int single_precision (uint b)"
    by (cases "b = 0", simp add: floatuntisf_def ieee_of_int_0, simp only: floatuntisf_def if_False d, rule m(1)) simp_all
  show "floatuntidf b = ieee_of_int double_precision (uint b)"
    by (cases "b = 0", simp add: floatuntidf_def ieee_of_int_0, simp only: floatuntidf_def if_False d, rule m(2)) simp_all
  show "floatuntitf b = ieee_of_int quad_precision (uint b)"
    by (cases "b = 0", simp add: floatuntitf_def ieee_of_int_0, simp only: floatuntitf_def if_False d, rule m(3)) simp_all
qed

text \<open>A signed value is its sign mask and its magnitude.\<close>

lemma float_signed_magnitude:
  fixes a a' s :: "'a::len word"
  assumes a: "a \<noteq> 0" and len: "32 \<le> LENGTH('a)" "LENGTH('a) \<le> 128"
    and s: "s = signed_drop_bit (LENGTH('a) - 1) a" "a' = (a XOR s) - s" "sd = LENGTH('a) - builtin_clz a'"
  shows "float_bits signed_drop_bit s (float_round signed_drop_bit FLT_MANT_DIG sd a') = ieee_of_int single_precision (sint a)"
    and "57 \<le> LENGTH('a) \<Longrightarrow>
      double_bits signed_drop_bit s (float_round signed_drop_bit DBL_MANT_DIG sd a') = ieee_of_int double_precision (sint a)"
    and "117 \<le> LENGTH('a) \<Longrightarrow>
      long_double_bits signed_drop_bit s (float_round signed_drop_bit LDBL_MANT_DIG sd a') = ieee_of_int quad_precision (sint a)"
proof -
  have s': "s = (if sint a < 0 then - 1 else 0)" by (simp only: s(1) sign_mask_eq)
  then have a': "a' = (if sint a < 0 then - a else a)" by (simp only: s(2) xor_sign_mask)
  then have u: "nat \<bar>sint a\<bar> = unat a'" by (simp only: unat_abs_sint)
  have "a' \<noteq> 0" using a by (simp add: a')
  note m = float_of_magnitude [OF this len shift_right_signed s(3), of "sint a < 0", folded s']
  show "float_bits signed_drop_bit s (float_round signed_drop_bit FLT_MANT_DIG sd a') = ieee_of_int single_precision (sint a)"
    unfolding ieee_of_int_unfold u by (rule m(1))
  show "double_bits signed_drop_bit s (float_round signed_drop_bit DBL_MANT_DIG sd a') = ieee_of_int double_precision (sint a)"
    if "57 \<le> LENGTH('a)" unfolding ieee_of_int_unfold u by (rule m(2) [OF that])
  show "long_double_bits signed_drop_bit s (float_round signed_drop_bit LDBL_MANT_DIG sd a') = ieee_of_int quad_precision (sint a)"
    if "117 \<le> LENGTH('a)" unfolding ieee_of_int_unfold u by (rule m(3) [OF that])
qed

lemma float_signed:
  "floatdisf a = ieee_of_int single_precision (sint a)" "floatdidf a = ieee_of_int double_precision (sint a)"
  "floattisf b = ieee_of_int single_precision (sint b)" "floattidf b = ieee_of_int double_precision (sint b)"
  "floattitf b = ieee_of_int quad_precision (sint b)"
proof -
  note d = if_False Let_def unat_clzti2
  show "floatdisf a = ieee_of_int single_precision (sint a)"
    by (cases "a = 0", simp add: floatdisf_def ieee_of_int_0, simp only: floatdisf_def d,
        rule float_signed_magnitude(1)) simp_all
  show "floatdidf a = ieee_of_int double_precision (sint a)"
    by (cases "a = 0", simp add: floatdidf_def ieee_of_int_0, simp only: floatdidf_def d,
        rule float_signed_magnitude(2)) simp_all
  show "floattisf b = ieee_of_int single_precision (sint b)"
    by (cases "b = 0", simp add: floattisf_def ieee_of_int_0, simp only: floattisf_def d,
        rule float_signed_magnitude(1)) simp_all
  show "floattidf b = ieee_of_int double_precision (sint b)"
    by (cases "b = 0", simp add: floattidf_def ieee_of_int_0, simp only: floattidf_def d,
        rule float_signed_magnitude(2)) simp_all
  show "floattitf b = ieee_of_int quad_precision (sint b)"
    by (cases "b = 0", simp add: floattitf_def ieee_of_int_0, simp only: floattitf_def d,
        rule float_signed_magnitude(3)) simp_all
qed

section \<open>The first family\<close>

text \<open>The bits shifted out, moved to the top of a word and compared with \<open>signBit\<close>, decide the rounding.\<close>

context fp_format begin

lemma round_half:
  fixes x :: "'a word"
  assumes k: "0 < k" "k < LENGTH('a)"
  shows "push_bit (LENGTH('a) - k) x > signBit F \<longleftrightarrow> 2 ^ k < 2 * (unat x mod 2 ^ k)"
    "push_bit (LENGTH('a) - k) x = signBit F \<longleftrightarrow> 2 * (unat x mod 2 ^ k) = 2 ^ k"
proof -
  have "(2 :: nat) ^ LENGTH('a) = 2 ^ k * 2 ^ (LENGTH('a) - k)" using k by (simp flip: power_add)
  then have u: "unat (push_bit (LENGTH('a) - k) x) = unat x mod 2 ^ k * 2 ^ (LENGTH('a) - k)"
    by (simp only: unat_push_bit mult_mod_left)
  have h: "unat (signBit F) * 2 = 2 ^ k * 2 ^ (LENGTH('a) - k)" using k unat_signBit by (simp flip: power_add power_Suc2)
  define c where "c = (2 :: nat) ^ (LENGTH('a) - k)"
  have c: "0 < c" by (simp add: c_def)
  have "unat (signBit F) < unat x mod 2 ^ k * c \<longleftrightarrow> unat (signBit F) * 2 < 2 * (unat x mod 2 ^ k) * c" by simp
  then have lt: "unat (signBit F) < unat x mod 2 ^ k * c \<longleftrightarrow> 2 ^ k < 2 * (unat x mod 2 ^ k)"
    unfolding h c_def [symmetric] using c by (simp only: mult_less_cancel2) simp
  have "unat x mod 2 ^ k * c = unat (signBit F) \<longleftrightarrow> 2 * (unat x mod 2 ^ k) * c = unat (signBit F) * 2" by simp
  then have eq: "unat x mod 2 ^ k * c = unat (signBit F) \<longleftrightarrow> 2 * (unat x mod 2 ^ k) = 2 ^ k"
    unfolding h c_def [symmetric] using c by (simp only: mult_cancel2) simp
  show "push_bit (LENGTH('a) - k) x > signBit F \<longleftrightarrow> 2 ^ k < 2 * (unat x mod 2 ^ k)"
    "push_bit (LENGTH('a) - k) x = signBit F \<longleftrightarrow> 2 * (unat x mod 2 ^ k) = 2 ^ k"
    using lt eq by (simp_all only: word_less_nat_alt word_unat_eq_iff u c_def)
qed

lemma round_result:
  fixes w x :: "'a word"
  assumes w: "unat w + 2 ^ significandBits F = unat x div 2 ^ k" "Suc (unat w) < 2 ^ LENGTH('a)" and k: "0 < k" "k < LENGTH('a)"
    and r: "r = push_bit (LENGTH('a) - k) x" "w' = (if r > signBit F then w + 1 else w)"
  shows "unat (if r = signBit F then w' + (w' AND 1) else w') + 2 ^ significandBits F = rne_div (unat x) (2 ^ k)"
proof -
  note h = round_half [OF k, of x, folded r(1)] and i = unat_increment [OF w(2)]
  have "(2 :: nat) ^ significandBits F = 2 * 2 ^ (significandBits F - 1)" using significandBits_pos by (simp flip: power_Suc)
  then have "unat w mod 2 = unat x div 2 ^ k mod 2" unfolding w(1) [symmetric] by simp
  then show ?thesis
    unfolding r(2) h rne_div_def Let_def using w(1) i by auto
qed


lemma xor_implicitBit:
  fixes x :: "'a word"
  assumes "2 ^ significandBits F \<le> unat x" "unat x < 2 * 2 ^ significandBits F"
  shows "unat (x XOR implicitBit F) + 2 ^ significandBits F = unat x"
proof -
  define m where "m = unat x - 2 ^ significandBits F"
  have "2 ^ significandBits F AND m = 0" by (rule nat_and_aligned [of "significandBits F"]) (use assms in \<open>simp_all add: m_def\<close>)
  then have "2 ^ significandBits F + m = 2 ^ significandBits F XOR m" by (rule disjunctive_add_eq_xor)
  then have "unat x = 2 ^ significandBits F XOR m" using assms(1) by (simp add: m_def)
  then have "unat (x XOR implicitBit F) = m" by (simp add: unat_xor_eq unat_implicitBit xor.assoc xor.left_commute)
  then show ?thesis using assms(1) by (simp add: m_def)
qed

text \<open>The fraction field before the exponent is added, for \<open>sd\<close> significant digits.\<close>

lemma float_fraction:
  fixes x :: "'a word"
  assumes sd: "0 < sd" "2 ^ (sd - 1) \<le> unat x" "unat x < 2 ^ sd"
  shows "sd \<le> Suc (significandBits F) \<Longrightarrow>
      unat (push_bit (Suc (significandBits F) - sd) x XOR implicitBit F) + 2 ^ significandBits F =
        unat x * 2 ^ (Suc (significandBits F) - sd)"
    and "Suc (significandBits F) < sd \<Longrightarrow>
      unat (drop_bit (sd - Suc (significandBits F)) x XOR implicitBit F) + 2 ^ significandBits F =
        unat x div 2 ^ (sd - Suc (significandBits F))"
proof -
  let ?sb = "significandBits F"
  have W: "(2 :: nat) ^ Suc ?sb \<le> 2 ^ LENGTH('a)" using exponentBits_ge by (intro power_increasing) simp_all
  show "unat (push_bit (Suc ?sb - sd) x XOR implicitBit F) + 2 ^ ?sb = unat x * 2 ^ (Suc ?sb - sd)" if le: "sd \<le> Suc ?sb"
  proof -
    have "2 ^ (sd - 1) * 2 ^ (Suc ?sb - sd) \<le> unat x * 2 ^ (Suc ?sb - sd)" "unat x * 2 ^ (Suc ?sb - sd) < 2 ^ sd * 2 ^ (Suc ?sb - sd)"
      using sd by simp_all
    then have b: "2 ^ ?sb \<le> unat x * 2 ^ (Suc ?sb - sd)" "unat x * 2 ^ (Suc ?sb - sd) < 2 * 2 ^ ?sb"
      using sd(1) le by (simp_all flip: power_add power_Suc)
    then have "unat (push_bit (Suc ?sb - sd) x) = unat x * 2 ^ (Suc ?sb - sd)" using W by (subst unat_push_bit_small) simp_all
    then show ?thesis using xor_implicitBit [of "push_bit (Suc ?sb - sd) x"] b by simp
  qed
  show "unat (drop_bit (sd - Suc ?sb) x XOR implicitBit F) + 2 ^ ?sb = unat x div 2 ^ (sd - Suc ?sb)" if lt: "Suc ?sb < sd"
  proof -
    have p: "(2 :: nat) ^ (sd - 1) = 2 ^ ?sb * 2 ^ (sd - Suc ?sb)" "(2 :: nat) ^ sd = 2 * 2 ^ ?sb * 2 ^ (sd - Suc ?sb)"
      using lt by (simp_all flip: power_add power_Suc)
    have "2 ^ ?sb \<le> unat x div 2 ^ (sd - Suc ?sb)" using sd(2) unfolding p(1) by (simp add: less_eq_div_iff_mult_less_eq)
    moreover have "unat x div 2 ^ (sd - Suc ?sb) < 2 * 2 ^ ?sb" using sd(3) unfolding p(2) by (simp add: less_mult_imp_div_less)
    ultimately show ?thesis using xor_implicitBit [of "drop_bit (sd - Suc ?sb) x"] by (simp only: unat_drop_bit_div)
  qed
qed

lemma float_significand:
  fixes x :: "'a word"
  assumes s: "0 < sd" "sd \<le> LENGTH('a)" "2 ^ (sd - 1) \<le> unat x" "unat x < 2 ^ sd"
    and V_def: "V = (if sd \<le> Suc (significandBits F) then unat x * 2 ^ (Suc (significandBits F) - sd)
      else rne_div (unat x) (2 ^ (sd - Suc (significandBits F))))"
    and R_def: "R = (if int sd - 1 \<le> int (significandBits F) then push_bit (nat (int (significandBits F) - (int sd - 1))) x XOR implicitBit F
      else let shift = int sd - 1 - int (significandBits F); result = drop_bit (nat shift) x XOR implicitBit F;
               round = push_bit (typeWidth F - nat shift) x; result = (if round > signBit F then result + 1 else result)
           in if round = signBit F then result + (result AND 1) else result)"
  shows "unat R + 2 ^ significandBits F = V" "2 ^ significandBits F \<le> V" "V \<le> 2 * 2 ^ significandBits F"
proof -
  let ?sb = "significandBits F"
  show "unat R + 2 ^ ?sb = V"
  proof (cases "sd \<le> Suc ?sb")
    case True
    moreover from this have "nat (int ?sb - (int sd - 1)) = Suc ?sb - sd" by simp
    ultimately show ?thesis using float_fraction(1) [of sd x] s by (simp add: R_def V_def)
  next
    case False
    then have sh: "nat (int sd - 1 - int ?sb) = sd - Suc ?sb" "\<not> int sd - 1 \<le> int ?sb" "0 < sd - Suc ?sb" "sd - Suc ?sb < LENGTH('a)"
      using s(2) by simp_all
    define r where "r = drop_bit (sd - Suc ?sb) x XOR implicitBit F"
    have f: "unat r + 2 ^ ?sb = unat x div 2 ^ (sd - Suc ?sb)" unfolding r_def
      by (rule float_fraction(2)) (use False s in simp_all)
    have "(2 :: nat) ^ sd = 2 * 2 ^ ?sb * 2 ^ (sd - Suc ?sb)" using False by (simp flip: power_add power_Suc)
    then have "unat x div 2 ^ (sd - Suc ?sb) < 2 * 2 ^ ?sb" using s(4) by (simp add: less_mult_imp_div_less)
    then have "Suc (unat r) \<le> 2 ^ ?sb" using f by linarith
    also have "\<dots> < 2 ^ LENGTH('a)" using exponentBits_ge by (intro power_strict_increasing) simp_all
    finally have "Suc (unat r) < 2 ^ LENGTH('a)" .
    note round_result [OF f this sh(3,4) refl refl]
    then show ?thesis
      unfolding R_def V_def Let_def typeWidth_def if_not_P [OF sh(2)] if_not_P [OF False] sh(1) r_def [symmetric] .
  qed
  have "2 ^ ?sb \<le> V \<and> V \<le> 2 * 2 ^ ?sb"
  proof (cases "sd \<le> Suc ?sb")
    case True
    have "2 ^ (sd - 1) * 2 ^ (Suc ?sb - sd) \<le> unat x * 2 ^ (Suc ?sb - sd)" "unat x * 2 ^ (Suc ?sb - sd) \<le> 2 ^ sd * 2 ^ (Suc ?sb - sd)"
      using s by simp_all
    then show ?thesis using s(1) True by (simp add: V_def flip: power_add power_Suc)
  next
    case False
    then have "(2 :: nat) ^ (sd - 1) = 2 ^ ?sb * 2 ^ (sd - Suc ?sb)" "(2 :: nat) ^ sd = 2 * 2 ^ ?sb * 2 ^ (sd - Suc ?sb)"
      by (simp_all flip: power_add power_Suc)
    then show ?thesis using rne_div_bounds(1) [of "2 ^ (sd - Suc ?sb)" "unat x" "2 * 2 ^ ?sb"] rne_div_bounds(2) [of "2 ^ (sd - Suc ?sb)" "2 ^ ?sb" "unat x"]
      s(3,4) False by (simp add: V_def)
  qed
  then show "2 ^ ?sb \<le> V" "V \<le> 2 * 2 ^ ?sb" by blast+
qed

lemma float_shift_round_correct:
  fixes a :: "'s::len word"
  assumes a: "a \<noteq> 0" and len: "LENGTH('s) \<le> LENGTH('a)" "int LENGTH('s) + exponentBias F < maxExponent F" and b: "0 < exponentBias F"
  shows "unat (float_shift_round F a) =
    round_ne (significandBits F) (unat a * 2 ^ (nat (exponentBias F) - 1 + significandBits F)) 1"
    "LENGTH('s) \<le> Suc (significandBits F) \<Longrightarrow> float_shift F a = float_shift_round F a"
    "round_ne (significandBits F) (unat a * 2 ^ (nat (exponentBias F) - 1 + significandBits F)) 1 \<le> inf_nat F"
proof -
  let ?sb = "significandBits F" and ?x = "ucast a :: 'a word"
  define sd b where "sd = nbits (unat a)" and "b = nat (exponentBias F)"
  have n: "0 < unat a" using a by (simp add: unat_gt_0)
  have s: "0 < sd" "sd \<le> LENGTH('s)" "2 ^ (sd - 1) \<le> unat a" "unat a < 2 ^ sd"
    using exp_nbits_le [OF n] less_exp_nbits [of "unat a"] nbits_unat_le [of a] n by (simp_all add: sd_def nbits_pos del: nbits_eq_0)
  have e: "int LENGTH('s) - 1 - int (builtin_clz a) = int sd - 1"
    using nbits_builtin_clz [of a] s(2) nbits_unat_le [of a] by (simp add: sd_def builtin_clz_def of_nat_diff)
  have x: "unat ?x = unat a" by (rule unat_ucast_up [OF len(1)])
  define V where "V = (if sd \<le> Suc ?sb then unat a * 2 ^ (Suc ?sb - sd) else rne_div (unat a) (2 ^ (sd - Suc ?sb)))"
  define R where "R = (if int sd - 1 \<le> int ?sb then push_bit (nat (int ?sb - (int sd - 1))) ?x XOR implicitBit F
      else let shift = int sd - 1 - int ?sb; result = drop_bit (nat shift) ?x XOR implicitBit F;
               round = push_bit (typeWidth F - nat shift) ?x; result = (if round > signBit F then result + 1 else result)
           in if round = signBit F then result + (result AND 1) else result)"
  have "sd \<le> LENGTH('a)" using s(2) len(1) by simp
  note R = float_significand [OF s(1) this s(3,4) [folded x] V_def [folded x] R_def]
  note V = R(2,3)
  have rn: "round_ne ?sb (unat a * 2 ^ (nat (exponentBias F) - 1 + ?sb)) 1 = (sd + b - 2) * 2 ^ ?sb + V"
    using round_ne_int [OF n, of b ?sb] b by (simp only: b_def V_def sd_def zero_less_nat_eq Suc_eq_plus1)
  have sdb: "int (sd + b - 1) = int sd - 1 + exponentBias F" "sd + b - 1 = Suc (sd + b - 2)" using s(1) b by (simp_all add: b_def)
  have "int (sd + b) \<le> int (2 ^ exponentBits F - 1)" unfolding maxExponent_bounds(3) using len(2) s(2) b by (simp add: b_def)
  then have "sd + b \<le> 2 ^ exponentBits F - 1" by (simp only: of_nat_le_iff)
  then have inf: "(sd + b) * 2 ^ ?sb \<le> inf_nat F" unfolding inf_nat_def by (rule mult_right_mono) simp
  have lt: "(sd + b) * 2 ^ ?sb < 2 ^ LENGTH('a)" by (rule le_less_trans [OF inf inf_nat_less_full])
  have "(sd + b - 1) * 1 \<le> (sd + b) * 2 ^ ?sb" by (rule mult_mono) simp_all
  then have "sd + b - 1 < 2 ^ LENGTH('a)" using lt by simp
  then have "unat (of_int (int sd - 1 + exponentBias F) :: 'a word) = sd + b - 1"
    unfolding sdb(1) [symmetric] by (subst unat_of_int_small) simp_all
  moreover have "(sd + b - 1) * 2 ^ ?sb < 2 ^ LENGTH('a)" by (rule le_less_trans [OF _ lt]) simp
  ultimately have ex: "unat (push_bit ?sb (of_int (int sd - 1 + exponentBias F)) :: 'a word) = (sd + b - 1) * 2 ^ ?sb"
    by (subst unat_push_bit_small) simp_all
  have "sd + b = sd + b - 2 + 2" using s(1) b by (simp add: b_def)
  then have "(sd + b) * 2 ^ ?sb = (sd + b - 2) * 2 ^ ?sb + 2 * 2 ^ ?sb" by (metis add_mult_distrib)
  then have sum: "unat R + (sd + b - 1) * 2 ^ ?sb = (sd + b - 2) * 2 ^ ?sb + V" "(sd + b - 2) * 2 ^ ?sb + V \<le> (sd + b) * 2 ^ ?sb"
    using R(1) V unfolding sdb(2) mult_Suc by linarith+
  have "unat (float_shift_round F a) = unat (R + push_bit ?sb (of_int (int sd - 1 + exponentBias F)))"
    by (simp only: float_shift_round_def R_def Let_def e)
  also have "\<dots> = unat R + (sd + b - 1) * 2 ^ ?sb"
    unfolding ex [symmetric] by (rule unat_add_small) (use sum lt in \<open>unfold ex, linarith\<close>)
  finally show "unat (float_shift_round F a) = round_ne ?sb (unat a * 2 ^ (nat (exponentBias F) - 1 + ?sb)) 1" unfolding rn sum(1) .
  show "float_shift F a = float_shift_round F a" if "LENGTH('s) \<le> Suc ?sb"
    using s(2) that by (simp add: float_shift_def float_shift_round_def Let_def e)
  show "round_ne ?sb (unat a * 2 ^ (nat (exponentBias F) - 1 + ?sb)) 1 \<le> inf_nat F" unfolding rn
    using sum(2) inf by linarith
qed


text \<open>With the sign inserted, the result is the contract.\<close>

lemma float_shift_round_encode:
  fixes a :: "'s::len word"
  assumes "a \<noteq> 0" "LENGTH('s) \<le> LENGTH('a)" "int LENGTH('s) + exponentBias F < maxExponent F" "0 < exponentBias F"
    and k: "unat a = nat \<bar>k\<bar>"
  shows "float_shift_round F a OR (if k < 0 then signBit F else 0) = ieee_of_int F k"
    "LENGTH('s) \<le> Suc (significandBits F) \<Longrightarrow> float_shift F a OR (if k < 0 then signBit F else 0) = ieee_of_int F k"
proof -
  note c = float_shift_round_correct [OF assms(1-4)]
  have "unat (float_shift_round F a) < 2 ^ (LENGTH('a) - 1)" unfolding c(1) by (rule le_less_trans [OF c(3) inf_nat_less])
  note unat_or_sign [OF this, of "k < 0"]
  then show e: "float_shift_round F a OR (if k < 0 then signBit F else 0) = ieee_of_int F k"
    unfolding ieee_of_int_def k [symmetric] c(1) [symmetric] by (rule encode_eqI) (rule c(3) [folded c(1)])
  show "float_shift F a OR (if k < 0 then signBit F else 0) = ieee_of_int F k" if "LENGTH('s) \<le> Suc (significandBits F)"
    unfolding c(2) [OF that] by (rule e)
qed

end

lemma signed_split:
  fixes a :: "'s::len word"
  shows "(case if a <s 0 then (S, - a) else (0, a) of (sign, a) \<Rightarrow> f a OR sign) =
      f (if sint a < 0 then - a else a) OR (if sint a < 0 then S else 0)"
    "(case if a <s 0 then (S, NOT a + 1) else (0, a) of (sign, a) \<Rightarrow> f a OR sign) =
      f (if sint a < 0 then - a else a) OR (if sint a < 0 then S else 0)"
  by (simp_all add: word_sless_alt not_eq_complement)

lemma float_shift_routines:
  "floatsisf i = ieee_of_int single_precision (sint i)" "floatunsisf u = ieee_of_int single_precision (uint u)"
  "floatsidf i = ieee_of_int double_precision (sint i)" "floatunsidf u = ieee_of_int double_precision (uint u)"
  "floatsitf i = ieee_of_int quad_precision (sint i)" "floatunsitf u = ieee_of_int quad_precision (uint u)"
  "floatditf l = ieee_of_int quad_precision (sint l)" "floatunditf w = ieee_of_int quad_precision (uint w)"
proof -
  have b: "exponentBias single_precision = 127" "exponentBias double_precision = 1023" "exponentBias quad_precision = 16383"
    "maxExponent single_precision = 255" "maxExponent double_precision = 2047" "maxExponent quad_precision = 32767"
    "significandBits single_precision = 23" "significandBits double_precision = 52" "significandBits quad_precision = 112"
    by (simp_all add: exponentBias_def maxExponent_def exponentBits_def typeWidth_def single_precision_def
        double_precision_def quad_precision_def)
  have nz: "(if sint a < 0 then - a else a) \<noteq> 0" if "a \<noteq> 0" for a :: "'s::len word" using that by simp
  show "floatsisf i = ieee_of_int single_precision (sint i)"
    by (cases "i = 0", simp add: floatsisf_def ieee_of_int_0, simp only: floatsisf_def if_False Let_def signed_split,
        rule sf.float_shift_round_encode(1) [OF nz _ _ _ unat_abs_sint]) (simp_all add: b)
  show "floatsidf i = ieee_of_int double_precision (sint i)"
    by (cases "i = 0", simp add: floatsidf_def ieee_of_int_0, simp only: floatsidf_def if_False Let_def signed_split,
        rule df.float_shift_round_encode(2) [OF nz _ _ _ unat_abs_sint]) (simp_all add: b)
  show "floatsitf i = ieee_of_int quad_precision (sint i)"
    by (cases "i = 0", simp add: floatsitf_def ieee_of_int_0, simp only: floatsitf_def if_False Let_def signed_split,
        rule tf.float_shift_round_encode(2) [OF nz _ _ _ unat_abs_sint]) (simp_all add: b)
  show "floatditf l = ieee_of_int quad_precision (sint l)"
    by (cases "l = 0", simp add: floatditf_def ieee_of_int_0, simp only: floatditf_def if_False Let_def signed_split,
        rule tf.float_shift_round_encode(2) [OF nz _ _ _ unat_abs_sint]) (simp_all add: b)
  show "floatunsisf u = ieee_of_int single_precision (uint u)"
    using sf.float_shift_round_encode(1) [of u "uint u"] by (cases "u = 0") (simp_all add: floatunsisf_def ieee_of_int_0 b)
  show "floatunsidf u = ieee_of_int double_precision (uint u)"
    using df.float_shift_round_encode(2) [of u "uint u"] by (cases "u = 0") (simp_all add: floatunsidf_def ieee_of_int_0 b)
  show "floatunsitf u = ieee_of_int quad_precision (uint u)"
    using tf.float_shift_round_encode(2) [of u "uint u"] by (cases "u = 0") (simp_all add: floatunsitf_def ieee_of_int_0 b)
  show "floatunditf w = ieee_of_int quad_precision (uint w)"
    using tf.float_shift_round_encode(2) [of w "uint w"] by (cases "w = 0") (simp_all add: floatunditf_def ieee_of_int_0 b)
qed

end
