(* ===== verification/FP_Compare.thy ===== *)
theory FP_Compare
  imports FP_Add
begin

text \<open>
  Comparisons: \<open>fp_compare_impl.inc\<close> and \<open>compare?f2.c\<close>. The results are the values of the
  enumerations as integers. The contract compares the exact values, where the pattern of an
  infinity is a magnitude above every finite one.
\<close>

section \<open>The code\<close>

definition LE_LESS :: int where "LE_LESS = -1"
definition LE_EQUAL :: int where "LE_EQUAL = 0"
definition LE_GREATER :: int where "LE_GREATER = 1"
definition LE_UNORDERED :: int where "LE_UNORDERED = 1"

definition leXf2 :: "'a::len word fp_lib \<Rightarrow> 'a word \<Rightarrow> 'a word \<Rightarrow> int" where
  "leXf2 F a b =
    (let aInt = a; bInt = b;
         aAbs = aInt AND absMask F;
         bAbs = bInt AND absMask F
     in if aAbs > infRep F \<or> bAbs > infRep F then LE_UNORDERED
        else if aAbs OR bAbs = 0 then LE_EQUAL
        else if 0 \<le>s aInt AND bInt then
          (if aInt <s bInt then LE_LESS else if aInt = bInt then LE_EQUAL else LE_GREATER)
        else
          (if bInt <s aInt then LE_LESS else if aInt = bInt then LE_EQUAL else LE_GREATER))"

definition GE_LESS :: int where "GE_LESS = -1"
definition GE_EQUAL :: int where "GE_EQUAL = 0"
definition GE_GREATER :: int where "GE_GREATER = 1"
definition GE_UNORDERED :: int where "GE_UNORDERED = -1"

definition geXf2 :: "'a::len word fp_lib \<Rightarrow> 'a word \<Rightarrow> 'a word \<Rightarrow> int" where
  "geXf2 F a b =
    (let aInt = a; bInt = b;
         aAbs = aInt AND absMask F;
         bAbs = bInt AND absMask F
     in if aAbs > infRep F \<or> bAbs > infRep F then GE_UNORDERED
        else if aAbs OR bAbs = 0 then GE_EQUAL
        else if 0 \<le>s aInt AND bInt then
          (if aInt <s bInt then GE_LESS else if aInt = bInt then GE_EQUAL else GE_GREATER)
        else
          (if bInt <s aInt then GE_LESS else if aInt = bInt then GE_EQUAL else GE_GREATER))"

definition unordXf2 :: "'a::len word fp_lib \<Rightarrow> 'a word \<Rightarrow> 'a word \<Rightarrow> int" where
  "unordXf2 F a b =
    (let aAbs = a AND absMask F; bAbs = b AND absMask F in of_bool (aAbs > infRep F \<or> bAbs > infRep F))"

definition lesf2 :: "32 word \<Rightarrow> 32 word \<Rightarrow> int" where "lesf2 a b = leXf2 single_precision a b"
definition gesf2 :: "32 word \<Rightarrow> 32 word \<Rightarrow> int" where "gesf2 a b = geXf2 single_precision a b"
definition unordsf2 :: "32 word \<Rightarrow> 32 word \<Rightarrow> int" where "unordsf2 a b = unordXf2 single_precision a b"
definition ledf2 :: "64 word \<Rightarrow> 64 word \<Rightarrow> int" where "ledf2 a b = leXf2 double_precision a b"
definition gedf2 :: "64 word \<Rightarrow> 64 word \<Rightarrow> int" where "gedf2 a b = geXf2 double_precision a b"
definition unorddf2 :: "64 word \<Rightarrow> 64 word \<Rightarrow> int" where "unorddf2 a b = unordXf2 double_precision a b"
definition letf2 :: "128 word \<Rightarrow> 128 word \<Rightarrow> int" where "letf2 a b = leXf2 quad_precision a b"
definition getf2 :: "128 word \<Rightarrow> 128 word \<Rightarrow> int" where "getf2 a b = geXf2 quad_precision a b"
definition unordtf2 :: "128 word \<Rightarrow> 128 word \<Rightarrow> int" where "unordtf2 a b = unordXf2 quad_precision a b"

section \<open>The contract\<close>

text \<open>\<open>u\<close> is the result for an unordered pair.\<close>

definition ieee_compare :: "'a::len word fp_lib \<Rightarrow> int \<Rightarrow> 'a word \<Rightarrow> 'a word \<Rightarrow> int" where
  "ieee_compare F u a b = (if is_nan F a \<or> is_nan F b then u else sgn (fval F a - fval F b))"

context fp_format begin

lemma negative_iff_sint: "negative x \<longleftrightarrow> sint x < 0"
  for x :: "'a word"
  by (simp add: negative_def bit_last_iff)

lemma sint_sign_abs: "sint x = (if negative x then - (2 ^ (LENGTH('a) - 1)) else 0) + int (absr x)"
  for x :: "'a word"
proof -
  have h: "(2 :: int) ^ LENGTH('a) = 2 * 2 ^ (LENGTH('a) - 1)" by (simp flip: power_Suc)
  have "absr x < 2 ^ (LENGTH('a) - 1)" by (simp add: absr_def)
  then have "sint x = (if negative x then int (unat x) - 2 ^ LENGTH('a) else int (unat x))"
    using unat_sign_abs [of x] by (simp add: sint_unat)
  then show ?thesis using unat_sign_abs [of x] h by simp
qed

lemma compare_ordered:
  fixes a b :: "'a word"
  assumes "\<not> (absr a = 0 \<and> absr b = 0)"
  shows "(if 0 \<le>s a AND b then (if a <s b then - 1 else if a = b then 0 else 1)
     else (if b <s a then - 1 else if a = b then 0 else 1)) = sgn (fval F a - fval F b)"
proof -
  have n: "0 \<le>s a AND b \<longleftrightarrow> \<not> (negative a \<and> negative b)"
    using negative_iff_sint [of "a AND b"] by (auto simp: word_sle_eq negative_def bit_simps)
  have lt: "int (absr x) < 2 ^ (LENGTH('a) - 1)" for x :: "'a word" by (simp add: absr_def flip: of_nat_power)
  have m: "int (absr x) - 2 ^ (LENGTH('a) - Suc 0) < int (absr y)" "\<not> int (absr y) < int (absr x) - 2 ^ (LENGTH('a) - Suc 0)"
    for x y :: "'a word" using lt [of x] unfolding One_nat_def by linarith+
  have "0 < mag (significandBits F) (absr a) + mag (significandBits F) (absr b)"
    using assms fval_eq_0 [of a] fval_eq_0 [of b] by (auto simp: fval_def split: if_splits)
  then show ?thesis
    unfolding n word_sless_alt sint_sign_abs 
    by (cases "negative a"; cases "negative b") (auto simp: fval_def sgn_if rep_eq_iff m)
qed

theorem compare_correct:
  "leXf2 F a b = ieee_compare F 1 a b" "geXf2 F a b = ieee_compare F (- 1) a b"
  "unordXf2 F a b = of_bool (is_nan F a \<or> is_nan F b)"
proof -
  have z: "(a AND absMask F) OR (b AND absMask F) = 0 \<longleftrightarrow> absr a = 0 \<and> absr b = 0"
    using rep_tests(3) [of a] rep_tests(3) [of b] by (simp add: or_eq_0_iff)
  show "leXf2 F a b = ieee_compare F 1 a b" "geXf2 F a b = ieee_compare F (- 1) a b"
    "unordXf2 F a b = of_bool (is_nan F a \<or> is_nan F b)"
    unfolding leXf2_def geXf2_def unordXf2_def ieee_compare_def Let_def rep_tests z
      LE_LESS_def LE_EQUAL_def LE_GREATER_def LE_UNORDERED_def GE_LESS_def GE_EQUAL_def GE_GREATER_def GE_UNORDERED_def
    using compare_ordered [of a b] fval_eq_0 [of a] fval_eq_0 [of b] by auto
qed

end

lemma compare_formats:
  "lesf2 a b = ieee_compare single_precision 1 a b" "gesf2 a b = ieee_compare single_precision (- 1) a b"
  "unordsf2 a b = of_bool (is_nan single_precision a \<or> is_nan single_precision b)"
  "ledf2 c d = ieee_compare double_precision 1 c d" "gedf2 c d = ieee_compare double_precision (- 1) c d"
  "unorddf2 c d = of_bool (is_nan double_precision c \<or> is_nan double_precision d)"
  "letf2 e f = ieee_compare quad_precision 1 e f" "getf2 e f = ieee_compare quad_precision (- 1) e f"
  "unordtf2 e f = of_bool (is_nan quad_precision e \<or> is_nan quad_precision f)"
  by (simp_all only: lesf2_def gesf2_def unordsf2_def ledf2_def gedf2_def unorddf2_def letf2_def getf2_def unordtf2_def
      sf.compare_correct df.compare_correct tf.compare_correct)

end
