(* ===== verification/San_Prelude.thy ===== *)
theory San_Prelude
  imports CRT_Prelude "HOL-Library.Monad_Syntax"
begin

text \<open>
  Shared by the sanitizer components. A member function that can stop at a \<open>CHECK\<close>, or that
  would leave the bounds of an array, returns an \<open>option\<close> whose \<open>None\<close> is that stop. Loops over a
  range of indices are \<open>for_each\<close>, with one invariant rule. Arrays are lists; \<open>array_get\<close> and
  \<open>array_set\<close> are accesses with their bounds.
\<close>

section \<open>Assertions and arrays\<close>

definition CHECK :: "bool \<Rightarrow> unit option" where
  "CHECK b = (if b then Some () else None)"

definition array_get :: "'a list \<Rightarrow> nat \<Rightarrow> 'a option" where
  "array_get xs i = (if i < length xs then Some (xs ! i) else None)"

definition array_set :: "'a list \<Rightarrow> nat \<Rightarrow> 'a \<Rightarrow> 'a list option" where
  "array_set xs i x = (if i < length xs then Some (xs[i := x]) else None)"

lemma CHECK_simps [simp]: "CHECK True = Some ()" "CHECK False = None" "CHECK b = Some u \<longleftrightarrow> b" "CHECK b = None \<longleftrightarrow> \<not> b"
  by (simp_all add: CHECK_def)

lemma array_get_Some [simp]: "i < length xs \<Longrightarrow> array_get xs i = Some (xs ! i)"
  by (simp add: array_get_def)

lemma array_set_Some [simp]: "i < length xs \<Longrightarrow> array_set xs i x = Some (xs[i := x])"
  by (simp add: array_set_def)

section \<open>Loops\<close>

fun for_each :: "'i list \<Rightarrow> ('i \<Rightarrow> 's \<Rightarrow> 's option) \<Rightarrow> 's \<Rightarrow> 's option" where
  "for_each [] body s = Some s"
| "for_each (i # is) body s = Option.bind (body i s) (for_each is body)"

lemma for_each_snoc: "for_each (is @ [i]) body s = Option.bind (for_each is body s) (body i)"
proof (induction "is" arbitrary: s)
  case Nil
  show ?case by (cases "body i s") simp_all
next
  case (Cons k "is")
  then show ?case by (cases "body k s") simp_all
qed

text \<open>A loop over distinct indices keeps an invariant on the set of indices done so far.\<close>

lemma for_each_rule_aux:
  assumes "distinct is" "set is \<inter> D = {}" "I D s"
    and "\<And>i D s. i \<in> set is \<Longrightarrow> i \<notin> D \<Longrightarrow> I D s \<Longrightarrow> \<exists>s'. body i s = Some s' \<and> I (insert i D) s'"
  shows "\<exists>s'. for_each is body s = Some s' \<and> I (D \<union> set is) s'"
  using assms
proof (induction "is" arbitrary: D s)
  case (Cons i "is")
  then have "i \<in> set (i # is)" "i \<notin> D" by auto
  from Cons.prems(4) [OF this Cons.prems(3)]
  obtain s1 where s1: "body i s = Some s1" "I (insert i D) s1" by blast
  have "\<exists>s'. for_each is body s1 = Some s' \<and> I (insert i D \<union> set is) s'"
    by (rule Cons.IH) (use Cons.prems s1 in auto)
  then show ?case using s1(1) by auto
qed auto

lemma for_each_rule:
  assumes "distinct is" "I {} s"
    and "\<And>i D s. i \<in> set is \<Longrightarrow> i \<notin> D \<Longrightarrow> I D s \<Longrightarrow> \<exists>s'. body i s = Some s' \<and> I (insert i D) s'"
  obtains s' where "for_each is body s = Some s'" "I (set is) s'"
  using for_each_rule_aux [of "is" "{}" I s body] assms by auto

end
