(* ===== verification/San_BitVector.thy ===== *)
theory San_BitVector
  imports San_Prelude Int_Bits
begin

text \<open>
  \<open>sanitizer_bitvector.h\<close>, first part: \<open>BasicBitVector\<close>, and the interface of a bit vector as the
  template parameter \<open>BV\<close> of the other classes. The interface is a record of operations; a member
  function that changes its object returns the new object. The locale \<open>bit_vector\<close> states what the
  clients rely on: every operation acts on a set of indices below \<open>kSize\<close>.
\<close>

section \<open>The template parameter\<close>

text \<open>\<open>'bv\<close> is the class and \<open>'it\<close> its nested class \<open>Iterator\<close>.\<close>

record ('bv, 'it) BV =
  kSize :: nat
  bv_clear :: "'bv \<Rightarrow> 'bv"
  bv_setAll :: "'bv \<Rightarrow> 'bv"
  bv_empty :: "'bv \<Rightarrow> bool"
  bv_setBit :: "'bv \<Rightarrow> nat \<Rightarrow> (bool \<times> 'bv) option"
  bv_clearBit :: "'bv \<Rightarrow> nat \<Rightarrow> (bool \<times> 'bv) option"
  bv_getBit :: "'bv \<Rightarrow> nat \<Rightarrow> bool option"
  bv_getAndClearFirstOne :: "'bv \<Rightarrow> (nat \<times> 'bv) option"
  bv_setUnion :: "'bv \<Rightarrow> 'bv \<Rightarrow> (bool \<times> 'bv) option"
  bv_setIntersection :: "'bv \<Rightarrow> 'bv \<Rightarrow> (bool \<times> 'bv) option"
  bv_setDifference :: "'bv \<Rightarrow> 'bv \<Rightarrow> (bool \<times> 'bv) option"
  bv_copyFrom :: "'bv \<Rightarrow> 'bv \<Rightarrow> 'bv option"
  bv_intersectsWith :: "'bv \<Rightarrow> 'bv \<Rightarrow> bool option"
  bv_begin :: "'bv \<Rightarrow> 'it"
  bv_hasNext :: "'it \<Rightarrow> bool"
  bv_next :: "'it \<Rightarrow> (nat \<times> 'it) option"

text \<open>
  \<open>shape\<close> is what the storage of an object guarantees before it is cleared, \<open>valid\<close> the class
  invariant, \<open>elems\<close> the set of its bits and \<open>rest\<close> the set an iterator has still to visit.
\<close>

locale bit_vector =
  fixes B :: "('bv, 'it) BV" and shape valid :: "'bv \<Rightarrow> bool" and elems :: "'bv \<Rightarrow> nat set"
    and it_valid :: "'it \<Rightarrow> bool" and rest :: "'it \<Rightarrow> nat set"
  assumes valid_shape: "valid b \<Longrightarrow> shape b"
    and elems_bound: "valid b \<Longrightarrow> elems b \<subseteq> {..<kSize B}"
    and clear: "shape b \<Longrightarrow> valid (bv_clear B b) \<and> elems (bv_clear B b) = {}"
    and setAll: "shape b \<Longrightarrow> valid (bv_setAll B b) \<and> elems (bv_setAll B b) = {..<kSize B}"
    and empty: "valid b \<Longrightarrow> bv_empty B b \<longleftrightarrow> elems b = {}"
    and setBit: "valid b \<Longrightarrow> i < kSize B \<Longrightarrow>
      \<exists>b'. bv_setBit B b i = Some (i \<notin> elems b, b') \<and> valid b' \<and> elems b' = insert i (elems b)"
    and clearBit: "valid b \<Longrightarrow> i < kSize B \<Longrightarrow>
      \<exists>b'. bv_clearBit B b i = Some (i \<in> elems b, b') \<and> valid b' \<and> elems b' = elems b - {i}"
    and getBit: "valid b \<Longrightarrow> i < kSize B \<Longrightarrow> bv_getBit B b i = Some (i \<in> elems b)"
    and getAndClearFirstOne: "valid b \<Longrightarrow> elems b \<noteq> {} \<Longrightarrow>
      \<exists>b'. bv_getAndClearFirstOne B b = Some (Min (elems b), b') \<and> valid b' \<and> elems b' = elems b - {Min (elems b)}"
    and setUnion: "valid b \<Longrightarrow> valid v \<Longrightarrow>
      \<exists>b'. bv_setUnion B b v = Some (\<not> elems v \<subseteq> elems b, b') \<and> valid b' \<and> elems b' = elems b \<union> elems v"
    and setIntersection: "valid b \<Longrightarrow> valid v \<Longrightarrow>
      \<exists>b'. bv_setIntersection B b v = Some (\<not> elems b \<subseteq> elems v, b') \<and> valid b' \<and> elems b' = elems b \<inter> elems v"
    and setDifference: "valid b \<Longrightarrow> valid v \<Longrightarrow>
      \<exists>b'. bv_setDifference B b v = Some (elems b \<inter> elems v \<noteq> {}, b') \<and> valid b' \<and> elems b' = elems b - elems v"
    and copyFrom: "shape b \<Longrightarrow> valid v \<Longrightarrow> \<exists>b'. bv_copyFrom B b v = Some b' \<and> valid b' \<and> elems b' = elems v"
    and intersectsWith: "valid b \<Longrightarrow> valid v \<Longrightarrow> bv_intersectsWith B b v = Some (elems b \<inter> elems v \<noteq> {})"
    and begin_iterator: "valid b \<Longrightarrow> it_valid (bv_begin B b) \<and> rest (bv_begin B b) = elems b"
    and rest_finite: "it_valid t \<Longrightarrow> finite (rest t)"
    and hasNext: "it_valid t \<Longrightarrow> bv_hasNext B t \<longleftrightarrow> rest t \<noteq> {}"
    and next_item: "it_valid t \<Longrightarrow> rest t \<noteq> {} \<Longrightarrow>
      \<exists>t'. bv_next B t = Some (Min (rest t), t') \<and> it_valid t' \<and> rest t' = rest t - {Min (rest t)}"
begin

lemma finite_elems [simp]: "valid b \<Longrightarrow> finite (elems b)"
  using elems_bound finite_subset by blast

end

section \<open>\<open>BasicBitVector\<close>\<close>

text \<open>The object is its member \<open>bits_\<close>, a word of any width.\<close>

definition bbv_mask :: "nat \<Rightarrow> 'a::len word option" where
  "bbv_mask idx = do { CHECK (idx < LENGTH('a)); Some (push_bit idx 1) }"

definition bbv_clear :: "'a::len word \<Rightarrow> 'a word" where
  "bbv_clear bits = 0"

definition bbv_setAll :: "'a::len word \<Rightarrow> 'a word" where
  "bbv_setAll bits = NOT 0"

definition bbv_empty :: "'a::len word \<Rightarrow> bool" where
  "bbv_empty bits \<longleftrightarrow> bits = 0"

definition bbv_setBit :: "'a::len word \<Rightarrow> nat \<Rightarrow> (bool \<times> 'a word) option" where
  "bbv_setBit old idx = do { m \<leftarrow> bbv_mask idx; let bits = old OR m; Some (bits \<noteq> old, bits) }"

definition bbv_clearBit :: "'a::len word \<Rightarrow> nat \<Rightarrow> (bool \<times> 'a word) option" where
  "bbv_clearBit old idx = do { m \<leftarrow> bbv_mask idx; let bits = old AND NOT m; Some (bits \<noteq> old, bits) }"

definition bbv_getBit :: "'a::len word \<Rightarrow> nat \<Rightarrow> bool option" where
  "bbv_getBit bits idx = do { m \<leftarrow> bbv_mask idx; Some (bits AND m \<noteq> 0) }"

definition LeastSignificantSetBitIndex :: "'a::len word \<Rightarrow> nat option" where
  "LeastSignificantSetBitIndex x = do { CHECK (x \<noteq> 0); Some (builtin_ctz x) }"

definition bbv_getAndClearFirstOne :: "'a::len word \<Rightarrow> (nat \<times> 'a word) option" where
  "bbv_getAndClearFirstOne bits = do {
     CHECK (\<not> bbv_empty bits);
     idx \<leftarrow> LeastSignificantSetBitIndex bits;
     (_, bits) \<leftarrow> bbv_clearBit bits idx;
     Some (idx, bits) }"

definition bbv_setUnion :: "'a::len word \<Rightarrow> 'a word \<Rightarrow> (bool \<times> 'a word) option" where
  "bbv_setUnion old v = (let bits = old OR v in Some (bits \<noteq> old, bits))"

definition bbv_setIntersection :: "'a::len word \<Rightarrow> 'a word \<Rightarrow> (bool \<times> 'a word) option" where
  "bbv_setIntersection old v = (let bits = old AND v in Some (bits \<noteq> old, bits))"

definition bbv_setDifference :: "'a::len word \<Rightarrow> 'a word \<Rightarrow> (bool \<times> 'a word) option" where
  "bbv_setDifference old v = (let bits = old AND NOT v in Some (bits \<noteq> old, bits))"

definition bbv_copyFrom :: "'a::len word \<Rightarrow> 'a word \<Rightarrow> 'a word option" where
  "bbv_copyFrom bits v = Some v"

definition bbv_intersectsWith :: "'a::len word \<Rightarrow> 'a word \<Rightarrow> bool option" where
  "bbv_intersectsWith bits v = Some (bits AND v \<noteq> 0)"

text \<open>The iterator is a copy of the vector.\<close>

definition bbv_begin :: "'a::len word \<Rightarrow> 'a word" where
  "bbv_begin bv = bv"

definition bbv_hasNext :: "'a::len word \<Rightarrow> bool" where
  "bbv_hasNext bv \<longleftrightarrow> \<not> bbv_empty bv"

definition bbv_next :: "'a::len word \<Rightarrow> (nat \<times> 'a word) option" where
  "bbv_next bv = bbv_getAndClearFirstOne bv"

definition BasicBitVector :: "('a::len word, 'a word) BV" where
  "BasicBitVector = \<lparr>kSize = LENGTH('a), bv_clear = bbv_clear, bv_setAll = bbv_setAll, bv_empty = bbv_empty,
    bv_setBit = bbv_setBit, bv_clearBit = bbv_clearBit, bv_getBit = bbv_getBit,
    bv_getAndClearFirstOne = bbv_getAndClearFirstOne, bv_setUnion = bbv_setUnion,
    bv_setIntersection = bbv_setIntersection, bv_setDifference = bbv_setDifference, bv_copyFrom = bbv_copyFrom,
    bv_intersectsWith = bbv_intersectsWith, bv_begin = bbv_begin, bv_hasNext = bbv_hasNext, bv_next = bbv_next\<rparr>"

section \<open>Words as sets of indices\<close>

definition bits :: "'a::len word \<Rightarrow> nat set" where
  "bits w = {i. bit w i}"

lemma bits_bound: "bits w \<subseteq> {..<LENGTH('a)}"
  for w :: "'a::len word"
  by (auto simp: bits_def dest: bit_imp_le_length)

lemma bits_simps [simp]:
  "bits 0 = {}" "bits (v OR w) = bits v \<union> bits w" "bits (v AND w) = bits v \<inter> bits w"
  by (auto simp: bits_def bit_simps)

lemma bits_NOT [simp]: "bits (NOT w) = {..<LENGTH('a)} - bits w" "bits v \<inter> ({..<LENGTH('a)} - A) = bits v - A"
  for v w :: "'a::len word"
  using bits_bound [of v] by (auto simp: bits_def bit_simps)

lemma bits_eq_iff: "bits v = bits w \<longleftrightarrow> v = w"
  by (auto simp: bits_def intro!: bit_word_eqI)

lemma bits_eq_empty [simp]: "bits w = {} \<longleftrightarrow> w = 0"
  using bits_eq_iff [of w 0] by simp

lemma bits_single: "idx < LENGTH('a) \<Longrightarrow> bits (push_bit idx 1 :: 'a::len word) = {idx}"
  by (auto simp: bits_def bit_simps)

lemma finite_bits [simp]: "finite (bits w)"
  using bits_bound finite_subset by blast

lemma bits_unat: "bits w = {i. bit (unat w) i}"
  by (auto simp: bits_def bit_simps dest: bit_imp_le_length)

lemma builtin_ctz_Min:
  assumes "w \<noteq> 0"
  shows "builtin_ctz w = Min (bits w)" "builtin_ctz w \<in> bits w"
proof -
  obtain m where m: "odd m" "unat w = m * 2 ^ ntz (unat w)" using assms ntz_decomp [of "unat w"] by (auto simp: unat_gt_0)
  then have "bit (unat w) (ntz (unat w))" by (metis bit_iff_odd nonzero_mult_div_cancel_right power_not_zero zero_neq_numeral)
  then show i: "builtin_ctz w \<in> bits w" by (simp add: bits_unat builtin_ctz_def)
  have "\<not> bit (unat w) i" if "i < ntz (unat w)" for i
    by (rule nat_bit_aligned [OF _ that]) (metis dvd_triv_right m(2))
  then have "ntz (unat w) \<le> i" if "i \<in> bits w" for i using that by (auto simp: bits_unat not_less [symmetric])
  with i show "builtin_ctz w = Min (bits w)" by (intro Min_eqI [symmetric]) (simp_all add: builtin_ctz_def)
qed

text \<open>The results of the operations say whether the set changed.\<close>

lemma word_changed:
  "v OR w \<noteq> v \<longleftrightarrow> \<not> bits w \<subseteq> bits v" "v AND w \<noteq> v \<longleftrightarrow> \<not> bits v \<subseteq> bits w"
  "v AND NOT w \<noteq> v \<longleftrightarrow> bits v \<inter> bits w \<noteq> {}" "v AND w \<noteq> 0 \<longleftrightarrow> bits v \<inter> bits w \<noteq> {}"
proof -
  show "v OR w \<noteq> v \<longleftrightarrow> \<not> bits w \<subseteq> bits v" by (simp only: bits_eq_iff [symmetric] bits_simps bits_NOT) blast
  show "v AND w \<noteq> v \<longleftrightarrow> \<not> bits v \<subseteq> bits w" by (simp only: bits_eq_iff [symmetric] bits_simps bits_NOT) blast
  show "v AND NOT w \<noteq> v \<longleftrightarrow> bits v \<inter> bits w \<noteq> {}" by (simp only: bits_eq_iff [symmetric] bits_simps bits_NOT) blast
  show "v AND w \<noteq> 0 \<longleftrightarrow> bits v \<inter> bits w \<noteq> {}" by (simp only: bits_eq_iff [symmetric] bits_simps)
qed

lemmas bbv_defs = bbv_mask_def bbv_clear_def bbv_setAll_def bbv_empty_def bbv_setBit_def bbv_clearBit_def bbv_getBit_def
  LeastSignificantSetBitIndex_def bbv_getAndClearFirstOne_def bbv_setUnion_def bbv_setIntersection_def
  bbv_setDifference_def bbv_copyFrom_def bbv_intersectsWith_def bbv_begin_def bbv_hasNext_def bbv_next_def

lemma bbv_setBit_eq: "idx < LENGTH('a) \<Longrightarrow>
    bbv_setBit w idx = Some (idx \<notin> bits w, w OR push_bit idx 1) \<and> bits (w OR push_bit idx 1) = insert idx (bits w)"
  for w :: "'a::len word"
  by (simp add: bbv_setBit_def bbv_mask_def Let_def word_changed bits_single del: push_bit_of_1)

lemma bbv_clearBit_eq: "idx < LENGTH('a) \<Longrightarrow>
    bbv_clearBit w idx = Some (idx \<in> bits w, w AND NOT (push_bit idx 1)) \<and> bits (w AND NOT (push_bit idx 1)) = bits w - {idx}"
  for w :: "'a::len word"
  by (simp add: bbv_clearBit_def bbv_mask_def Let_def word_changed(3) bits_single del: push_bit_of_1)

lemma bbv_getBit_eq: "idx < LENGTH('a) \<Longrightarrow> bbv_getBit w idx = Some (idx \<in> bits w)"
  for w :: "'a::len word"
  by (simp add: bbv_getBit_def bbv_mask_def word_changed bits_single del: push_bit_of_1)

lemma bbv_first_eq: "w \<noteq> 0 \<Longrightarrow>
    \<exists>w'. bbv_getAndClearFirstOne w = Some (Min (bits w), w') \<and> bits w' = bits w - {Min (bits w)}"
  for w :: "'a::len word"
  using bbv_clearBit_eq [OF builtin_ctz_less, of w w]
  by (auto simp: bbv_getAndClearFirstOne_def bbv_empty_def LeastSignificantSetBitIndex_def simp flip: builtin_ctz_Min(1))

interpretation bbv: bit_vector "BasicBitVector :: ('a::len word, 'a word) BV" "\<lambda>_. True" "\<lambda>_. True" bits "\<lambda>_. True" bits
proof unfold_locales
  fix b v :: "'a word" and i :: nat
  let ?B = "BasicBitVector :: ('a word, 'a word) BV"
  note d = BasicBitVector_def BV.simps
  show "bits b \<subseteq> {..<kSize ?B}" using bits_bound [of b] by (simp add: d)
  show "True \<and> bits (bv_clear ?B b) = {}" "bv_empty ?B b \<longleftrightarrow> bits b = {}" by (simp_all add: d bbv_defs)
  show "True \<and> bits (bv_setAll ?B b) = {..<kSize ?B}"
    using bits_NOT(1) [of "0 :: 'a word"] by (simp only: d bbv_setAll_def bits_simps) simp
  show "\<exists>b'. bv_setBit ?B b i = Some (i \<notin> bits b, b') \<and> True \<and> bits b' = insert i (bits b)" if "i < kSize ?B"
    using bbv_setBit_eq [of i b] that by (simp add: d)
  show "\<exists>b'. bv_clearBit ?B b i = Some (i \<in> bits b, b') \<and> True \<and> bits b' = bits b - {i}" if "i < kSize ?B"
    using bbv_clearBit_eq [of i b] that by (simp add: d)
  show "bv_getBit ?B b i = Some (i \<in> bits b)" if "i < kSize ?B"
    using bbv_getBit_eq [of i b] that by (simp add: d)
  show "\<exists>b'. bv_getAndClearFirstOne ?B b = Some (Min (bits b), b') \<and> True \<and> bits b' = bits b - {Min (bits b)}"
    "\<exists>b'. bv_next ?B b = Some (Min (bits b), b') \<and> True \<and> bits b' = bits b - {Min (bits b)}" if "bits b \<noteq> {}"
    using bbv_first_eq [of b] that by (simp_all add: d bbv_next_def)
  show "\<exists>b'. bv_setUnion ?B b v = Some (\<not> bits v \<subseteq> bits b, b') \<and> True \<and> bits b' = bits b \<union> bits v"
    "\<exists>b'. bv_setIntersection ?B b v = Some (\<not> bits b \<subseteq> bits v, b') \<and> True \<and> bits b' = bits b \<inter> bits v"
    "\<exists>b'. bv_setDifference ?B b v = Some (bits b \<inter> bits v \<noteq> {}, b') \<and> True \<and> bits b' = bits b - bits v"
    "\<exists>b'. bv_copyFrom ?B b v = Some b' \<and> True \<and> bits b' = bits v"
    "bv_intersectsWith ?B b v = Some (bits b \<inter> bits v \<noteq> {})"
    using bits_bound [of b]
    by (simp_all only: d bbv_setUnion_def bbv_setIntersection_def bbv_setDifference_def bbv_copyFrom_def
        bbv_intersectsWith_def Let_def word_changed) auto
  show "True \<and> bits (bv_begin ?B b) = bits b" "bv_hasNext ?B b \<longleftrightarrow> bits b \<noteq> {}"
    by (simp_all add: d bbv_defs)
qed simp_all

end
