(* ===== verification/San_TwoLevel.thy ===== *)
theory San_TwoLevel
  imports San_BitVector
begin

text \<open>
  \<open>sanitizer_bitvector.h\<close>, second part: \<open>TwoLevelBitVector\<close> with its iterator. The parameter \<open>BV\<close>
  is \<open>BasicBitVector\<close> over a word of any width and \<open>L\<close> stands for \<open>kLevel1Size\<close>. The second level
  is not initialised by \<open>clear\<close>: a word of it counts only where the first level has its bit.
\<close>

section \<open>Loops over the bits of a word\<close>

text \<open>The loop \<open>while (!t.empty()) { uptr i1 = t.getAndClearFirstOne(); ... }\<close>.\<close>

lemma first_one_decreases:
  "\<not> bbv_empty t \<Longrightarrow> bbv_getAndClearFirstOne t = Some (i, t') \<Longrightarrow> card (bits t') < card (bits t)"
proof -
  assume a: "\<not> bbv_empty t" "bbv_getAndClearFirstOne t = Some (i, t')"
  then have "bits t \<noteq> {}" "bits t' = bits t - {Min (bits t)}" using bbv_first_eq [of t] by (auto simp: bbv_empty_def)
  then show ?thesis by (metis Min_in card_Diff1_less finite_bits)
qed

function for_each_bit :: "'a::len word \<Rightarrow> (nat \<Rightarrow> 's \<Rightarrow> 's option) \<Rightarrow> 's \<Rightarrow> 's option" where
  "for_each_bit t body s =
    (if bbv_empty t then Some s
     else do { (i1, t) \<leftarrow> bbv_getAndClearFirstOne t; s \<leftarrow> body i1 s; for_each_bit t body s })"
  by pat_completeness auto
termination
  by (relation "measure (\<lambda>(t, _, _). card (bits t))") (auto intro: first_one_decreases)

text \<open>The same loop with an early return of \<open>true\<close>.\<close>

function exists_bit :: "'a::len word \<Rightarrow> (nat \<Rightarrow> bool option) \<Rightarrow> bool option" where
  "exists_bit t P =
    (if bbv_empty t then Some False
     else do { (i1, t) \<leftarrow> bbv_getAndClearFirstOne t; r \<leftarrow> P i1; if r then Some True else exists_bit t P })"
  by pat_completeness auto
termination
  by (relation "measure (\<lambda>(t, _). card (bits t))") (auto intro: first_one_decreases)

declare for_each_bit.simps [simp del] exists_bit.simps [simp del]

fun exists_each :: "'i list \<Rightarrow> ('i \<Rightarrow> bool option) \<Rightarrow> bool option" where
  "exists_each [] P = Some False"
| "exists_each (i # is) P = do { r \<leftarrow> P i; if r then Some True else exists_each is P }"

section \<open>The code\<close>

record 'a TwoLevelBitVector =
  l1 :: "'a list"
  l2 :: "'a list list"

definition tbv_kSize :: "nat \<Rightarrow> 'a::len word TwoLevelBitVector \<Rightarrow> nat" where
  "tbv_kSize L bv = LENGTH('a) * LENGTH('a) * L"

definition tbv_check :: "nat \<Rightarrow> 'a::len word TwoLevelBitVector \<Rightarrow> nat \<Rightarrow> unit option" where
  "tbv_check L bv idx = CHECK (idx \<le> tbv_kSize L bv)"

definition tbv_idx0 :: "nat \<Rightarrow> 'a::len word TwoLevelBitVector \<Rightarrow> nat \<Rightarrow> nat option" where
  "tbv_idx0 L bv idx = (let res = idx div (LENGTH('a) * LENGTH('a)) in do { CHECK (res \<le> L); Some res })"

definition tbv_idx1 :: "'a::len word TwoLevelBitVector \<Rightarrow> nat \<Rightarrow> nat option" where
  "tbv_idx1 bv idx = (let res = (idx div LENGTH('a)) mod LENGTH('a) in do { CHECK (res \<le> LENGTH('a)); Some res })"

definition tbv_idx2 :: "'a::len word TwoLevelBitVector \<Rightarrow> nat \<Rightarrow> nat option" where
  "tbv_idx2 bv idx = (let res = idx mod LENGTH('a) in do { CHECK (res \<le> LENGTH('a)); Some res })"

text \<open>Accesses to the two arrays.\<close>

definition get1 :: "'a::len word TwoLevelBitVector \<Rightarrow> nat \<Rightarrow> 'a word option" where
  "get1 bv i0 = array_get (l1 bv) i0"

definition set1 :: "'a::len word TwoLevelBitVector \<Rightarrow> nat \<Rightarrow> 'a word \<Rightarrow> 'a word TwoLevelBitVector option" where
  "set1 bv i0 x = do { a \<leftarrow> array_set (l1 bv) i0 x; Some (bv\<lparr>l1 := a\<rparr>) }"

definition get2 :: "'a::len word TwoLevelBitVector \<Rightarrow> nat \<Rightarrow> nat \<Rightarrow> 'a word option" where
  "get2 bv i0 i1 = do { row \<leftarrow> array_get (l2 bv) i0; array_get row i1 }"

definition set2 :: "'a::len word TwoLevelBitVector \<Rightarrow> nat \<Rightarrow> nat \<Rightarrow> 'a word \<Rightarrow> 'a word TwoLevelBitVector option" where
  "set2 bv i0 i1 x = do {
     row \<leftarrow> array_get (l2 bv) i0; row \<leftarrow> array_set row i1 x; a \<leftarrow> array_set (l2 bv) i0 row; Some (bv\<lparr>l2 := a\<rparr>) }"

definition tbv_clear :: "'a::len word TwoLevelBitVector \<Rightarrow> 'a word TwoLevelBitVector" where
  "tbv_clear bv = bv\<lparr>l1 := map bbv_clear (l1 bv)\<rparr>"

definition tbv_setAll :: "'a::len word TwoLevelBitVector \<Rightarrow> 'a word TwoLevelBitVector" where
  "tbv_setAll bv = bv\<lparr>l1 := map bbv_setAll (l1 bv), l2 := map (map bbv_setAll) (l2 bv)\<rparr>"

definition tbv_empty :: "'a::len word TwoLevelBitVector \<Rightarrow> bool" where
  "tbv_empty bv = list_all bbv_empty (l1 bv)"

definition tbv_setBit :: "nat \<Rightarrow> 'a::len word TwoLevelBitVector \<Rightarrow> nat \<Rightarrow> (bool \<times> 'a word TwoLevelBitVector) option" where
  "tbv_setBit L bv idx = do {
     tbv_check L bv idx;
     i0 \<leftarrow> tbv_idx0 L bv idx; i1 \<leftarrow> tbv_idx1 bv idx; i2 \<leftarrow> tbv_idx2 bv idx;
     x1 \<leftarrow> get1 bv i0;
     g \<leftarrow> bbv_getBit x1 i1;
     bv \<leftarrow> (if \<not> g then do {
               (_, x1) \<leftarrow> bbv_setBit x1 i1; bv \<leftarrow> set1 bv i0 x1;
               x2 \<leftarrow> get2 bv i0 i1; set2 bv i0 i1 (bbv_clear x2) }
             else Some bv);
     x2 \<leftarrow> get2 bv i0 i1;
     (res, x2) \<leftarrow> bbv_setBit x2 i2;
     bv \<leftarrow> set2 bv i0 i1 x2;
     Some (res, bv) }"

text \<open>\<open>if (l2_[i0][i1].empty()) l1_[i0].clearBit(i1)\<close>\<close>

definition tbv_prune :: "'a::len word TwoLevelBitVector \<Rightarrow> nat \<Rightarrow> nat \<Rightarrow> 'a word TwoLevelBitVector option" where
  "tbv_prune bv i0 i1 = do {
     x2 \<leftarrow> get2 bv i0 i1;
     if bbv_empty x2 then do { x1 \<leftarrow> get1 bv i0; (_, x1) \<leftarrow> bbv_clearBit x1 i1; set1 bv i0 x1 } else Some bv }"

definition tbv_clearBit :: "nat \<Rightarrow> 'a::len word TwoLevelBitVector \<Rightarrow> nat \<Rightarrow> (bool \<times> 'a word TwoLevelBitVector) option" where
  "tbv_clearBit L bv idx = do {
     tbv_check L bv idx;
     i0 \<leftarrow> tbv_idx0 L bv idx; i1 \<leftarrow> tbv_idx1 bv idx; i2 \<leftarrow> tbv_idx2 bv idx;
     x1 \<leftarrow> get1 bv i0;
     g \<leftarrow> bbv_getBit x1 i1;
     if g then do {
       x2 \<leftarrow> get2 bv i0 i1;
       (res, x2) \<leftarrow> bbv_clearBit x2 i2;
       bv \<leftarrow> set2 bv i0 i1 x2;
       bv \<leftarrow> tbv_prune bv i0 i1;
       Some (res, bv) }
     else Some (False, bv) }"

definition tbv_getBit :: "nat \<Rightarrow> 'a::len word TwoLevelBitVector \<Rightarrow> nat \<Rightarrow> bool option" where
  "tbv_getBit L bv idx = do {
     tbv_check L bv idx;
     i0 \<leftarrow> tbv_idx0 L bv idx; i1 \<leftarrow> tbv_idx1 bv idx; i2 \<leftarrow> tbv_idx2 bv idx;
     x1 \<leftarrow> get1 bv i0;
     g \<leftarrow> bbv_getBit x1 i1;
     if g then do { x2 \<leftarrow> get2 bv i0 i1; bbv_getBit x2 i2 } else Some False }"

text \<open>The loop over \<open>i0\<close> ends at the first word of the first level that is not empty.\<close>

fun tbv_first_loop :: "nat list \<Rightarrow> 'a::len word TwoLevelBitVector \<Rightarrow> (nat \<times> 'a word TwoLevelBitVector) option" where
  "tbv_first_loop [] bv = do { CHECK False; Some (0, bv) }"
| "tbv_first_loop (i0 # is) bv = do {
     x1 \<leftarrow> get1 bv i0;
     if bbv_empty x1 then tbv_first_loop is bv
     else do {
       (i1, x1) \<leftarrow> bbv_getAndClearFirstOne x1;
       bv \<leftarrow> set1 bv i0 x1;
       x2 \<leftarrow> get2 bv i0 i1;
       (i2, x2) \<leftarrow> bbv_getAndClearFirstOne x2;
       bv \<leftarrow> set2 bv i0 i1 x2;
       bv \<leftarrow> (if \<not> bbv_empty x2 then do { (_, x1) \<leftarrow> bbv_setBit x1 i1; set1 bv i0 x1 } else Some bv);
       Some (i0 * LENGTH('a) * LENGTH('a) + i1 * LENGTH('a) + i2, bv) } }"

definition tbv_getAndClearFirstOne ::
    "nat \<Rightarrow> 'a::len word TwoLevelBitVector \<Rightarrow> (nat \<times> 'a word TwoLevelBitVector) option" where
  "tbv_getAndClearFirstOne L bv = tbv_first_loop [0..<L] bv"

text \<open>The bodies of the loops over \<open>i1\<close> and over \<open>i0\<close> come first.\<close>

definition union_word ::
    "'a::len word TwoLevelBitVector \<Rightarrow> nat \<Rightarrow> nat \<Rightarrow> bool \<times> 'a word TwoLevelBitVector \<Rightarrow> (bool \<times> 'a word TwoLevelBitVector) option" where
  "union_word v i0 i1 = (\<lambda>(res, bv). do {
     x1 \<leftarrow> get1 bv i0;
     (new, x1) \<leftarrow> bbv_setBit x1 i1;
     bv \<leftarrow> set1 bv i0 x1;
     bv \<leftarrow> (if new then do { x2 \<leftarrow> get2 bv i0 i1; set2 bv i0 i1 (bbv_clear x2) } else Some bv);
     x2 \<leftarrow> get2 bv i0 i1;
     v2 \<leftarrow> get2 v i0 i1;
     (changed, x2) \<leftarrow> bbv_setUnion x2 v2;
     bv \<leftarrow> set2 bv i0 i1 x2;
     Some (if changed then True else res, bv) })"

definition union_row ::
    "'a::len word TwoLevelBitVector \<Rightarrow> nat \<Rightarrow> bool \<times> 'a word TwoLevelBitVector \<Rightarrow> (bool \<times> 'a word TwoLevelBitVector) option" where
  "union_row v i0 = (\<lambda>(res, bv). do { t \<leftarrow> get1 v i0; for_each_bit t (union_word v i0) (res, bv) })"

definition tbv_setUnion ::
    "nat \<Rightarrow> 'a::len word TwoLevelBitVector \<Rightarrow> 'a word TwoLevelBitVector \<Rightarrow> (bool \<times> 'a word TwoLevelBitVector) option" where
  "tbv_setUnion L bv v = for_each [0..<L] (union_row v) (False, bv)"

definition intersection_word ::
    "'a::len word TwoLevelBitVector \<Rightarrow> nat \<Rightarrow> nat \<Rightarrow> bool \<times> 'a word TwoLevelBitVector \<Rightarrow> (bool \<times> 'a word TwoLevelBitVector) option" where
  "intersection_word v i0 i1 = (\<lambda>(res, bv). do {
     x2 \<leftarrow> get2 bv i0 i1;
     v2 \<leftarrow> get2 v i0 i1;
     (changed, x2) \<leftarrow> bbv_setIntersection x2 v2;
     bv \<leftarrow> set2 bv i0 i1 x2;
     bv \<leftarrow> tbv_prune bv i0 i1;
     Some (if changed then True else res, bv) })"

definition intersection_row ::
    "'a::len word TwoLevelBitVector \<Rightarrow> nat \<Rightarrow> bool \<times> 'a word TwoLevelBitVector \<Rightarrow> (bool \<times> 'a word TwoLevelBitVector) option" where
  "intersection_row v i0 = (\<lambda>(res, bv). do {
     x1 \<leftarrow> get1 bv i0;
     v1 \<leftarrow> get1 v i0;
     (changed, x1) \<leftarrow> bbv_setIntersection x1 v1;
     bv \<leftarrow> set1 bv i0 x1;
     let res = (if changed then True else res);
     if \<not> bbv_empty x1 then for_each_bit x1 (intersection_word v i0) (res, bv) else Some (res, bv) })"

definition tbv_setIntersection ::
    "nat \<Rightarrow> 'a::len word TwoLevelBitVector \<Rightarrow> 'a word TwoLevelBitVector \<Rightarrow> (bool \<times> 'a word TwoLevelBitVector) option" where
  "tbv_setIntersection L bv v = for_each [0..<L] (intersection_row v) (False, bv)"

definition difference_word ::
    "'a::len word TwoLevelBitVector \<Rightarrow> nat \<Rightarrow> nat \<Rightarrow> bool \<times> 'a word TwoLevelBitVector \<Rightarrow> (bool \<times> 'a word TwoLevelBitVector) option" where
  "difference_word v i0 i1 = (\<lambda>(res, bv). do {
     x2 \<leftarrow> get2 bv i0 i1;
     v2 \<leftarrow> get2 v i0 i1;
     (changed, x2) \<leftarrow> bbv_setDifference x2 v2;
     bv \<leftarrow> set2 bv i0 i1 x2;
     bv \<leftarrow> tbv_prune bv i0 i1;
     Some (if changed then True else res, bv) })"

definition difference_row ::
    "'a::len word TwoLevelBitVector \<Rightarrow> nat \<Rightarrow> bool \<times> 'a word TwoLevelBitVector \<Rightarrow> (bool \<times> 'a word TwoLevelBitVector) option" where
  "difference_row v i0 = (\<lambda>(res, bv). do {
     t \<leftarrow> get1 bv i0;
     v1 \<leftarrow> get1 v i0;
     (_, t) \<leftarrow> bbv_setIntersection t v1;
     for_each_bit t (difference_word v i0) (res, bv) })"

definition tbv_setDifference ::
    "nat \<Rightarrow> 'a::len word TwoLevelBitVector \<Rightarrow> 'a word TwoLevelBitVector \<Rightarrow> (bool \<times> 'a word TwoLevelBitVector) option" where
  "tbv_setDifference L bv v = for_each [0..<L] (difference_row v) (False, bv)"

definition tbv_copyFrom ::
    "nat \<Rightarrow> 'a::len word TwoLevelBitVector \<Rightarrow> 'a word TwoLevelBitVector \<Rightarrow> 'a word TwoLevelBitVector option" where
  "tbv_copyFrom L bv v = do { (_, bv) \<leftarrow> tbv_setUnion L (tbv_clear bv) v; Some bv }"

definition tbv_intersectsWith :: "nat \<Rightarrow> 'a::len word TwoLevelBitVector \<Rightarrow> 'a word TwoLevelBitVector \<Rightarrow> bool option" where
  "tbv_intersectsWith L bv v =
     exists_each [0..<L] (\<lambda>i0. do {
       t \<leftarrow> get1 bv i0;
       v1 \<leftarrow> get1 v i0;
       (_, t) \<leftarrow> bbv_setIntersection t v1;
       exists_bit t (\<lambda>i1. do {
         g \<leftarrow> bbv_getBit v1 i1;
         if \<not> g then Some False
         else do { x2 \<leftarrow> get2 bv i0 i1; v2 \<leftarrow> get2 v i0 i1; bbv_intersectsWith x2 v2 } }) })"

text \<open>The iterator, with the members \<open>bv_\<close>, \<open>i0_\<close>, \<open>i1_\<close>, \<open>it1_\<close> and \<open>it2_\<close>.\<close>

record 'a tbv_iterator =
  it_bv :: "'a TwoLevelBitVector"
  it_i0 :: nat
  it_i1 :: nat
  it1 :: 'a
  it2 :: 'a

definition tbv_begin :: "'a::len word TwoLevelBitVector \<Rightarrow> 'a word tbv_iterator" where
  "tbv_begin bv = \<lparr>it_bv = bv, it_i0 = 0, it_i1 = 0, it1 = bbv_clear 0, it2 = bbv_clear 0\<rparr>"

definition tbv_hasNext :: "nat \<Rightarrow> 'a::len word tbv_iterator \<Rightarrow> bool" where
  "tbv_hasNext L it =
    (if bbv_hasNext (it1 it) then True else \<not> list_all bbv_empty (drop (it_i0 it) (take L (l1 (it_bv it)))))"

fun tbv_seek :: "nat list \<Rightarrow> 'a::len word tbv_iterator \<Rightarrow> 'a word tbv_iterator option" where
  "tbv_seek [] it = Some it"
| "tbv_seek (i0 # is) it = do {
     x1 \<leftarrow> get1 (it_bv it) i0;
     if bbv_empty x1 then tbv_seek is (it\<lparr>it_i0 := Suc i0\<rparr>)
     else Some (it\<lparr>it_i0 := i0, it1 := bbv_begin x1\<rparr>) }"

definition tbv_next :: "nat \<Rightarrow> 'a::len word tbv_iterator \<Rightarrow> (nat \<times> 'a word tbv_iterator) option" where
  "tbv_next L it = do {
     it \<leftarrow> (if \<not> bbv_hasNext (it1 it) \<and> \<not> bbv_hasNext (it2 it) then tbv_seek [it_i0 it..<L] it else Some it);
     it \<leftarrow> (if \<not> bbv_hasNext (it2 it) then do {
               CHECK (bbv_hasNext (it1 it));
               (i1, r1) \<leftarrow> bbv_next (it1 it);
               x2 \<leftarrow> get2 (it_bv it) (it_i0 it) i1;
               Some (it\<lparr>it_i1 := i1, it1 := r1, it2 := bbv_begin x2\<rparr>) }
             else Some it);
     CHECK (bbv_hasNext (it2 it));
     (i2, r2) \<leftarrow> bbv_next (it2 it);
     let it = it\<lparr>it2 := r2\<rparr>;
     let res = it_i0 it * LENGTH('a) * LENGTH('a) + it_i1 it * LENGTH('a) + i2;
     Some (res, if \<not> bbv_hasNext (it1 it) \<and> \<not> bbv_hasNext (it2 it) then it\<lparr>it_i0 := Suc (it_i0 it)\<rparr> else it) }"

definition TwoLevelBitVector_ops :: "nat \<Rightarrow> ('a::len word TwoLevelBitVector, 'a word tbv_iterator) BV" where
  "TwoLevelBitVector_ops L = \<lparr>kSize = LENGTH('a) * LENGTH('a) * L, bv_clear = tbv_clear, bv_setAll = tbv_setAll,
    bv_empty = tbv_empty, bv_setBit = tbv_setBit L, bv_clearBit = tbv_clearBit L, bv_getBit = tbv_getBit L,
    bv_getAndClearFirstOne = tbv_getAndClearFirstOne L, bv_setUnion = tbv_setUnion L,
    bv_setIntersection = tbv_setIntersection L, bv_setDifference = tbv_setDifference L, bv_copyFrom = tbv_copyFrom L,
    bv_intersectsWith = tbv_intersectsWith L, bv_begin = tbv_begin, bv_hasNext = tbv_hasNext L, bv_next = tbv_next L\<rparr>"

section \<open>The loops as loops over sorted indices\<close>

lemma for_each_bit_eq: "for_each_bit t body s = for_each (sorted_list_of_set (bits t)) body s"
proof (induction t body s rule: for_each_bit.induct)
  case (1 t body s)
  show ?case
  proof (cases "t = 0")
    case True
    then show ?thesis by (simp add: for_each_bit.simps bbv_empty_def)
  next
    case False
    then obtain t' where t': "bbv_getAndClearFirstOne t = Some (Min (bits t), t')" "bits t' = bits t - {Min (bits t)}"
      using bbv_first_eq by blast
    have "for_each_bit t' body s' = for_each (sorted_list_of_set (bits t')) body s'" if "body (Min (bits t)) s = Some s'" for s'
      using "1.IH" [OF _ t'(1) refl that] False by (simp add: bbv_empty_def)
    then show ?thesis
      using False t' by (cases "body (Min (bits t)) s")
        (simp_all add: for_each_bit.simps [of t] bbv_empty_def sorted_list_of_set_nonempty)
  qed
qed

lemma exists_bit_eq: "exists_bit t P = exists_each (sorted_list_of_set (bits t)) P"
proof (induction t P rule: exists_bit.induct)
  case (1 t P)
  show ?case
  proof (cases "t = 0")
    case True
    then show ?thesis by (simp add: exists_bit.simps bbv_empty_def)
  next
    case False
    then obtain t' where t': "bbv_getAndClearFirstOne t = Some (Min (bits t), t')" "bits t' = bits t - {Min (bits t)}"
      using bbv_first_eq by blast
    have "exists_bit t' P = exists_each (sorted_list_of_set (bits t')) P" if "P (Min (bits t)) = Some False"
      using "1.IH" [OF _ t'(1) refl that] False by (simp add: bbv_empty_def)
    then show ?thesis
      using False t' by (cases "P (Min (bits t))")
        (auto simp: exists_bit.simps [of t] bbv_empty_def sorted_list_of_set_nonempty)
  qed
qed

lemma exists_each_eq: "(\<And>i. i \<in> set is \<Longrightarrow> P i = Some (Q i)) \<Longrightarrow> exists_each is P = Some (\<exists>i\<in>set is. Q i)"
  by (induction "is") auto

lemma for_each_bit_rule:
  assumes "I {} s"
    and "\<And>i D s. i \<in> bits t \<Longrightarrow> i \<notin> D \<Longrightarrow> I D s \<Longrightarrow> \<exists>s'. body i s = Some s' \<and> I (insert i D) s'"
  obtains s' where "for_each_bit t body s = Some s'" "I (bits t) s'"
  using for_each_rule [of "sorted_list_of_set (bits t)" I s body] assms unfolding for_each_bit_eq by auto

section \<open>The invariant and the words that count\<close>

definition tbv_shape :: "nat \<Rightarrow> 'a::len word TwoLevelBitVector \<Rightarrow> bool" where
  "tbv_shape L bv \<longleftrightarrow> length (l1 bv) = L \<and> length (l2 bv) = L \<and> (\<forall>row\<in>set (l2 bv). length row = LENGTH('a))"

definition tbv_valid :: "nat \<Rightarrow> 'a::len word TwoLevelBitVector \<Rightarrow> bool" where
  "tbv_valid L bv \<longleftrightarrow> tbv_shape L bv \<and> (\<forall>i0<L. \<forall>i1\<in>bits (l1 bv ! i0). l2 bv ! i0 ! i1 \<noteq> 0)"

definition eff :: "'a::len word TwoLevelBitVector \<Rightarrow> nat \<Rightarrow> nat \<Rightarrow> 'a word" where
  "eff bv i0 i1 = (if i1 \<in> bits (l1 bv ! i0) then l2 bv ! i0 ! i1 else 0)"

definition tbv_elems :: "nat \<Rightarrow> 'a::len word TwoLevelBitVector \<Rightarrow> nat set" where
  "tbv_elems L bv = {idx. idx < LENGTH('a) * LENGTH('a) * L \<and>
     idx mod LENGTH('a) \<in> bits (eff bv (idx div (LENGTH('a) * LENGTH('a))) (idx div LENGTH('a) mod LENGTH('a)))}"

text \<open>Accesses within the shape.\<close>

lemma access:
  fixes bv :: "'a::len word TwoLevelBitVector"
  assumes "tbv_shape L bv" "i0 < L"
  shows "get1 bv i0 = Some (l1 bv ! i0)" "set1 bv i0 x = Some (bv\<lparr>l1 := (l1 bv)[i0 := x]\<rparr>)"
    "i1 < LENGTH('a) \<Longrightarrow> get2 bv i0 i1 = Some (l2 bv ! i0 ! i1)"
    "i1 < LENGTH('a) \<Longrightarrow> set2 bv i0 i1 x = Some (bv\<lparr>l2 := (l2 bv)[i0 := (l2 bv ! i0)[i1 := x]]\<rparr>)"
  using assms by (auto simp: get1_def set1_def get2_def set2_def tbv_shape_def)

text \<open>The object with the word \<open>x1\<close> of the first and \<open>x2\<close> of the second level replaced.\<close>

definition upd :: "'a::len word TwoLevelBitVector \<Rightarrow> nat \<Rightarrow> nat \<Rightarrow> 'a word \<Rightarrow> 'a word \<Rightarrow> 'a word TwoLevelBitVector" where
  "upd bv i0 i1 x1 x2 = bv\<lparr>l1 := (l1 bv)[i0 := x1], l2 := (l2 bv)[i0 := (l2 bv ! i0)[i1 := x2]]\<rparr>"

lemma upd_shape: "tbv_shape L bv \<Longrightarrow> i0 < L \<Longrightarrow> tbv_shape L (upd bv i0 i1 x1 x2)"
  by (auto simp: tbv_shape_def upd_def dest!: set_update_subset_insert [THEN subsetD])

lemma upd_correct:
  fixes bv :: "'a::len word TwoLevelBitVector"
  assumes v: "tbv_valid L bv" and i: "i0 < L" "i1 < LENGTH('a)"
    and x1: "bits x1 - {i1} = bits (l1 bv ! i0) - {i1}" "i1 \<in> bits x1 \<longleftrightarrow> x2 \<noteq> 0"
  shows "tbv_valid L (upd bv i0 i1 x1 x2)"
    "eff (upd bv i0 i1 x1 x2) j0 j1 = (if j0 = i0 \<and> j1 = i1 then x2 else eff bv j0 j1)"
proof -
  have len: "length (l1 bv) = L" "length (l2 bv) = L" "length (l2 bv ! i0) = LENGTH('a)"
    using v i by (auto simp: tbv_valid_def tbv_shape_def)
  have b: "j \<in> bits x1 \<longleftrightarrow> (if j = i1 then x2 \<noteq> 0 else j \<in> bits (l1 bv ! i0))" for j using x1 by auto
  show "tbv_valid L (upd bv i0 i1 x1 x2)"
    using v i upd_shape [of L bv i0 i1 x1 x2] len
    by (auto simp: tbv_valid_def upd_def nth_list_update b)
  show "eff (upd bv i0 i1 x1 x2) j0 j1 = (if j0 = i0 \<and> j1 = i1 then x2 else eff bv j0 j1)"
    using i len by (auto simp: eff_def upd_def nth_list_update b)
qed

lemma shape_update [simp]:
  "tbv_shape L (bv\<lparr>l1 := (l1 bv)[i := x]\<rparr>) \<longleftrightarrow> tbv_shape L bv"
  "tbv_shape L bv \<Longrightarrow> i < L \<Longrightarrow> tbv_shape L (bv\<lparr>l2 := (l2 bv)[i := (l2 bv ! i)[j := y]]\<rparr>)"
  "tbv_shape L bv \<Longrightarrow> i < L \<Longrightarrow> tbv_shape L (bv\<lparr>l1 := (l1 bv)[k := x], l2 := (l2 bv)[i := (l2 bv ! i)[j := y]]\<rparr>)"
  by (auto simp: tbv_shape_def dest!: set_update_subset_insert [THEN subsetD])

section \<open>Indices\<close>

text \<open>The three coordinates of an index below \<open>kSize\<close>.\<close>

lemma coordinates:
  fixes bv :: "'a::len word TwoLevelBitVector"
  assumes "idx < LENGTH('a) * LENGTH('a) * L"
  obtains i0 i1 i2 where "i0 < L" "i1 < LENGTH('a)" "i2 < LENGTH('a)"
    "idx div (LENGTH('a) * LENGTH('a)) = i0" "idx div LENGTH('a) mod LENGTH('a) = i1" "idx mod LENGTH('a) = i2"
    "tbv_check L bv idx = Some ()" "tbv_idx0 L bv idx = Some i0" "tbv_idx1 bv idx = Some i1" "tbv_idx2 bv idx = Some i2"
    "idx = i0 * LENGTH('a) * LENGTH('a) + i1 * LENGTH('a) + i2"
proof -
  have i0: "idx div (LENGTH('a) * LENGTH('a)) < L" using assms by (simp add: less_mult_imp_div_less mult.commute)
  have "idx = idx div LENGTH('a) div LENGTH('a) * LENGTH('a) * LENGTH('a) + idx div LENGTH('a) mod LENGTH('a) * LENGTH('a) + idx mod LENGTH('a)"
    by (metis add_mult_distrib div_mult_mod_eq)
  then show ?thesis
    using that [of "idx div (LENGTH('a) * LENGTH('a))" "idx div LENGTH('a) mod LENGTH('a)" "idx mod LENGTH('a)"] i0 assms
    by (simp add: tbv_check_def tbv_kSize_def tbv_idx0_def tbv_idx1_def tbv_idx2_def Let_def less_imp_le div_mult2_eq)
qed

lemma compose:
  fixes i0 i1 i2 :: nat
  assumes "i1 < K" "i2 < K"
  shows "(i0 * K * K + i1 * K + i2) div (K * K) = i0" "(i0 * K * K + i1 * K + i2) div K mod K = i1"
    "(i0 * K * K + i1 * K + i2) mod K = i2"
proof -
  have e: "i0 * K * K + i1 * K + i2 = (i0 * K + i1) * K + i2" by (simp add: algebra_simps)
  show "(i0 * K * K + i1 * K + i2) div (K * K) = i0" "(i0 * K * K + i1 * K + i2) div K mod K = i1"
    "(i0 * K * K + i1 * K + i2) mod K = i2"
    unfolding e div_mult2_eq using assms by simp_all
qed

lemma index_less: "i0 < L \<Longrightarrow> i1 < K \<Longrightarrow> i2 < K \<Longrightarrow> i0 * K * K + i1 * K + i2 < K * K * (L :: nat)"
proof -
  assume a: "i0 < L" "i1 < K" "i2 < K"
  have "i1 * K + i2 < Suc i1 * K" using a by simp
  also have "\<dots> \<le> K * K" using a by (intro mult_right_mono) simp_all
  finally have "i0 * K * K + i1 * K + i2 < Suc i0 * (K * K)" by (simp add: algebra_simps)
  also have "\<dots> \<le> L * (K * K)" using a by (intro mult_right_mono) simp_all
  finally show ?thesis by (simp add: mult.commute)
qed

text \<open>The set of an object depends on its words; a change of one word changes the set there.\<close>

lemma elems_iff:
  fixes bv :: "'a::len word TwoLevelBitVector"
  assumes "i0 < L" "i1 < LENGTH('a)" "i2 < LENGTH('a)"
  shows "i0 * LENGTH('a) * LENGTH('a) + i1 * LENGTH('a) + i2 \<in> tbv_elems L bv \<longleftrightarrow> i2 \<in> bits (eff bv i0 i1)"
  unfolding tbv_elems_def using assms index_less [OF assms] by (simp add: compose)

lemma elems_eqI:
  fixes bv :: "'a::len word TwoLevelBitVector"
  assumes "\<And>i0 i1 i2. i0 < L \<Longrightarrow> i1 < LENGTH('a) \<Longrightarrow> i2 < LENGTH('a) \<Longrightarrow>
      (i2 \<in> bits (eff bv i0 i1) \<longleftrightarrow> i0 * LENGTH('a) * LENGTH('a) + i1 * LENGTH('a) + i2 \<in> S)"
    and "S \<subseteq> {..<LENGTH('a) * LENGTH('a) * L}"
  shows "tbv_elems L bv = S"
proof (rule set_eqI)
  fix idx
  show "idx \<in> tbv_elems L bv \<longleftrightarrow> idx \<in> S"
  proof (cases "idx < LENGTH('a) * LENGTH('a) * L")
    case True
    then show ?thesis using assms(1) elems_iff [of _ L _ _ bv] coordinates [OF True, of bv] by metis
  next
    case False
    then show ?thesis using assms(2) by (auto simp: tbv_elems_def)
  qed
qed

lemma index_eq_iff:
  fixes i0 i1 i2 :: nat
  assumes "i1 < K" "i2 < K" "j1 < K" "j2 < K"
  shows "i0 * K * K + i1 * K + i2 = j0 * K * K + j1 * K + j2 \<longleftrightarrow> i0 = j0 \<and> i1 = j1 \<and> i2 = j2"
  using compose [of i1 K i2 i0] compose [of j1 K j2 j0] assms by metis

lemma elems_bounded: "tbv_elems L bv \<subseteq> {..<LENGTH('a) * LENGTH('a) * L}"
  for bv :: "'a::len word TwoLevelBitVector"
  by (auto simp: tbv_elems_def)

lemma eff_outside: "\<not> i1 < LENGTH('a) \<Longrightarrow> eff bv i0 i1 = 0"
  for bv :: "'a::len word TwoLevelBitVector"
  using bits_bound [of "l1 bv ! i0"] by (auto simp: eff_def)

lemma elems_change: "(\<exists>i0<L. \<exists>i1. eff b' i0 i1 \<noteq> eff b i0 i1) \<longleftrightarrow> tbv_elems L b' \<noteq> tbv_elems L b"
  for b b' :: "'a::len word TwoLevelBitVector"
proof
  assume "\<exists>i0<L. \<exists>i1. eff b' i0 i1 \<noteq> eff b i0 i1"
  then obtain i0 i1 where i: "i0 < L" "eff b' i0 i1 \<noteq> eff b i0 i1" by blast
  then have "i1 < LENGTH('a)" using eff_outside by metis
  moreover obtain i2 where i2: "i2 \<in> bits (eff b' i0 i1) \<longleftrightarrow> i2 \<notin> bits (eff b i0 i1)"
    using i(2) bits_eq_iff [of "eff b' i0 i1" "eff b i0 i1"] by blast
  moreover have "i2 < LENGTH('a)" using i2 bits_bound by blast
  ultimately show "tbv_elems L b' \<noteq> tbv_elems L b" using elems_iff [OF i(1)] by metis
next
  assume "tbv_elems L b' \<noteq> tbv_elems L b"
  then have "\<not> (\<forall>i0<L. \<forall>i1. eff b' i0 i1 = eff b i0 i1)"
    by (auto simp: tbv_elems_def less_mult_imp_div_less mult.commute)
  then show "\<exists>i0<L. \<exists>i1. eff b' i0 i1 \<noteq> eff b i0 i1" by blast
qed

section \<open>Operations on one bit\<close>

text \<open>Replacing the word at the coordinates of an index.\<close>

lemma elems_upd:
  fixes bv bv' :: "'a::len word TwoLevelBitVector"
  assumes e: "\<And>j0 j1. eff bv' j0 j1 = (if j0 = i0 \<and> j1 = i1 then w else eff bv j0 j1)"
    and i: "i0 < L" "i1 < LENGTH('a)" "i2 < LENGTH('a)" "idx = i0 * LENGTH('a) * LENGTH('a) + i1 * LENGTH('a) + i2"
  shows "bits w = insert i2 (bits (eff bv i0 i1)) \<Longrightarrow> tbv_elems L bv' = insert idx (tbv_elems L bv)"
    "bits w = bits (eff bv i0 i1) - {i2} \<Longrightarrow> tbv_elems L bv' = tbv_elems L bv - {idx}"
proof -
  note iff = elems_iff [of _ L _ _ bv] and eq = index_eq_iff [of _ "LENGTH('a)" _ i1 i2 _ i0]
  show "tbv_elems L bv' = insert idx (tbv_elems L bv)" if "bits w = insert i2 (bits (eff bv i0 i1))"
    by (rule elems_eqI) (use i that elems_bounded [of L bv] index_less [OF i(1-3)] in \<open>auto simp: e iff eq\<close>)
  show "tbv_elems L bv' = tbv_elems L bv - {idx}" if "bits w = bits (eff bv i0 i1) - {i2}"
    by (rule elems_eqI) (use i that elems_bounded [of L bv] in \<open>auto simp: e iff eq\<close>)
qed

lemma valid_shape: "tbv_valid L bv \<Longrightarrow> tbv_shape L bv"
  by (simp add: tbv_valid_def)

lemma tbv_setBit_correct:
  fixes bv :: "'a::len word TwoLevelBitVector"
  assumes v: "tbv_valid L bv" and idx: "idx < LENGTH('a) * LENGTH('a) * L"
  shows "\<exists>bv'. tbv_setBit L bv idx = Some (idx \<notin> tbv_elems L bv, bv') \<and> tbv_valid L bv' \<and> tbv_elems L bv' = insert idx (tbv_elems L bv)"
proof -
  obtain i0 i1 i2 where i: "i0 < L" "i1 < LENGTH('a)" "i2 < LENGTH('a)" "tbv_check L bv idx = Some ()" "tbv_idx0 L bv idx = Some i0"
    "tbv_idx1 bv idx = Some i1" "tbv_idx2 bv idx = Some i2" "idx = i0 * LENGTH('a) * LENGTH('a) + i1 * LENGTH('a) + i2"
    using coordinates [OF idx, of bv] by metis
  define x1 x2 where "x1 = l1 bv ! i0 OR push_bit i1 1" and "x2 = eff bv i0 i1 OR push_bit i2 1"
  have x1: "bits x1 = insert i1 (bits (l1 bv ! i0))" and x2: "bits x2 = insert i2 (bits (eff bv i0 i1))"
    by (simp_all add: x1_def x2_def bits_single i del: push_bit_of_1)
  note s = valid_shape [OF v]
  have len: "length (l1 bv) = L" "length (l2 bv) = L" "length (l2 bv ! i0) = LENGTH('a)" using s i(1) by (auto simp: tbv_shape_def)
  have e: "tbv_setBit L bv idx = Some (i2 \<notin> bits (eff bv i0 i1), upd bv i0 i1 x1 x2)"
  proof (cases "i1 \<in> bits (l1 bv ! i0)")
    case True
    then have "x1 = l1 bv ! i0" using x1 by (auto simp flip: bits_eq_iff)
    then show ?thesis
      using True i s len bbv_setBit_eq [of i2 "l2 bv ! i0 ! i1"]
      by (simp add: tbv_setBit_def access [of L] bbv_getBit_eq upd_def eff_def x2_def)
  next
    case False
    then show ?thesis
      using i s len bbv_setBit_eq [of i1 "l1 bv ! i0"] bbv_setBit_eq [of i2 "0 :: 'a word"]
      by (simp add: tbv_setBit_def access [of L] bbv_getBit_eq bbv_clear_def upd_def eff_def x1_def x2_def)
  qed
  note u = upd_correct [OF v i(1,2), of x1 x2]
  have "x2 \<noteq> 0" using x2 by auto
  then show ?thesis
    using e u elems_upd(1) [OF u(2) i(1,2,3,8)] x1 x2 elems_iff [OF i(1-3), of bv] i(8) by auto
qed

text \<open>The second level word replaced by \<open>w\<close>, and the first level bit cleared when it is empty.\<close>

lemma prune_correct:
  fixes bv :: "'a::len word TwoLevelBitVector"
  assumes v: "tbv_valid L bv" and i: "i0 < L" "i1 < LENGTH('a)" "i1 \<in> bits (l1 bv ! i0)"
  shows "\<exists>bv'. do { bv \<leftarrow> set2 bv i0 i1 w; tbv_prune bv i0 i1 } = Some bv' \<and> tbv_valid L bv' \<and>
    (\<forall>j0 j1. eff bv' j0 j1 = (if j0 = i0 \<and> j1 = i1 then w else eff bv j0 j1)) \<and>
    bits (l1 bv' ! i0) = (if w = 0 then bits (l1 bv ! i0) - {i1} else bits (l1 bv ! i0)) \<and> (\<forall>j0. j0 \<noteq> i0 \<longrightarrow> l1 bv' ! j0 = l1 bv ! j0)"
proof -
  note s = valid_shape [OF v]
  have len: "length (l1 bv) = L" "length (l2 bv) = L" "length (l2 bv ! i0) = LENGTH('a)" using s i(1) by (auto simp: tbv_shape_def)
  define x1 where "x1 = (if w = 0 then l1 bv ! i0 AND NOT (push_bit i1 1) else l1 bv ! i0)"
  have x1: "bits x1 = (if w = 0 then bits (l1 bv ! i0) - {i1} else bits (l1 bv ! i0))"
    by (simp add: x1_def bits_single i del: push_bit_of_1)
  have "do { bv \<leftarrow> set2 bv i0 i1 w; tbv_prune bv i0 i1 } = Some (upd bv i0 i1 x1 w)"
    using i s len bbv_clearBit_eq [of i1 "l1 bv ! i0"]
    by (simp add: tbv_prune_def access [of L] bbv_empty_def upd_def x1_def)
  then show ?thesis
    using upd_correct [OF v i(1,2), of x1 w] x1 i len by (auto simp: upd_def nth_list_update)
qed

lemma tbv_clearBit_correct:
  fixes bv :: "'a::len word TwoLevelBitVector"
  assumes v: "tbv_valid L bv" and idx: "idx < LENGTH('a) * LENGTH('a) * L"
  shows "\<exists>bv'. tbv_clearBit L bv idx = Some (idx \<in> tbv_elems L bv, bv') \<and> tbv_valid L bv' \<and> tbv_elems L bv' = tbv_elems L bv - {idx}"
proof -
  obtain i0 i1 i2 where i: "i0 < L" "i1 < LENGTH('a)" "i2 < LENGTH('a)" "tbv_check L bv idx = Some ()" "tbv_idx0 L bv idx = Some i0"
    "tbv_idx1 bv idx = Some i1" "tbv_idx2 bv idx = Some i2" "idx = i0 * LENGTH('a) * LENGTH('a) + i1 * LENGTH('a) + i2"
    using coordinates [OF idx, of bv] by metis
  note s = valid_shape [OF v] and m = elems_iff [OF i(1-3), of bv, folded i(8)]
  show ?thesis
  proof (cases "i1 \<in> bits (l1 bv ! i0)")
    case True
    obtain w where w: "bbv_clearBit (l2 bv ! i0 ! i1) i2 = Some (i2 \<in> bits (l2 bv ! i0 ! i1), w)" "bits w = bits (l2 bv ! i0 ! i1) - {i2}"
      using bbv_clearBit_eq [OF i(3), of "l2 bv ! i0 ! i1"] by auto
    obtain bv' where p: "do { bv \<leftarrow> set2 bv i0 i1 w; tbv_prune bv i0 i1 } = Some bv'" "tbv_valid L bv'"
      "\<And>j0 j1. eff bv' j0 j1 = (if j0 = i0 \<and> j1 = i1 then w else eff bv j0 j1)"
      using prune_correct [OF v i(1,2) True, of w] by blast
    have e: "eff bv i0 i1 = l2 bv ! i0 ! i1" using True by (simp add: eff_def)
    have "tbv_clearBit L bv idx = do { b \<leftarrow> do { bv \<leftarrow> set2 bv i0 i1 w; tbv_prune bv i0 i1 }; Some (idx \<in> tbv_elems L bv, b) }"
      using True i(1-7) s w(1) m unfolding tbv_clearBit_def by (simp add: access [of L] bbv_getBit_eq e)
    then show ?thesis using p elems_upd(2) [of bv' i0 i1 w bv, OF p(3) i(1-3) i(8)] w(2) by (simp add: e)
  next
    case False
    then show ?thesis using v i s m by (simp add: tbv_clearBit_def access [of L] bbv_getBit_eq eff_def)
  qed
qed

lemma tbv_getBit_correct:
  fixes bv :: "'a::len word TwoLevelBitVector"
  assumes v: "tbv_valid L bv" and idx: "idx < LENGTH('a) * LENGTH('a) * L"
  shows "tbv_getBit L bv idx = Some (idx \<in> tbv_elems L bv)"
proof -
  obtain i0 i1 i2 where i: "i0 < L" "i1 < LENGTH('a)" "i2 < LENGTH('a)" "tbv_check L bv idx = Some ()" "tbv_idx0 L bv idx = Some i0"
    "tbv_idx1 bv idx = Some i1" "tbv_idx2 bv idx = Some i2" "idx = i0 * LENGTH('a) * LENGTH('a) + i1 * LENGTH('a) + i2"
    using coordinates [OF idx, of bv] by metis
  then show ?thesis
    using valid_shape [OF v] elems_iff [OF i(1-3), of bv, folded i(8)] by (simp add: tbv_getBit_def access [of L] bbv_getBit_eq eff_def)
qed

text \<open>The checks admit the index \<open>kSize\<close>, whose word lies outside of the arrays.\<close>

lemma tbv_check_too_weak:
  fixes bv :: "'a::len word TwoLevelBitVector"
  assumes "tbv_shape L bv"
  shows "tbv_check L bv (tbv_kSize L bv) = Some ()" "tbv_idx0 L bv (tbv_kSize L bv) = Some L" "get1 bv L = None"
  using assms by (simp_all add: tbv_check_def tbv_kSize_def tbv_idx0_def get1_def array_get_def tbv_shape_def)

section \<open>Operations on sets\<close>

text \<open>For a valid object the first level is determined by the words that count.\<close>

lemma eff_nonzero: "tbv_valid L b \<Longrightarrow> i0 < L \<Longrightarrow> i1 \<in> bits (l1 b ! i0) \<longleftrightarrow> eff b i0 i1 \<noteq> 0"
  by (auto simp: tbv_valid_def eff_def)

lemma row_loop:
  assumes v: "tbv_valid L b0"
    and step: "\<And>i1 r b. i1 \<in> bits t \<Longrightarrow> tbv_valid L b \<Longrightarrow> eff b i0 i1 = eff b0 i0 i1 \<Longrightarrow>
      \<exists>b'. body i1 (r, b) = Some (r \<or> f i1 \<noteq> eff b0 i0 i1, b') \<and> tbv_valid L b' \<and>
        (\<forall>j0 j1. eff b' j0 j1 = (if j0 = i0 \<and> j1 = i1 then f i1 else eff b j0 j1))"
    and rest: "\<And>i1. i1 \<notin> bits t \<Longrightarrow> f i1 = eff b0 i0 i1"
  shows "\<exists>b'. for_each_bit t body (r, b0) = Some (r \<or> (\<exists>i1. f i1 \<noteq> eff b0 i0 i1), b') \<and> tbv_valid L b' \<and>
    (\<forall>j0 j1. eff b' j0 j1 = (if j0 = i0 then f j1 else eff b0 j0 j1))"
proof -
  define I where "I D s \<longleftrightarrow> fst s = (r \<or> (\<exists>i1\<in>D. f i1 \<noteq> eff b0 i0 i1)) \<and> tbv_valid L (snd s) \<and>
    (\<forall>j0 j1. eff (snd s) j0 j1 = (if j0 = i0 \<and> j1 \<in> D then f j1 else eff b0 j0 j1))" for D s
  have base: "I {} (r, b0)" using v by (simp add: I_def)
  have "\<exists>s'. body i s = Some s' \<and> I (insert i D) s'" if "i \<in> bits t" "i \<notin> D" "I D s" for i D s
    using step [of i "snd s" "fst s"] that by (auto simp: I_def)
  from for_each_bit_rule [of I "(r, b0)" t body, OF base this] obtain s' where s': "for_each_bit t body (r, b0) = Some s'" "I (bits t) s'" by blast
  have "(\<exists>i1\<in>bits t. f i1 \<noteq> eff b0 i0 i1) \<longleftrightarrow> (\<exists>i1. f i1 \<noteq> eff b0 i0 i1)" using rest by blast
  with s' rest show ?thesis by (cases s') (auto simp: I_def)
qed

lemma rows_loop:
  assumes v: "tbv_valid L b0"
    and step: "\<And>i0 r b. i0 < L \<Longrightarrow> tbv_valid L b \<Longrightarrow> (\<forall>j1. eff b i0 j1 = eff b0 i0 j1) \<Longrightarrow>
      \<exists>b'. body i0 (r, b) = Some (r \<or> (\<exists>i1. f i0 i1 \<noteq> eff b0 i0 i1), b') \<and> tbv_valid L b' \<and>
        (\<forall>j0 j1. eff b' j0 j1 = (if j0 = i0 then f i0 j1 else eff b j0 j1))"
  shows "\<exists>b'. for_each [0..<L] body (False, b0) = Some (tbv_elems L b' \<noteq> tbv_elems L b0, b') \<and> tbv_valid L b' \<and>
    (\<forall>j0<L. \<forall>j1. eff b' j0 j1 = f j0 j1)"
proof -
  define I where "I D s \<longleftrightarrow> fst s = (\<exists>i0\<in>D. \<exists>i1. f i0 i1 \<noteq> eff b0 i0 i1) \<and> tbv_valid L (snd s) \<and>
    (\<forall>j0 j1. eff (snd s) j0 j1 = (if j0 \<in> D then f j0 j1 else eff b0 j0 j1))" for D s
  have base: "I {} (False, b0)" using v by (simp add: I_def)
  have "\<exists>s'. body i s = Some s' \<and> I (insert i D) s'" if "i \<in> set [0..<L]" "i \<notin> D" "I D s" for i D s
    using step [of i "snd s" "fst s"] that by (auto simp: I_def)
  from for_each_rule [of "[0..<L]" I "(False, b0)" body, OF _ base this] obtain r b' where s': "for_each [0..<L] body (False, b0) = Some (r, b')"
    "I (set [0..<L]) (r, b')" by (metis distinct_upt surj_pair)
  then have e: "\<forall>j0<L. \<forall>j1. eff b' j0 j1 = f j0 j1" "r = (\<exists>i0<L. \<exists>i1. eff b' i0 i1 \<noteq> eff b0 i0 i1)" by (auto simp: I_def)
  have "r = (tbv_elems L b' \<noteq> tbv_elems L b0)" unfolding e(2) by (rule elems_change)
  with s' e show ?thesis by (auto simp: I_def)
qed

text \<open>The loop over the rows, each of which replaces its words \<open>w\<close> by \<open>g i0 i1 w\<close>.\<close>

lemma rows_of_op:
  assumes b: "tbv_valid L b"
    and row: "\<And>i0 c f r. i0 < L \<Longrightarrow> tbv_valid L c \<Longrightarrow> (\<And>i1. f i1 = g i0 i1 (eff c i0 i1)) \<Longrightarrow>
      \<exists>b'. body i0 (r, c) = Some (r \<or> (\<exists>i1. f i1 \<noteq> eff c i0 i1), b') \<and>
        tbv_valid L b' \<and> (\<forall>j0 j1. eff b' j0 j1 = (if j0 = i0 then f j1 else eff c j0 j1))"
  shows "\<exists>b'. for_each [0..<L] body (False, b) = Some (tbv_elems L b' \<noteq> tbv_elems L b, b') \<and> tbv_valid L b' \<and>
    (\<forall>i0<L. \<forall>i1. eff b' i0 i1 = g i0 i1 (eff b i0 i1))"
proof (rule rows_loop [OF b])
  fix i0 r c
  assume c: "i0 < L" "tbv_valid L c" "\<forall>j1. eff c i0 j1 = eff b i0 j1"
  then show "\<exists>b'. body i0 (r, c) = Some (r \<or> (\<exists>i1. g i0 i1 (eff b i0 i1) \<noteq> eff b i0 i1), b') \<and> tbv_valid L b' \<and>
      (\<forall>j0 j1. eff b' j0 j1 = (if j0 = i0 then g i0 j1 (eff b i0 j1) else eff c j0 j1))"
    using row [OF c(1,2), of "\<lambda>i1. g i0 i1 (eff b i0 i1)" r] by simp
qed

lemma row_bit: "i1 \<in> bits w \<Longrightarrow> i1 < LENGTH('a)"
  for w :: "'a::len word"
  using bits_bound by blast

text \<open>Each body replaces one word that counts and reports whether it changed.\<close>

lemma union_step:
  fixes b v :: "'a::len word TwoLevelBitVector"
  assumes b: "tbv_valid L b" and v: "tbv_valid L v" and i: "i0 < L" "i1 \<in> bits (l1 v ! i0)" and w: "w = eff b i0 i1 OR eff v i0 i1"
  shows "\<exists>b'. union_word v i0 i1 (r, b) = Some (r \<or> w \<noteq> eff b i0 i1, b') \<and> tbv_valid L b' \<and>
    (\<forall>j0 j1. eff b' j0 j1 = (if j0 = i0 \<and> j1 = i1 then w else eff b j0 j1))"
proof -
  define x1 where "x1 = l1 b ! i0 OR push_bit i1 1"
  note k = row_bit [OF i(2)] and s = valid_shape [OF b] valid_shape [OF v]
  have len: "length (l1 b) = L" "length (l2 b) = L" "length (l2 b ! i0) = LENGTH('a)" using s(1) i(1) by (auto simp: tbv_shape_def)
  have x1: "bits x1 = insert i1 (bits (l1 b ! i0))" "bbv_setBit (l1 b ! i0) i1 = Some (i1 \<notin> bits (l1 b ! i0), x1)"
    using bbv_setBit_eq [OF k, of "l1 b ! i0"] by (simp_all add: x1_def del: push_bit_of_1)
  have v2: "eff v i0 i1 = l2 v ! i0 ! i1" "eff v i0 i1 \<noteq> 0" using i eff_nonzero [OF v, of i0 i1] by (auto simp: eff_def)
  have nz: "w \<noteq> 0" using v2(2) by (simp add: w flip: bits_eq_empty)
  have "union_word v i0 i1 (r, b) = Some (r \<or> w \<noteq> eff b i0 i1, upd b i0 i1 x1 w)"
    using s i(1) k x1(2) len
    by (simp add: union_word_def access [of L] bbv_setUnion_def bbv_clear_def Let_def v2(1) w upd_def) (simp add: eff_def)
  then show ?thesis using upd_correct [OF b i(1) k, of x1 w] x1(1) nz by auto
qed

lemma prune_step:
  fixes b v :: "'a::len word TwoLevelBitVector"
  assumes b: "tbv_valid L b" and v: "tbv_valid L v" and i: "i0 < L" "i1 \<in> bits (l1 b ! i0)" "i1 \<in> bits (l1 v ! i0)"
  shows "w = eff b i0 i1 AND eff v i0 i1 \<Longrightarrow>
      \<exists>b'. intersection_word v i0 i1 (r, b) = Some (r \<or> w \<noteq> eff b i0 i1, b') \<and> tbv_valid L b' \<and>
        (\<forall>j0 j1. eff b' j0 j1 = (if j0 = i0 \<and> j1 = i1 then w else eff b j0 j1))"
    "w = eff b i0 i1 AND NOT (eff v i0 i1) \<Longrightarrow>
      \<exists>b'. difference_word v i0 i1 (r, b) = Some (r \<or> w \<noteq> eff b i0 i1, b') \<and> tbv_valid L b' \<and>
        (\<forall>j0 j1. eff b' j0 j1 = (if j0 = i0 \<and> j1 = i1 then w else eff b j0 j1))"
proof -
  note k = row_bit [OF i(2)] and s = valid_shape [OF b] valid_shape [OF v]
  have e: "eff b i0 i1 = l2 b ! i0 ! i1" "eff v i0 i1 = l2 v ! i0 ! i1" using i by (simp_all add: eff_def)
  obtain b' where p: "do { bv \<leftarrow> set2 b i0 i1 w; tbv_prune bv i0 i1 } = Some b'" "tbv_valid L b'"
    "\<And>j0 j1. eff b' j0 j1 = (if j0 = i0 \<and> j1 = i1 then w else eff b j0 j1)"
    using prune_correct [OF b i(1) k i(2), of w] by blast
  show "\<exists>b'. intersection_word v i0 i1 (r, b) = Some (r \<or> w \<noteq> eff b i0 i1, b') \<and> tbv_valid L b' \<and>
        (\<forall>j0 j1. eff b' j0 j1 = (if j0 = i0 \<and> j1 = i1 then w else eff b j0 j1))" if "w = eff b i0 i1 AND eff v i0 i1"
    using p that i(1) k s
    by (simp add: intersection_word_def access(1,3) [of L] bbv_setIntersection_def Let_def e bind_eq_Some_conv) auto
  show "\<exists>b'. difference_word v i0 i1 (r, b) = Some (r \<or> w \<noteq> eff b i0 i1, b') \<and> tbv_valid L b' \<and>
        (\<forall>j0 j1. eff b' j0 j1 = (if j0 = i0 \<and> j1 = i1 then w else eff b j0 j1))" if "w = eff b i0 i1 AND NOT (eff v i0 i1)"
    using p that i(1) k s
    by (simp add: difference_word_def access(1,3) [of L] bbv_setDifference_def Let_def e bind_eq_Some_conv) auto
qed

lemma elems_setop:
  "\<forall>i0<L. \<forall>i1. eff b' i0 i1 = eff b i0 i1 OR eff v i0 i1 \<Longrightarrow> tbv_elems L b' = tbv_elems L b \<union> tbv_elems L v"
  "\<forall>i0<L. \<forall>i1. eff b' i0 i1 = eff b i0 i1 AND eff v i0 i1 \<Longrightarrow> tbv_elems L b' = tbv_elems L b \<inter> tbv_elems L v"
  "\<forall>i0<L. \<forall>i1. eff b' i0 i1 = eff b i0 i1 AND NOT (eff v i0 i1) \<Longrightarrow> tbv_elems L b' = tbv_elems L b - tbv_elems L v"
  by (auto simp: tbv_elems_def less_mult_imp_div_less mult.commute)

lemma union_row_correct:
  fixes c v :: "'a::len word TwoLevelBitVector"
  assumes v: "tbv_valid L v" and i0: "i0 < L" and c: "tbv_valid L c" and f: "\<And>i1. f i1 = eff c i0 i1 OR eff v i0 i1"
  shows "\<exists>b'. union_row v i0 (r, c) = Some (r \<or> (\<exists>i1. f i1 \<noteq> eff c i0 i1), b') \<and>
       tbv_valid L b' \<and> (\<forall>j0 j1. eff b' j0 j1 = (if j0 = i0 then f j1 else eff c j0 j1))"
proof -
  have rest: "f i1 = eff c i0 i1" if "i1 \<notin> bits (l1 v ! i0)" for i1 using that by (simp add: f eff_def [of v])
  have step: "\<exists>b'. union_word v i0 i1 (r, d) = Some (r \<or> f i1 \<noteq> eff c i0 i1, b') \<and> tbv_valid L b' \<and>
      (\<forall>j0 j1. eff b' j0 j1 = (if j0 = i0 \<and> j1 = i1 then f i1 else eff d j0 j1))"
    if "i1 \<in> bits (l1 v ! i0)" "tbv_valid L d" "eff d i0 i1 = eff c i0 i1" for i1 r d
    using union_step [OF that(2) v i0 that(1), of "f i1" r, unfolded that(3)] by (simp only: f)
  have e: "union_row v i0 (r, c) = for_each_bit (l1 v ! i0) (union_word v i0) (r, c)"
    by (simp add: union_row_def access(1) [OF valid_shape [OF v] i0])
  show ?thesis unfolding e by (rule row_loop [OF c step rest])
qed

lemma tbv_setUnion_correct:
  fixes b v :: "'a::len word TwoLevelBitVector"
  assumes b: "tbv_valid L b" and v: "tbv_valid L v"
  shows "\<exists>b'. tbv_setUnion L b v = Some (\<not> tbv_elems L v \<subseteq> tbv_elems L b, b') \<and> tbv_valid L b' \<and>
    tbv_elems L b' = tbv_elems L b \<union> tbv_elems L v"
proof -
  obtain b' where b': "tbv_setUnion L b v = Some (tbv_elems L b' \<noteq> tbv_elems L b, b')" "tbv_valid L b'"
    "\<forall>i0<L. \<forall>i1. eff b' i0 i1 = (\<lambda>i0 i1 w. w OR eff v i0 i1) i0 i1 (eff b i0 i1)"
    using rows_of_op [where g = "\<lambda>i0 i1 w. w OR eff v i0 i1" and body = "union_row v", OF b union_row_correct [OF v]]
    unfolding tbv_setUnion_def by blast
  with elems_setop(1) [of L b' b v] show ?thesis by auto
qed

text \<open>Restricting a word of the first level keeps the invariant.\<close>

lemma restrict_row:
  fixes b :: "'a::len word TwoLevelBitVector"
  assumes b: "tbv_valid L b" and i: "i0 < L" and x: "bits x \<subseteq> bits (l1 b ! i0)"
  shows "tbv_valid L (b\<lparr>l1 := (l1 b)[i0 := x]\<rparr>)"
    "eff (b\<lparr>l1 := (l1 b)[i0 := x]\<rparr>) j0 j1 = (if j0 = i0 \<and> j1 \<notin> bits x then 0 else eff b j0 j1)"
proof -
  have "length (l1 b) = L" using b by (simp add: tbv_valid_def tbv_shape_def)
  then show "tbv_valid L (b\<lparr>l1 := (l1 b)[i0 := x]\<rparr>)"
    "eff (b\<lparr>l1 := (l1 b)[i0 := x]\<rparr>) j0 j1 = (if j0 = i0 \<and> j1 \<notin> bits x then 0 else eff b j0 j1)"
    using b i x by (auto simp: tbv_valid_def eff_def nth_list_update)
qed

text \<open>The loop over the bits of \<open>x\<close> with the pruning body, from an object whose row \<open>i0\<close> has these bits at least.\<close>

lemma pruned_row:
  fixes b v :: "'a::len word TwoLevelBitVector"
  assumes b: "tbv_valid L b" and i0: "i0 < L" and x: "bits x \<subseteq> bits (l1 b ! i0)"
    and step: "\<And>d i1 r. tbv_valid L d \<Longrightarrow> i1 \<in> bits (l1 d ! i0) \<Longrightarrow> i1 \<in> bits x \<Longrightarrow> eff d i0 i1 = eff b i0 i1 \<Longrightarrow>
      \<exists>b'. body i1 (r, d) = Some (r \<or> f i1 \<noteq> eff d i0 i1, b') \<and> tbv_valid L b' \<and>
        (\<forall>j0 j1. eff b' j0 j1 = (if j0 = i0 \<and> j1 = i1 then f i1 else eff d j0 j1))"
    and rest: "\<And>i1. i1 \<notin> bits x \<Longrightarrow> f i1 = eff b i0 i1"
  shows "\<exists>b'. for_each_bit x body (r, b) = Some (r \<or> (\<exists>i1. f i1 \<noteq> eff b i0 i1), b') \<and> tbv_valid L b' \<and>
    (\<forall>j0 j1. eff b' j0 j1 = (if j0 = i0 then f j1 else eff b j0 j1))"
proof (rule row_loop [OF b _ rest])
  fix i1 r d
  assume d: "i1 \<in> bits x" "tbv_valid L d" "eff d i0 i1 = eff b i0 i1"
  then have "i1 \<in> bits (l1 d ! i0)" using x eff_nonzero [OF b i0, of i1] eff_nonzero [OF d(2) i0, of i1] by auto
  from step [OF d(2) this d(1,3), of r, unfolded d(3)]
  show "\<exists>b'. body i1 (r, d) = Some (r \<or> f i1 \<noteq> eff b i0 i1, b') \<and> tbv_valid L b' \<and>
    (\<forall>j0 j1. eff b' j0 j1 = (if j0 = i0 \<and> j1 = i1 then f i1 else eff d j0 j1))" .
qed

lemma intersection_row_correct:
  fixes c v :: "'a::len word TwoLevelBitVector"
  assumes v: "tbv_valid L v" and i0: "i0 < L" and c: "tbv_valid L c" and f: "\<And>i1. f i1 = eff c i0 i1 AND eff v i0 i1"
  shows "\<exists>b'. intersection_row v i0 (r, c) = Some (r \<or> (\<exists>i1. f i1 \<noteq> eff c i0 i1), b') \<and>
       tbv_valid L b' \<and> (\<forall>j0 j1. eff b' j0 j1 = (if j0 = i0 then f j1 else eff c j0 j1))"
proof -
  define x where "x = l1 c ! i0 AND l1 v ! i0"
  define c' where "c' = c\<lparr>l1 := (l1 c)[i0 := x]\<rparr>"
  define r' where "r' \<longleftrightarrow> x \<noteq> l1 c ! i0 \<or> r"
  have len: "length (l1 c) = L" using c by (simp add: tbv_valid_def tbv_shape_def)
  have c': "tbv_valid L c'" "eff c' j0 j1 = (if j0 = i0 \<and> j1 \<notin> bits x then 0 else eff c j0 j1)" for j0 j1
    using restrict_row [OF c i0, of x] by (simp_all add: c'_def x_def)
  note nz = eff_nonzero [OF c i0] eff_nonzero [OF v i0]
  have fc: "f i1 = eff c' i0 i1 AND eff v i0 i1" for i1
    using c'(2) [of i0 i1] nz [of i1] by (auto simp: f x_def)
  have rest: "f i1 = eff c' i0 i1" if "i1 \<notin> bits x" for i1 using that c' by (simp add: fc)
  have ch: "(r' \<or> (\<exists>i1. f i1 \<noteq> eff c' i0 i1)) \<longleftrightarrow> (r \<or> (\<exists>i1. f i1 \<noteq> eff c i0 i1))"
  proof -
    have "x \<noteq> l1 c ! i0 \<longleftrightarrow> (\<exists>i1. i1 \<in> bits (l1 c ! i0) - bits x)" unfolding bits_eq_iff [symmetric] by (auto simp: x_def)
    also have "\<dots> \<longleftrightarrow> (\<exists>i1. i1 \<notin> bits x \<and> f i1 \<noteq> eff c i0 i1)" using rest c'(2) nz(1) by auto
    finally show ?thesis using rest c'(2) by (auto simp: r'_def)
  qed
  have "intersection_row v i0 (r, c) = for_each_bit x (intersection_word v i0) (r', c')"
    using i0 valid_shape [OF v] valid_shape [OF c]
    by (simp add: intersection_row_def access [of L] bbv_setIntersection_def Let_def r'_def c'_def flip: x_def)
      (simp add: for_each_bit.simps [of 0] bbv_empty_def)
  moreover have "\<exists>b'. for_each_bit x (intersection_word v i0) (r', c') = Some (r' \<or> (\<exists>i1. f i1 \<noteq> eff c' i0 i1), b') \<and>
      tbv_valid L b' \<and> (\<forall>j0 j1. eff b' j0 j1 = (if j0 = i0 then f j1 else eff c' j0 j1))"
    by (rule pruned_row [OF c'(1) i0 _ _ rest], simp add: c'_def len i0, rule prune_step(1) [OF _ v i0])
      (simp_all add: x_def fc)
  ultimately show ?thesis unfolding ch by (auto simp: c'(2))
qed

lemma tbv_setIntersection_correct:
  fixes b v :: "'a::len word TwoLevelBitVector"
  assumes b: "tbv_valid L b" and v: "tbv_valid L v"
  shows "\<exists>b'. tbv_setIntersection L b v = Some (\<not> tbv_elems L b \<subseteq> tbv_elems L v, b') \<and> tbv_valid L b' \<and>
    tbv_elems L b' = tbv_elems L b \<inter> tbv_elems L v"
proof -
  obtain b' where b': "tbv_setIntersection L b v = Some (tbv_elems L b' \<noteq> tbv_elems L b, b')" "tbv_valid L b'"
    "\<forall>i0<L. \<forall>i1. eff b' i0 i1 = (\<lambda>i0 i1 w. w AND eff v i0 i1) i0 i1 (eff b i0 i1)"
    using rows_of_op [where g = "\<lambda>i0 i1 w. w AND eff v i0 i1" and body = "intersection_row v", OF b intersection_row_correct [OF v]]
    unfolding tbv_setIntersection_def by blast
  with elems_setop(2) [of L b' b v] show ?thesis by auto
qed

lemma difference_row_correct:
  fixes c v :: "'a::len word TwoLevelBitVector"
  assumes v: "tbv_valid L v" and i0: "i0 < L" and c: "tbv_valid L c" and f: "\<And>i1. f i1 = eff c i0 i1 AND NOT (eff v i0 i1)"
  shows "\<exists>b'. difference_row v i0 (r, c) = Some (r \<or> (\<exists>i1. f i1 \<noteq> eff c i0 i1), b') \<and>
       tbv_valid L b' \<and> (\<forall>j0 j1. eff b' j0 j1 = (if j0 = i0 then f j1 else eff c j0 j1))"
proof -
  define x where "x = l1 c ! i0 AND l1 v ! i0"
  have rest: "f i1 = eff c i0 i1" if "i1 \<notin> bits x" for i1 using that by (auto simp: f x_def eff_def)
  have "\<exists>b'. for_each_bit x (difference_word v i0) (r, c) = Some (r \<or> (\<exists>i1. f i1 \<noteq> eff c i0 i1), b') \<and>
      tbv_valid L b' \<and> (\<forall>j0 j1. eff b' j0 j1 = (if j0 = i0 then f j1 else eff c j0 j1))"
    by (rule pruned_row [OF c i0 _ _ rest], simp add: x_def, rule prune_step(2) [OF _ v i0]) (simp_all add: x_def f)
  then show ?thesis
    using i0 valid_shape [OF v] valid_shape [OF c]
    by (simp add: difference_row_def access [of L] bbv_setIntersection_def Let_def flip: x_def)
qed

lemma tbv_setDifference_correct:
  fixes b v :: "'a::len word TwoLevelBitVector"
  assumes b: "tbv_valid L b" and v: "tbv_valid L v"
  shows "\<exists>b'. tbv_setDifference L b v = Some (tbv_elems L b \<inter> tbv_elems L v \<noteq> {}, b') \<and> tbv_valid L b' \<and>
    tbv_elems L b' = tbv_elems L b - tbv_elems L v"
proof -
  obtain b' where b': "tbv_setDifference L b v = Some (tbv_elems L b' \<noteq> tbv_elems L b, b')" "tbv_valid L b'"
    "\<forall>i0<L. \<forall>i1. eff b' i0 i1 = (\<lambda>i0 i1 w. w AND NOT (eff v i0 i1)) i0 i1 (eff b i0 i1)"
    using rows_of_op [where g = "\<lambda>i0 i1 w. w AND NOT (eff v i0 i1)" and body = "difference_row v", OF b difference_row_correct [OF v]]
    unfolding tbv_setDifference_def by blast
  with elems_setop(3) [of L b' b v] show ?thesis by auto
qed

lemma tbv_intersectsWith_correct:
  fixes b v :: "'a::len word TwoLevelBitVector"
  assumes b: "tbv_valid L b" and v: "tbv_valid L v"
  shows "tbv_intersectsWith L b v = Some (tbv_elems L b \<inter> tbv_elems L v \<noteq> {})"
proof -
  define Q where "Q i0 i1 \<longleftrightarrow> bits (eff b i0 i1) \<inter> bits (eff v i0 i1) \<noteq> {}" for i0 i1
  note s = valid_shape [OF b] valid_shape [OF v]
  have "tbv_intersectsWith L b v = Some (\<exists>i0\<in>set [0..<L]. \<exists>i1\<in>bits (l1 b ! i0 AND l1 v ! i0). Q i0 i1)"
    unfolding tbv_intersectsWith_def
  proof (rule exists_each_eq)
    fix i0
    assume "i0 \<in> set [0..<L]"
    then have i0: "i0 < L" by simp
    let ?x = "l1 b ! i0 AND l1 v ! i0"
    have "exists_bit ?x (\<lambda>i1. do { g \<leftarrow> bbv_getBit (l1 v ! i0) i1; if \<not> g then Some False
         else do { x2 \<leftarrow> get2 b i0 i1; v2 \<leftarrow> get2 v i0 i1; bbv_intersectsWith x2 v2 } }) =
        Some (\<exists>i1\<in>set (sorted_list_of_set (bits ?x)). Q i0 i1)"
      unfolding exists_bit_eq
      by (rule exists_each_eq) (use i0 s row_bit [of _ "l1 v ! i0"] in \<open>simp add: bbv_getBit_eq access [of L] bbv_intersectsWith_def Q_def eff_def word_changed(4)\<close>)
    then show "do { t \<leftarrow> get1 b i0; v1 \<leftarrow> get1 v i0; (_, t) \<leftarrow> bbv_setIntersection t v1;
       exists_bit t (\<lambda>i1. do { g \<leftarrow> bbv_getBit v1 i1; if \<not> g then Some False
         else do { x2 \<leftarrow> get2 b i0 i1; v2 \<leftarrow> get2 v i0 i1; bbv_intersectsWith x2 v2 } }) } = Some (\<exists>i1\<in>bits ?x. Q i0 i1)"
      using i0 s by (simp add: access(1) [of L] bbv_setIntersection_def Let_def)
  qed
  also have "(\<exists>i0\<in>set [0..<L]. \<exists>i1\<in>bits (l1 b ! i0 AND l1 v ! i0). Q i0 i1) \<longleftrightarrow> (\<exists>i0<L. \<exists>i1. Q i0 i1)"
  proof -
    have "i1 \<in> bits (l1 b ! i0 AND l1 v ! i0)" if "Q i0 i1" for i0 i1 using that by (simp add: Q_def eff_def split: if_splits)
    then show ?thesis by (metis atLeastLessThan_iff atLeastLessThan_upt le0)
  qed
  also have "\<dots> \<longleftrightarrow> tbv_elems L b \<inter> tbv_elems L v \<noteq> {}"
  proof
    assume "\<exists>i0<L. \<exists>i1. Q i0 i1"
    then obtain i0 i1 i2 where i: "i0 < L" "i2 \<in> bits (eff b i0 i1)" "i2 \<in> bits (eff v i0 i1)" by (auto simp: Q_def)
    then have "i1 < LENGTH('a)" "i2 < LENGTH('a)" using eff_outside [of i1 b i0] row_bit by force+
    with i elems_iff [of i0 L i1 i2] show "tbv_elems L b \<inter> tbv_elems L v \<noteq> {}" by blast
  next
    assume "tbv_elems L b \<inter> tbv_elems L v \<noteq> {}"
    then obtain x where "x \<in> tbv_elems L b" "x \<in> tbv_elems L v" by blast
    then have "Q (x div (LENGTH('a) * LENGTH('a))) (x div LENGTH('a) mod LENGTH('a))" "x div (LENGTH('a) * LENGTH('a)) < L"
      by (auto simp: tbv_elems_def Q_def less_mult_imp_div_less mult.commute)
    then show "\<exists>i0<L. \<exists>i1. Q i0 i1" by blast
  qed
  finally show ?thesis .
qed

section \<open>Whole objects\<close>

lemma tbv_clear_correct: "tbv_shape L b \<Longrightarrow> tbv_valid L (tbv_clear b) \<and> tbv_elems L (tbv_clear b) = {}"
proof -
  assume s: "tbv_shape L b"
  then have "l1 (tbv_clear b) ! i0 = 0" if "i0 < L" for i0 using that by (simp add: tbv_clear_def bbv_clear_def tbv_shape_def)
  then show ?thesis using s
    by (auto simp: tbv_valid_def tbv_elems_def eff_def less_mult_imp_div_less mult.commute)
      (simp add: tbv_shape_def tbv_clear_def)
qed

lemma tbv_setAll_correct:
  fixes b :: "'a::len word TwoLevelBitVector"
  assumes s: "tbv_shape L b"
  shows "tbv_valid L (tbv_setAll b) \<and> tbv_elems L (tbv_setAll b) = {..<LENGTH('a) * LENGTH('a) * L}"
proof -
  have ones: "bits (NOT 0 :: 'a word) = {..<LENGTH('a)}" by (simp only: bits_NOT bits_simps) simp
  then have nz: "(NOT 0 :: 'a word) \<noteq> 0" by (metis bits_eq_empty lessThan_empty_iff len_not_eq_0)
  have w: "l1 (tbv_setAll b) ! i0 = NOT 0" "i1 < LENGTH('a) \<Longrightarrow> l2 (tbv_setAll b) ! i0 ! i1 = NOT 0" if "i0 < L" for i0 i1
    using that s by (auto simp: tbv_setAll_def bbv_setAll_def tbv_shape_def)
  then have e: "eff (tbv_setAll b) i0 i1 = NOT 0" if "i0 < L" "i1 < LENGTH('a)" for i0 i1
    using that by (simp only: eff_def ones) simp
  have "tbv_shape L (tbv_setAll b)" using s by (auto simp: tbv_shape_def tbv_setAll_def)
  then have "tbv_valid L (tbv_setAll b)" using w nz ones by (auto simp only: tbv_valid_def)
  moreover have "tbv_elems L (tbv_setAll b) = {..<LENGTH('a) * LENGTH('a) * L}"
    by (rule elems_eqI) (simp_all only: e ones lessThan_iff index_less subset_refl)
  ultimately show ?thesis by simp
qed

lemma tbv_empty_correct: "tbv_valid L b \<Longrightarrow> tbv_empty b \<longleftrightarrow> tbv_elems L b = {}"
proof -
  assume b: "tbv_valid L b"
  have "tbv_empty b \<longleftrightarrow> (\<forall>i0<L. l1 b ! i0 = 0)"
    using b by (auto simp: tbv_empty_def bbv_empty_def list_all_length tbv_valid_def tbv_shape_def)
  also have "\<dots> \<longleftrightarrow> (\<forall>i0<L. \<forall>i1. eff b i0 i1 = 0)" using eff_nonzero [OF b] by (metis bits_eq_empty ex_in_conv)
  also have "\<dots> \<longleftrightarrow> \<not> (\<exists>i0<L. \<exists>i1. eff b i0 i1 \<noteq> eff (tbv_clear b) i0 i1)"
    using tbv_clear_correct [OF valid_shape [OF b]] b
    by (auto simp: eff_def tbv_clear_def bbv_clear_def tbv_valid_def tbv_shape_def)
  finally show ?thesis using elems_change [of L b "tbv_clear b"] tbv_clear_correct [OF valid_shape [OF b]] by simp
qed

lemma tbv_copyFrom_correct:
  "tbv_shape L b \<Longrightarrow> tbv_valid L v \<Longrightarrow> \<exists>b'. tbv_copyFrom L b v = Some b' \<and> tbv_valid L b' \<and> tbv_elems L b' = tbv_elems L v"
  using tbv_clear_correct [of L b] tbv_setUnion_correct [of L "tbv_clear b" v] by (auto simp: tbv_copyFrom_def)

section \<open>The first index\<close>

text \<open>Indices are ordered like their coordinates.\<close>

lemma index_le:
  fixes i0 i1 i2 :: nat
  assumes "i1 < K" "i2 < K" "i0 < j0 \<or> i0 = j0 \<and> (i1 < j1 \<or> i1 = j1 \<and> i2 \<le> j2)"
  shows "i0 * K * K + i1 * K + i2 \<le> j0 * K * K + j1 * K + j2"
proof -
  have "i0 * K * K + i1 * K + i2 < K * K * Suc i0" using index_less [of i0 "Suc i0" i1 K i2] assms by simp
  also have "\<dots> \<le> K * K * j0" if "i0 < j0" using that by (intro mult_left_mono) simp_all
  finally have 1: ?thesis if "i0 < j0" using that by (simp add: algebra_simps)
  have "i1 * K + i2 < Suc i1 * K" using assms by simp
  also have "\<dots> \<le> j1 * K" if "i1 < j1" using that by (intro mult_right_mono) simp_all
  finally show ?thesis using 1 assms by (auto simp: algebra_simps)
qed

lemma elems_cases:
  fixes b :: "'a::len word TwoLevelBitVector"
  assumes "idx \<in> tbv_elems L b"
  obtains i0 i1 i2 where "i0 < L" "i1 < LENGTH('a)" "i2 < LENGTH('a)" "idx = i0 * LENGTH('a) * LENGTH('a) + i1 * LENGTH('a) + i2"
    "i1 \<in> bits (l1 b ! i0)" "i2 \<in> bits (l2 b ! i0 ! i1)"
proof -
  have "idx < LENGTH('a) * LENGTH('a) * L" using assms by (simp add: tbv_elems_def)
  from coordinates [OF this, of b] obtain i0 i1 i2 where i: "i0 < L" "i1 < LENGTH('a)" "i2 < LENGTH('a)"
    "idx = i0 * LENGTH('a) * LENGTH('a) + i1 * LENGTH('a) + i2" by metis
  with assms elems_iff [OF i(1-3), of b] that show ?thesis by (auto simp: eff_def split: if_splits)
qed

lemma elems_intro:
  fixes b :: "'a::len word TwoLevelBitVector"
  assumes "i0 < L" "i1 \<in> bits (l1 b ! i0)" "i2 \<in> bits (l2 b ! i0 ! i1)"
  shows "i0 * LENGTH('a) * LENGTH('a) + i1 * LENGTH('a) + i2 \<in> tbv_elems L b"
  using assms elems_iff [of i0 L i1 i2 b] row_bit by (auto simp: eff_def)

lemma tbv_first_loop_skip:
  assumes "tbv_shape L b" "i0 < L" "k \<le> i0" "\<And>j. k \<le> j \<Longrightarrow> j < i0 \<Longrightarrow> l1 b ! j = 0"
  shows "tbv_first_loop [k..<L] b = tbv_first_loop (i0 # [Suc i0..<L]) b"
  using assms(3,1,2,4)
proof (induction rule: inc_induct)
  case base
  then show ?case by (simp only: upt_conv_Cons)
next
  case (step k)
  then have "tbv_first_loop [k..<L] b = tbv_first_loop [Suc k..<L] b"
    by (simp add: upt_conv_Cons [of k] access [of L] bbv_empty_def)
  then show ?case using step by simp
qed

text \<open>The first non-empty row, and the first coordinates in it.\<close>

lemma least_row:
  fixes k L :: nat
  assumes "\<exists>i. k \<le> i \<and> i < L \<and> P i"
  obtains i where "k \<le> i" "i < L" "P i" "\<And>j. k \<le> j \<Longrightarrow> j < i \<Longrightarrow> \<not> P j"
proof -
  let ?Q = "\<lambda>i. k \<le> i \<and> i < L \<and> P i"
  have "?Q (LEAST i. ?Q i)" by (rule LeastI_ex [OF assms])
  moreover have "\<not> ?Q j" if "j < (LEAST i. ?Q i)" for j using not_less_Least [OF that] .
  ultimately show ?thesis using that [of "LEAST i. ?Q i"] by (meson less_trans)
qed

lemma first_row:
  assumes b: "tbv_valid L b" and "tbv_elems L b \<noteq> {}"
  obtains i0 where "i0 < L" "l1 b ! i0 \<noteq> 0" "\<And>j. j < i0 \<Longrightarrow> l1 b ! j = 0"
proof -
  have "\<exists>i0. 0 \<le> i0 \<and> i0 < L \<and> l1 b ! i0 \<noteq> 0" using assms(2) by (auto elim!: elems_cases)
  then show ?thesis by (rule least_row) (rule that, simp_all)
qed

lemma Min_bits: "w \<noteq> 0 \<Longrightarrow> Min (bits w) \<in> bits w" "i \<in> bits w \<Longrightarrow> Min (bits w) \<le> i"
  by simp_all

lemma tbv_getAndClearFirstOne_correct:
  fixes b :: "'a::len word TwoLevelBitVector"
  assumes b: "tbv_valid L b" and ne: "tbv_elems L b \<noteq> {}"
  shows "\<exists>b'. tbv_getAndClearFirstOne L b = Some (Min (tbv_elems L b), b') \<and> tbv_valid L b' \<and>
    tbv_elems L b' = tbv_elems L b - {Min (tbv_elems L b)}"
proof -
  obtain i0 where i0: "i0 < L" "l1 b ! i0 \<noteq> 0" "\<And>j. j < i0 \<Longrightarrow> l1 b ! j = 0" using first_row [OF b ne] by blast
  define i1 i2 where "i1 = Min (bits (l1 b ! i0))" and "i2 = Min (bits (l2 b ! i0 ! i1))"
  have i1: "i1 \<in> bits (l1 b ! i0)" using Min_bits i0(2) by (simp add: i1_def)
  then have nz: "l2 b ! i0 ! i1 \<noteq> 0" and e: "eff b i0 i1 = l2 b ! i0 ! i1" using b i0(1) by (simp_all add: tbv_valid_def eff_def)
  then have i2: "i2 \<in> bits (l2 b ! i0 ! i1)" using Min_bits by (simp add: i2_def)
  note k = row_bit [OF i1] row_bit [OF i2] and s = valid_shape [OF b]
  have len: "length (l1 b) = L" "length (l2 b) = L" "length (l2 b ! i0) = LENGTH('a)" using s i0(1) by (auto simp: tbv_shape_def)
  have min: "Min (tbv_elems L b) = i0 * LENGTH('a) * LENGTH('a) + i1 * LENGTH('a) + i2"
  proof (rule Min_eqI)
    show "finite (tbv_elems L b)" using elems_bounded finite_subset by blast
    show "i0 * LENGTH('a) * LENGTH('a) + i1 * LENGTH('a) + i2 \<le> y" if y: "y \<in> tbv_elems L b" for y
      using y
    proof (cases rule: elems_cases)
      case (1 j0 j1 j2)
      have "i0 \<le> j0" using 1 i0(3) [of j0] by (auto simp: not_less [symmetric])
      moreover have "i0 = j0 \<Longrightarrow> i1 \<le> j1" "i0 = j0 \<Longrightarrow> i1 = j1 \<Longrightarrow> i2 \<le> j2"
        unfolding i1_def i2_def using 1 Min_bits(2) by blast+
      ultimately show ?thesis unfolding 1(4) using k by (intro index_le) auto
    qed
  qed (rule elems_intro [OF i0(1) i1 i2])
  obtain x1 where x1: "bbv_getAndClearFirstOne (l1 b ! i0) = Some (i1, x1)" "bits x1 = bits (l1 b ! i0) - {i1}"
    using bbv_first_eq [OF i0(2)] by (auto simp: i1_def)
  obtain x2 where x2: "bbv_getAndClearFirstOne (l2 b ! i0 ! i1) = Some (i2, x2)" "bits x2 = bits (l2 b ! i0 ! i1) - {i2}"
    using bbv_first_eq [OF nz] by (auto simp: i2_def)
  define y1 where "y1 = (if x2 \<noteq> 0 then x1 OR push_bit i1 1 else x1)"
  have y1: "bits y1 = (if x2 \<noteq> 0 then insert i1 (bits x1) else bits x1)" using bbv_setBit_eq [OF k(1), of x1] by (simp add: y1_def)
  have "tbv_getAndClearFirstOne L b = tbv_first_loop (i0 # [Suc i0..<L]) b"
    unfolding tbv_getAndClearFirstOne_def by (rule tbv_first_loop_skip [OF s i0(1)]) (use i0(3) in simp_all)
  also have "\<dots> = Some (Min (tbv_elems L b), upd b i0 i1 y1 x2)"
    using i0(1,2) s k x1(1) x2(1) len bbv_setBit_eq [OF k(1), of x1]
    by (simp add: access [of L] bbv_empty_def min upd_def y1_def)
  finally show ?thesis
    using upd_correct [OF b i0(1) k(1), of y1 x2] y1 x1(2) i1 elems_upd(2) [of "upd b i0 i1 y1 x2" i0 i1 x2 b L i2] i0(1) k x2(2) e
    by (auto simp: min)
qed

section \<open>The iterator\<close>

text \<open>The coordinates an iterator has still to visit.\<close>

definition pending :: "'a::len word tbv_iterator \<Rightarrow> nat \<Rightarrow> nat \<Rightarrow> nat \<Rightarrow> bool" where
  "pending it i0 i1 i2 \<longleftrightarrow>
    (if it1 it = 0 \<and> it2 it = 0 then it_i0 it \<le> i0
     else it_i0 it < i0 \<or> i0 = it_i0 it \<and> (i1 \<in> bits (it1 it) \<or> i1 = it_i1 it \<and> i2 \<in> bits (it2 it)))"

definition tbv_rest :: "nat \<Rightarrow> 'a::len word tbv_iterator \<Rightarrow> nat set" where
  "tbv_rest L it = {idx \<in> tbv_elems L (it_bv it).
     pending it (idx div (LENGTH('a) * LENGTH('a))) (idx div LENGTH('a) mod LENGTH('a)) (idx mod LENGTH('a))}"

definition tbv_it_valid :: "nat \<Rightarrow> 'a::len word tbv_iterator \<Rightarrow> bool" where
  "tbv_it_valid L it \<longleftrightarrow> tbv_valid L (it_bv it) \<and>
    (it1 it = 0 \<and> it2 it = 0 \<or> it_i0 it < L \<and> bits (it1 it) \<subseteq> bits (l1 (it_bv it) ! it_i0 it) \<and>
      (it2 it = 0 \<or> it_i1 it \<in> bits (l1 (it_bv it) ! it_i0 it) \<and> bits (it2 it) \<subseteq> bits (l2 (it_bv it) ! it_i0 it ! it_i1 it) \<and>
        (\<forall>j\<in>bits (it1 it). it_i1 it < j)))"

lemma rest_cases:
  fixes it :: "'a::len word tbv_iterator"
  assumes "idx \<in> tbv_rest L it"
  obtains i0 i1 i2 where "i0 < L" "i1 < LENGTH('a)" "i2 < LENGTH('a)" "idx = i0 * LENGTH('a) * LENGTH('a) + i1 * LENGTH('a) + i2"
    "i1 \<in> bits (l1 (it_bv it) ! i0)" "i2 \<in> bits (l2 (it_bv it) ! i0 ! i1)" "pending it i0 i1 i2"
proof -
  have "idx \<in> tbv_elems L (it_bv it)" using assms by (simp add: tbv_rest_def)
  then show ?thesis by (rule elems_cases) (use assms that in \<open>simp add: tbv_rest_def compose\<close>)
qed

lemma rest_intro:
  fixes it :: "'a::len word tbv_iterator"
  assumes "i0 < L" "i1 \<in> bits (l1 (it_bv it) ! i0)" "i2 \<in> bits (l2 (it_bv it) ! i0 ! i1)" "pending it i0 i1 i2"
  shows "i0 * LENGTH('a) * LENGTH('a) + i1 * LENGTH('a) + i2 \<in> tbv_rest L it"
  using assms(4) elems_intro [OF assms(1-3)] row_bit [OF assms(2)] row_bit [OF assms(3)] by (simp add: tbv_rest_def compose)

lemma finite_rest: "finite (tbv_rest L it)"
  using finite_subset [OF elems_bounded [of L "it_bv it"]] by (simp add: tbv_rest_def)

lemma rest_mono:
  assumes "it_bv it' = it_bv it"
    and "\<And>i0 i1 i2. i0 < L \<Longrightarrow> i1 \<in> bits (l1 (it_bv it) ! i0) \<Longrightarrow> i2 \<in> bits (l2 (it_bv it) ! i0 ! i1) \<Longrightarrow>
      pending it' i0 i1 i2 \<Longrightarrow> pending it i0 i1 i2"
  shows "tbv_rest L it' \<subseteq> tbv_rest L it"
proof
  fix idx
  assume "idx \<in> tbv_rest L it'"
  then show "idx \<in> tbv_rest L it" by (rule rest_cases) (use assms rest_intro [of _ L _ it] in auto)
qed

lemma rest_eqI:
  assumes "it_bv it' = it_bv it"
    and "\<And>i0 i1 i2. i0 < L \<Longrightarrow> i1 \<in> bits (l1 (it_bv it) ! i0) \<Longrightarrow> i2 \<in> bits (l2 (it_bv it) ! i0 ! i1) \<Longrightarrow>
      pending it' i0 i1 i2 = pending it i0 i1 i2"
  shows "tbv_rest L it' = tbv_rest L it"
  using rest_mono [of it' it L] rest_mono [of it it' L] assms by auto

lemma rest_removeI:
  fixes it :: "'a::len word tbv_iterator"
  assumes bv: "it_bv it' = it_bv it" and k: "i1 < LENGTH('a)" "i2 < LENGTH('a)"
    and p: "\<And>j0 j1 j2. j0 < L \<Longrightarrow> j1 \<in> bits (l1 (it_bv it) ! j0) \<Longrightarrow> j2 \<in> bits (l2 (it_bv it) ! j0 ! j1) \<Longrightarrow>
      pending it' j0 j1 j2 \<longleftrightarrow> pending it j0 j1 j2 \<and> \<not> (j0 = i0 \<and> j1 = i1 \<and> j2 = i2)"
  shows "tbv_rest L it' = tbv_rest L it - {i0 * LENGTH('a) * LENGTH('a) + i1 * LENGTH('a) + i2}" (is "_ = _ - {?x}")
proof (intro equalityI subsetI)
  fix y
  assume "y \<in> tbv_rest L it'"
  then show "y \<in> tbv_rest L it - {?x}"
  proof (cases rule: rest_cases)
    case (1 j0 j1 j2)
    then have "pending it j0 j1 j2" "y \<noteq> ?x" using p [of j0 j1 j2] index_eq_iff [of j1 _ j2 i1 i2 j0 i0] k by (auto simp: bv)
    then show ?thesis using rest_intro [of j0 L j1 it j2] 1 by (simp add: bv)
  qed
next
  fix y
  assume y: "y \<in> tbv_rest L it - {?x}"
  then have "y \<in> tbv_rest L it" by simp
  then show "y \<in> tbv_rest L it'"
  proof (cases rule: rest_cases)
    case (1 j0 j1 j2)
    then have "pending it' j0 j1 j2" using p [of j0 j1 j2] y by auto
    then show ?thesis using rest_intro [of j0 L j1 it' j2] 1 by (simp add: bv)
  qed
qed

lemma tbv_begin_correct: "tbv_valid L b \<Longrightarrow> tbv_it_valid L (tbv_begin b) \<and> tbv_rest L (tbv_begin b) = tbv_elems L b"
  by (auto simp: tbv_it_valid_def tbv_begin_def bbv_clear_def tbv_rest_def pending_def)

lemma tbv_seek_correct:
  assumes "tbv_valid L (it_bv it)" "it_i0 it = k" "k \<le> i0" "i0 < L" "l1 (it_bv it) ! i0 \<noteq> 0"
    "\<And>j. k \<le> j \<Longrightarrow> j < i0 \<Longrightarrow> l1 (it_bv it) ! j = 0"
  shows "tbv_seek [k..<L] it = Some (it\<lparr>it_i0 := i0, it1 := l1 (it_bv it) ! i0\<rparr>)"
  using assms(3,1,2,4-)
proof (induction arbitrary: it rule: inc_induct)
  case base
  then show ?case
    by (simp add: upt_conv_Cons access [OF valid_shape] bbv_empty_def bbv_begin_def)
next
  case (step k)
  have "tbv_seek [k..<L] it = tbv_seek [Suc k..<L] (it\<lparr>it_i0 := Suc k\<rparr>)"
    using step by (simp add: upt_conv_Cons [of k] access [OF valid_shape] bbv_empty_def)
  also have "\<dots> = Some (it\<lparr>it_i0 := i0, it1 := l1 (it_bv it) ! i0\<rparr>)"
    using step.IH [of "it\<lparr>it_i0 := Suc k\<rparr>"] step.prems by simp
  finally show ?case .
qed

text \<open>\<open>next\<close> in three stages: find a row, find a word in it, take its first bit.\<close>

lemma next_row:
  assumes v: "tbv_it_valid L it" and ne: "tbv_rest L it \<noteq> {}" and e: "it1 it = 0" "it2 it = 0"
  shows "\<exists>it'. tbv_seek [it_i0 it..<L] it = Some it' \<and> tbv_it_valid L it' \<and> it2 it' = 0 \<and> it1 it' \<noteq> 0 \<and> tbv_rest L it' = tbv_rest L it"
proof -
  have b: "tbv_valid L (it_bv it)" using v by (simp add: tbv_it_valid_def)
  have "\<exists>i0. it_i0 it \<le> i0 \<and> i0 < L \<and> l1 (it_bv it) ! i0 \<noteq> 0"
  proof -
    obtain idx where "idx \<in> tbv_rest L it" using ne by blast
    then show ?thesis by (rule rest_cases) (use e in \<open>auto simp: pending_def\<close>)
  qed
  then obtain i0 where i0: "it_i0 it \<le> i0" "i0 < L" "l1 (it_bv it) ! i0 \<noteq> 0"
    "\<And>j. it_i0 it \<le> j \<Longrightarrow> j < i0 \<Longrightarrow> \<not> l1 (it_bv it) ! j \<noteq> 0" by (rule least_row) (rule that)
  define it' where "it' = it\<lparr>it_i0 := i0, it1 := l1 (it_bv it) ! i0\<rparr>"
  have "tbv_rest L it' = tbv_rest L it"
  proof (rule rest_eqI)
    fix j0 j1 j2
    assume j: "j0 < L" "j1 \<in> bits (l1 (it_bv it) ! j0)" "j2 \<in> bits (l2 (it_bv it) ! j0 ! j1)"
    then have "l1 (it_bv it) ! j0 \<noteq> 0" by auto
    then have "\<not> (it_i0 it \<le> j0 \<and> j0 < i0)" using i0(4) [of j0] by blast
    with i0(1,3) e j show "pending it' j0 j1 j2 = pending it j0 j1 j2" by (auto simp: pending_def it'_def)
  qed (simp add: it'_def)
  moreover have "tbv_it_valid L it'" using v i0 e by (simp add: tbv_it_valid_def it'_def)
  moreover have "tbv_seek [it_i0 it..<L] it = Some it'"
    unfolding it'_def by (rule tbv_seek_correct [OF b refl]) (use i0 in auto)
  ultimately show ?thesis using i0(3) e by (auto simp: it'_def)
qed

lemma next_word:
  assumes v: "tbv_it_valid L it" and e: "it1 it \<noteq> 0" "it2 it = 0"
  shows "\<exists>it'. do { CHECK (bbv_hasNext (it1 it)); (i1, r1) \<leftarrow> bbv_next (it1 it); x2 \<leftarrow> get2 (it_bv it) (it_i0 it) i1;
      Some (it\<lparr>it_i1 := i1, it1 := r1, it2 := bbv_begin x2\<rparr>) } = Some it' \<and>
    tbv_it_valid L it' \<and> it2 it' \<noteq> 0 \<and> tbv_rest L it' = tbv_rest L it"
proof -
  let ?b = "it_bv it" and ?i1 = "Min (bits (it1 it))"
  have b: "tbv_valid L ?b" "it_i0 it < L" and sub: "bits (it1 it) \<subseteq> bits (l1 ?b ! it_i0 it)"
    using v e by (auto simp: tbv_it_valid_def)
  have i1: "?i1 \<in> bits (it1 it)" using Min_bits e(1) by blast
  with sub have i1': "?i1 \<in> bits (l1 ?b ! it_i0 it)" by blast
  then have nz: "l2 ?b ! it_i0 it ! ?i1 \<noteq> 0" using b by (auto simp: tbv_valid_def)
  obtain r1 where r1: "bbv_next (it1 it) = Some (?i1, r1)" "bits r1 = bits (it1 it) - {?i1}"
    using bbv_first_eq [OF e(1)] by (auto simp: bbv_next_def)
  define it' where "it' = it\<lparr>it_i1 := ?i1, it1 := r1, it2 := l2 ?b ! it_i0 it ! ?i1\<rparr>"
  have "tbv_rest L it' = tbv_rest L it"
    by (rule rest_eqI) (use e nz i1 in \<open>auto simp: pending_def it'_def r1(2)\<close>)
  moreover have "\<forall>j\<in>bits r1. ?i1 < j" using r1(2) Min_bits(2) [of _ "it1 it"] by (auto simp: order.strict_iff_order)
  then have "tbv_it_valid L it'" using b sub i1' by (auto simp: tbv_it_valid_def it'_def r1(2))
  ultimately show ?thesis
    using r1(1) nz row_bit [OF i1'] b e by (simp add: access [OF valid_shape] bbv_hasNext_def bbv_empty_def bbv_begin_def it'_def)
qed

lemma next_bit:
  fixes it :: "'a::len word tbv_iterator"
  assumes v: "tbv_it_valid L it" and e: "it2 it \<noteq> 0"
  defines "i2 \<equiv> Min (bits (it2 it))"
  obtains r2 it' where "bbv_next (it2 it) = Some (i2, r2)"
    "Min (tbv_rest L it) = it_i0 it * LENGTH('a) * LENGTH('a) + it_i1 it * LENGTH('a) + i2"
    "it' = (if it1 it = 0 \<and> r2 = 0 then it\<lparr>it2 := r2, it_i0 := Suc (it_i0 it)\<rparr> else it\<lparr>it2 := r2\<rparr>)"
    "tbv_it_valid L it'" "tbv_rest L it' = tbv_rest L it - {Min (tbv_rest L it)}"
proof -
  let ?b = "it_bv it" and ?x = "it_i0 it * LENGTH('a) * LENGTH('a) + it_i1 it * LENGTH('a) + i2"
  have b: "tbv_valid L ?b" "it_i0 it < L" "it_i1 it \<in> bits (l1 ?b ! it_i0 it)" "bits (it2 it) \<subseteq> bits (l2 ?b ! it_i0 it ! it_i1 it)"
    and it1: "bits (it1 it) \<subseteq> bits (l1 ?b ! it_i0 it)" "\<forall>j\<in>bits (it1 it). it_i1 it < j"
    using v e by (auto simp: tbv_it_valid_def)
  have i2: "i2 \<in> bits (it2 it)" using Min_bits e by (simp add: i2_def)
  note k = row_bit [OF b(3)] row_bit [OF i2]
  have p: "pending it j0 j1 j2 \<longleftrightarrow> it_i0 it < j0 \<or> j0 = it_i0 it \<and> (j1 \<in> bits (it1 it) \<or> j1 = it_i1 it \<and> j2 \<in> bits (it2 it))"
    for j0 j1 j2 using e by (simp add: pending_def)
  have min: "Min (tbv_rest L it) = ?x"
  proof (rule Min_eqI [OF finite_rest])
    show "?x \<le> y" if "y \<in> tbv_rest L it" for y
      using that
    proof (cases rule: rest_cases)
      case (1 j0 j1 j2)
      have "j2 \<in> bits (it2 it) \<Longrightarrow> i2 \<le> j2" unfolding i2_def by (rule Min_bits)
      then show ?thesis unfolding 1(4) using 1(7) it1(2) k by (intro index_le) (auto simp: p)
    qed
  qed (rule rest_intro, use b i2 in \<open>auto simp: p\<close>)
  obtain r2 where r2: "bbv_next (it2 it) = Some (i2, r2)" "bits r2 = bits (it2 it) - {i2}"
    using bbv_first_eq [OF e] by (auto simp: bbv_next_def i2_def)
  define it' where "it' = (if it1 it = 0 \<and> r2 = 0 then it\<lparr>it2 := r2, it_i0 := Suc (it_i0 it)\<rparr> else it\<lparr>it2 := r2\<rparr>)"
  have "bits (it2 it) = {i2}" if "r2 = 0" using r2(2) i2 that by auto
  then have "tbv_rest L it' = tbv_rest L it - {?x}"
    by (intro rest_removeI k) (use it1(2) e in \<open>auto simp: it'_def pending_def r2(2)\<close>)
  moreover have "tbv_it_valid L it'" using b it1 by (auto simp: tbv_it_valid_def it'_def r2(2))
  ultimately show ?thesis using that [OF r2(1) min it'_def] by (simp add: min)
qed

lemma tbv_next_correct:
  fixes it :: "'a::len word tbv_iterator"
  assumes v: "tbv_it_valid L it" and ne: "tbv_rest L it \<noteq> {}"
  shows "\<exists>it'. tbv_next L it = Some (Min (tbv_rest L it), it') \<and> tbv_it_valid L it' \<and> tbv_rest L it' = tbv_rest L it - {Min (tbv_rest L it)}"
proof -
  note d = bbv_hasNext_def bbv_empty_def
  obtain a where a: "(if \<not> bbv_hasNext (it1 it) \<and> \<not> bbv_hasNext (it2 it) then tbv_seek [it_i0 it..<L] it else Some it) = Some a"
    "tbv_it_valid L a" "it1 a \<noteq> 0 \<or> it2 a \<noteq> 0" "tbv_rest L a = tbv_rest L it"
  proof (cases "it1 it = 0 \<and> it2 it = 0")
    case True
    then show ?thesis using that next_row [OF v ne] by (auto simp: d)
  next
    case False
    then show ?thesis using that [of it] v by (auto simp: d)
  qed
  obtain c where c: "(if \<not> bbv_hasNext (it2 a) then do { CHECK (bbv_hasNext (it1 a)); (i1, r1) \<leftarrow> bbv_next (it1 a);
      x2 \<leftarrow> get2 (it_bv a) (it_i0 a) i1; Some (a\<lparr>it_i1 := i1, it1 := r1, it2 := bbv_begin x2\<rparr>) } else Some a) = Some c"
    "tbv_it_valid L c" "it2 c \<noteq> 0" "tbv_rest L c = tbv_rest L it"
  proof (cases "it2 a = 0")
    case True
    then show ?thesis using that next_word [OF a(2)] a(3,4) by (auto simp: d)
  next
    case False
    then show ?thesis using that [of a] a by (auto simp: d)
  qed
  from next_bit [OF c(2,3)] obtain r2 it' where n: "bbv_next (it2 c) = Some (Min (bits (it2 c)), r2)"
    "Min (tbv_rest L c) = it_i0 c * LENGTH('a) * LENGTH('a) + it_i1 c * LENGTH('a) + Min (bits (it2 c))"
    "it' = (if it1 c = 0 \<and> r2 = 0 then c\<lparr>it2 := r2, it_i0 := Suc (it_i0 c)\<rparr> else c\<lparr>it2 := r2\<rparr>)"
    "tbv_it_valid L it'" "tbv_rest L it' = tbv_rest L c - {Min (tbv_rest L c)}" .
  have "tbv_next L it = Some (Min (tbv_rest L c), it')"
    unfolding tbv_next_def a(1) bind.simps c(1) n(2,3) using n(1) c(3) by (simp add: d Let_def)
  then show ?thesis using n(4,5) c(4) by simp
qed

lemma tbv_hasNext_correct:
  assumes v: "tbv_it_valid L it"
  shows "tbv_hasNext L it \<longleftrightarrow> tbv_rest L it \<noteq> {}"
proof -
  let ?b = "it_bv it"
  have b: "tbv_valid L ?b" and len: "length (l1 ?b) = L" using v by (auto simp: tbv_it_valid_def tbv_valid_def tbv_shape_def)
  have h: "tbv_hasNext L it \<longleftrightarrow> it1 it \<noteq> 0 \<or> (\<exists>i0<L. it_i0 it \<le> i0 \<and> l1 ?b ! i0 \<noteq> 0)"
  proof -
    have "(\<forall>n<L - k. P (k + n)) \<longleftrightarrow> (\<forall>i0<L. k \<le> i0 \<longrightarrow> P i0)" for k and P :: "nat \<Rightarrow> bool"
      by (auto simp: le_iff_add less_diff_conv add.commute)
    then have "list_all bbv_empty (drop k (l1 ?b)) \<longleftrightarrow> (\<forall>i0<L. k \<le> i0 \<longrightarrow> l1 ?b ! i0 = 0)" for k
      using len by (simp add: list_all_length bbv_empty_def)
    then show ?thesis using len by (auto simp: tbv_hasNext_def bbv_hasNext_def bbv_empty_def)
  qed
  show ?thesis
  proof
    assume n: "tbv_hasNext L it"
    have "\<exists>i0 i1 i2. i0 < L \<and> i1 \<in> bits (l1 ?b ! i0) \<and> i2 \<in> bits (l2 ?b ! i0 ! i1) \<and> pending it i0 i1 i2"
    proof (cases "it2 it = 0")
      case True
      obtain i0 i1 where i: "i0 < L" "i1 \<in> bits (l1 ?b ! i0)" "\<And>i2. pending it i0 i1 i2"
      proof (cases "it1 it = 0")
        case True
        then show ?thesis using n h that \<open>it2 it = 0\<close> by (auto simp: pending_def) (metis bits_eq_empty ex_in_conv)
      next
        case False
        obtain i1 where "i1 \<in> bits (it1 it)" using Min_bits(1) [OF False] by blast
        then show ?thesis using that [of "it_i0 it" i1] v False \<open>it2 it = 0\<close> by (auto simp: tbv_it_valid_def pending_def)
      qed
      moreover have "l2 ?b ! i0 ! i1 \<noteq> 0" using b i(1,2) by (auto simp: tbv_valid_def)
      ultimately show ?thesis using Min_bits(1) by blast
    next
      case False
      then show ?thesis using v Min_bits(1) [OF False]
        by (intro exI [of _ "it_i0 it"] exI [of _ "it_i1 it"] exI [of _ "Min (bits (it2 it))"]) (auto simp: tbv_it_valid_def pending_def)
    qed
    then show "tbv_rest L it \<noteq> {}" using rest_intro [of _ L _ it] by blast
  next
    assume "tbv_rest L it \<noteq> {}"
    then obtain idx where "idx \<in> tbv_rest L it" by blast
    then show "tbv_hasNext L it"
      by (rule rest_cases) (use h in \<open>auto simp: pending_def split: if_splits\<close>)
  qed
qed

text \<open>The class keeps the contract of a bit vector.\<close>

lemmas tbv_correct = valid_shape elems_bounded tbv_clear_correct tbv_setAll_correct tbv_empty_correct tbv_setBit_correct
  tbv_clearBit_correct tbv_getBit_correct tbv_getAndClearFirstOne_correct tbv_setUnion_correct tbv_setIntersection_correct
  tbv_setDifference_correct tbv_copyFrom_correct tbv_intersectsWith_correct tbv_begin_correct tbv_hasNext_correct tbv_next_correct

interpretation tbv: bit_vector "TwoLevelBitVector_ops L :: ('a::len word TwoLevelBitVector, 'a word tbv_iterator) BV"
  "tbv_shape L" "tbv_valid L" "tbv_elems L" "tbv_it_valid L" "tbv_rest L" for L
  by unfold_locales (unfold TwoLevelBitVector_ops_def BV.simps, (rule tbv_correct, assumption+ | rule elems_bounded finite_rest)+)

end
