(* ===== verification/San_BVGraph.thy ===== *)
theory San_BVGraph
  imports San_TwoLevel
begin

text \<open>
  \<open>sanitizer_bvgraph.h\<close>: \<open>BVGraph\<close>, a directed graph as an array of bit vectors, over any class \<open>BV\<close>
  that keeps the contract \<open>bit_vector\<close>. The loops that empty a bit vector end because of that
  contract, so they are partial functions, and the theorems show that they return.
\<close>

section \<open>Loops over a bit vector\<close>

text \<open>The loop \<open>while (!t.empty()) { uptr i = t.getAndClearFirstOne(); ... }\<close>.\<close>

partial_function (option) drain :: "('bv, 'it) BV \<Rightarrow> (nat \<Rightarrow> 's \<Rightarrow> 's option) \<Rightarrow> 'bv \<Rightarrow> 's \<Rightarrow> ('bv \<times> 's) option" where
  "drain B body t s =
    (if bv_empty B t then Some (t, s)
     else do { (i, t) \<leftarrow> bv_getAndClearFirstOne B t; s \<leftarrow> body i s; drain B body t s })"

text \<open>The loop \<open>for (BV::Iterator it(v); it.hasNext();) if (res = f(it.next())) return res + 1; return 0;\<close>.\<close>

partial_function (option) find_loop ::
    "('bv, 'it) BV \<Rightarrow> (nat \<Rightarrow> 's \<Rightarrow> (nat \<times> 's) option) \<Rightarrow> 'it \<Rightarrow> 's \<Rightarrow> (nat \<times> 's) option" where
  "find_loop B f it s =
    (if bv_hasNext B it then do {
       (idx, it) \<leftarrow> bv_next B it;
       (res, s) \<leftarrow> f idx s;
       if res \<noteq> 0 then Some (res + 1, s) else find_loop B f it s }
     else Some (0, s))"

section \<open>The code\<close>

record 'bv BVGraph =
  g_v :: "'bv list"
  g_t1 :: 'bv
  g_t2 :: 'bv

definition bvg_check :: "('bv, 'it) BV \<Rightarrow> nat \<Rightarrow> nat \<Rightarrow> unit option" where
  "bvg_check B idx1 idx2 = do { CHECK (idx1 < kSize B); CHECK (idx2 < kSize B) }"

definition bvg_clear :: "('bv, 'it) BV \<Rightarrow> 'bv BVGraph \<Rightarrow> 'bv BVGraph" where
  "bvg_clear B g = g\<lparr>g_v := map (bv_clear B) (g_v g)\<rparr>"

definition bvg_empty :: "('bv, 'it) BV \<Rightarrow> 'bv BVGraph \<Rightarrow> bool" where
  "bvg_empty B g = list_all (bv_empty B) (g_v g)"

definition bvg_addEdge :: "('bv, 'it) BV \<Rightarrow> 'bv BVGraph \<Rightarrow> nat \<Rightarrow> nat \<Rightarrow> (bool \<times> 'bv BVGraph) option" where
  "bvg_addEdge B g from to = do {
     bvg_check B from to;
     x \<leftarrow> array_get (g_v g) from;
     (res, x) \<leftarrow> bv_setBit B x to;
     v \<leftarrow> array_set (g_v g) from x;
     Some (res, g\<lparr>g_v := v\<rparr>) }"

text \<open>The state of the loop is the counter, the array \<open>added_edges\<close> and the array \<open>v\<close>.\<close>

definition addEdges_body :: "('bv, 'it) BV \<Rightarrow> nat \<Rightarrow> nat \<Rightarrow> nat \<Rightarrow> nat \<times> nat list \<times> 'bv list \<Rightarrow> (nat \<times> nat list \<times> 'bv list) option" where
  "addEdges_body B to max_added_edges node = (\<lambda>(res, added_edges, v). do {
     x \<leftarrow> array_get v node;
     (new, x) \<leftarrow> bv_setBit B x to;
     v \<leftarrow> array_set v node x;
     if new then
       if res < max_added_edges then do {
         added_edges \<leftarrow> array_set added_edges res node;
         Some (res + 1, added_edges, v) }
       else Some (res, added_edges, v)
     else Some (res, added_edges, v) })"

definition bvg_addEdges ::
    "('bv, 'it) BV \<Rightarrow> 'bv BVGraph \<Rightarrow> 'bv \<Rightarrow> nat \<Rightarrow> nat list \<Rightarrow> nat \<Rightarrow> (nat \<times> nat list \<times> 'bv BVGraph) option" where
  "bvg_addEdges B g from to added_edges max_added_edges = do {
     t1 \<leftarrow> bv_copyFrom B (g_t1 g) from;
     (t1, res, added_edges, v) \<leftarrow> drain B (addEdges_body B to max_added_edges) t1 (0, added_edges, g_v g);
     Some (res, added_edges, g\<lparr>g_v := v, g_t1 := t1\<rparr>) }"

definition bvg_hasEdge_racy :: "('bv, 'it) BV \<Rightarrow> 'bv BVGraph \<Rightarrow> nat \<Rightarrow> nat \<Rightarrow> bool option" where
  "bvg_hasEdge_racy B g from to = do { x \<leftarrow> array_get (g_v g) from; bv_getBit B x to }"

definition bvg_removeEdge :: "('bv, 'it) BV \<Rightarrow> 'bv BVGraph \<Rightarrow> nat \<Rightarrow> nat \<Rightarrow> (bool \<times> 'bv BVGraph) option" where
  "bvg_removeEdge B g from to = do {
     x \<leftarrow> array_get (g_v g) from;
     (res, x) \<leftarrow> bv_clearBit B x to;
     v \<leftarrow> array_set (g_v g) from x;
     Some (res, g\<lparr>g_v := v\<rparr>) }"

definition removeEdgesTo_body :: "('bv, 'it) BV \<Rightarrow> 'bv \<Rightarrow> nat \<Rightarrow> bool \<times> 'bv list \<Rightarrow> (bool \<times> 'bv list) option" where
  "removeEdgesTo_body B to from = (\<lambda>(res, v). do {
     x \<leftarrow> array_get v from;
     (removed, x) \<leftarrow> bv_setDifference B x to;
     v \<leftarrow> array_set v from x;
     Some (if removed then True else res, v) })"

definition bvg_removeEdgesTo :: "('bv, 'it) BV \<Rightarrow> 'bv BVGraph \<Rightarrow> 'bv \<Rightarrow> (bool \<times> 'bv BVGraph) option" where
  "bvg_removeEdgesTo B g to = do {
     (res, v) \<leftarrow> for_each [0..<kSize B] (removeEdgesTo_body B to) (False, g_v g);
     Some (res, g\<lparr>g_v := v\<rparr>) }"

definition removeEdgesFrom_body :: "('bv, 'it) BV \<Rightarrow> nat \<Rightarrow> bool \<times> 'bv list \<Rightarrow> (bool \<times> 'bv list) option" where
  "removeEdgesFrom_body B idx = (\<lambda>(res, v). do {
     x \<leftarrow> array_get v idx;
     if \<not> bv_empty B x then do { v \<leftarrow> array_set v idx (bv_clear B x); Some (True, v) } else Some (res, v) })"

definition bvg_removeEdgesFrom :: "('bv, 'it) BV \<Rightarrow> 'bv BVGraph \<Rightarrow> 'bv \<Rightarrow> (bool \<times> 'bv BVGraph) option" where
  "bvg_removeEdgesFrom B g from = do {
     t1 \<leftarrow> bv_copyFrom B (g_t1 g) from;
     (t1, res, v) \<leftarrow> drain B (removeEdgesFrom_body B) t1 (False, g_v g);
     Some (res, g\<lparr>g_v := v, g_t1 := t1\<rparr>) }"

definition bvg_removeEdgesFrom_node :: "('bv, 'it) BV \<Rightarrow> 'bv BVGraph \<Rightarrow> nat \<Rightarrow> 'bv BVGraph option" where
  "bvg_removeEdgesFrom_node B g from = do {
     x \<leftarrow> array_get (g_v g) from;
     v \<leftarrow> array_set (g_v g) from (bv_clear B x);
     Some (g\<lparr>g_v := v\<rparr>) }"

definition bvg_hasEdge :: "('bv, 'it) BV \<Rightarrow> 'bv BVGraph \<Rightarrow> nat \<Rightarrow> nat \<Rightarrow> bool option" where
  "bvg_hasEdge B g from to = do { bvg_check B from to; x \<leftarrow> array_get (g_v g) from; bv_getBit B x to }"

partial_function (option) reach_loop :: "('bv, 'it) BV \<Rightarrow> 'bv list \<Rightarrow> 'bv \<Rightarrow> 'bv \<Rightarrow> ('bv \<times> 'bv) option" where
  "reach_loop B v to_visit visited =
    (if bv_empty B to_visit then Some (to_visit, visited)
     else do {
       (idx, to_visit) \<leftarrow> bv_getAndClearFirstOne B to_visit;
       (new, visited) \<leftarrow> bv_setBit B visited idx;
       to_visit \<leftarrow> (if new then do { x \<leftarrow> array_get v idx; (_, t) \<leftarrow> bv_setUnion B to_visit x; Some t } else Some to_visit);
       reach_loop B v to_visit visited })"

declare drain.simps [code] find_loop.simps [code] reach_loop.simps [code]

definition bvg_isReachable :: "('bv, 'it) BV \<Rightarrow> 'bv BVGraph \<Rightarrow> nat \<Rightarrow> 'bv \<Rightarrow> (bool \<times> 'bv BVGraph) option" where
  "bvg_isReachable B g from targets = do {
     x \<leftarrow> array_get (g_v g) from;
     to_visit \<leftarrow> bv_copyFrom B (g_t1 g) x;
     let visited = bv_clear B (g_t2 g);
     (_, visited) \<leftarrow> bv_setBit B visited from;
     (to_visit, visited) \<leftarrow> reach_loop B (g_v g) to_visit visited;
     r \<leftarrow> bv_intersectsWith B targets visited;
     Some (r, g\<lparr>g_t1 := to_visit, g_t2 := visited\<rparr>) }"

text \<open>The pointer \<open>path\<close> is an array with the offset \<open>off\<close> of its first item.\<close>

fun bvg_findPath :: "('bv, 'it) BV \<Rightarrow> 'bv BVGraph \<Rightarrow> nat \<Rightarrow> 'bv \<Rightarrow> nat list \<Rightarrow> nat \<Rightarrow> nat \<Rightarrow> (nat \<times> nat list) option" where
  "bvg_findPath B g from targets path off 0 = Some (0, path)"
| "bvg_findPath B g from targets path off (Suc n) = do {
     path \<leftarrow> array_set path off from;
     t \<leftarrow> bv_getBit B targets from;
     if t then Some (1, path)
     else do {
       x \<leftarrow> array_get (g_v g) from;
       find_loop B (\<lambda>idx path. bvg_findPath B g idx targets path (off + 1) n) (bv_begin B x) path } }"

fun shortest_loop :: "('bv, 'it) BV \<Rightarrow> 'bv BVGraph \<Rightarrow> nat \<Rightarrow> 'bv \<Rightarrow> nat list \<Rightarrow> nat list \<Rightarrow> (nat \<times> nat list) option" where
  "shortest_loop B g from targets [] path = Some (0, path)"
| "shortest_loop B g from targets (p # ps) path = do {
     (r, path) \<leftarrow> bvg_findPath B g from targets path 0 p;
     if r = p then Some (p, path) else shortest_loop B g from targets ps path }"

definition bvg_findShortestPath :: "('bv, 'it) BV \<Rightarrow> 'bv BVGraph \<Rightarrow> nat \<Rightarrow> 'bv \<Rightarrow> nat list \<Rightarrow> nat \<Rightarrow> (nat \<times> nat list) option" where
  "bvg_findShortestPath B g from targets path path_size = shortest_loop B g from targets [1..<path_size + 1] path"

section \<open>The graph of an object\<close>

definition bvg_shape :: "('bv, 'it) BV \<Rightarrow> ('bv \<Rightarrow> bool) \<Rightarrow> 'bv BVGraph \<Rightarrow> bool" where
  "bvg_shape B shape g \<longleftrightarrow> length (g_v g) = kSize B \<and> (\<forall>x\<in>set (g_v g). shape x) \<and> shape (g_t1 g) \<and> shape (g_t2 g)"

definition bvg_valid :: "('bv, 'it) BV \<Rightarrow> ('bv \<Rightarrow> bool) \<Rightarrow> ('bv \<Rightarrow> bool) \<Rightarrow> 'bv BVGraph \<Rightarrow> bool" where
  "bvg_valid B shape valid g \<longleftrightarrow> length (g_v g) = kSize B \<and> (\<forall>x\<in>set (g_v g). valid x) \<and> shape (g_t1 g) \<and> shape (g_t2 g)"

definition edges :: "('bv \<Rightarrow> nat set) \<Rightarrow> 'bv list \<Rightarrow> (nat \<times> nat) set" where
  "edges elems v = {(i, j). i < length v \<and> j \<in> elems (v ! i)}"

lemma edges_update: "i < length v \<Longrightarrow> edges elems (v[i := x]) = {e \<in> edges elems v. fst e \<noteq> i} \<union> {i} \<times> elems x"
  by (auto simp: edges_def nth_list_update split: if_splits)

section \<open>The loops under the contract\<close>

context bit_vector
begin

lemma drain_eq:
  assumes "valid t"
  shows "\<exists>t'. valid t' \<and> elems t' = {} \<and>
    (\<forall>s. drain B body t s = map_option (Pair t') (for_each (sorted_list_of_set (elems t)) body s))"
  using assms
proof (induction "card (elems t)" arbitrary: t rule: less_induct)
  case less
  show ?case
  proof (cases "elems t = {}")
    case True
    then show ?thesis using less.prems empty by (intro exI [of _ t]) (simp add: drain.simps)
  next
    case False
    then obtain u where u: "bv_getAndClearFirstOne B t = Some (Min (elems t), u)" "valid u" "elems u = elems t - {Min (elems t)}"
      using getAndClearFirstOne [OF less.prems] by blast
    have "card (elems u) < card (elems t)" using False less.prems u(3) by (metis Min_in card_Diff1_less finite_elems)
    from less.hyps [OF this u(2)] obtain t' where t': "valid t'" "elems t' = {}"
      "\<And>s. drain B body u s = map_option (Pair t') (for_each (sorted_list_of_set (elems u)) body s)" by blast
    have "drain B body t s = map_option (Pair t') (for_each (sorted_list_of_set (elems t)) body s)" for s
      using False less.prems empty [OF less.prems] u(1,3) t'(3)
      by (cases "body (Min (elems t)) s") (simp_all add: drain.simps [of B body t] sorted_list_of_set_nonempty)
    with t' show ?thesis by blast
  qed
qed

lemma drain_rule:
  assumes t: "valid t" "I {} s"
    and step: "\<And>i D s. i \<in> elems t \<Longrightarrow> i \<notin> D \<Longrightarrow> I D s \<Longrightarrow> \<exists>s'. body i s = Some s' \<and> I (insert i D) s'"
  obtains t' s' where "drain B body t s = Some (t', s')" "valid t'" "I (elems t) s'"
proof -
  obtain s' where "for_each (sorted_list_of_set (elems t)) body s = Some s'" "I (elems t) s'"
    using for_each_rule [of "sorted_list_of_set (elems t)" I s body] t step by auto
  with drain_eq [OF t(1), of body] that show ?thesis by auto
qed

text \<open>The array of a graph: its length and the validity of its items.\<close>

definition rows :: "'bv list \<Rightarrow> bool" where
  "rows v \<longleftrightarrow> length v = kSize B \<and> (\<forall>x\<in>set v. valid x)"

lemma rows_get: "rows v \<Longrightarrow> i < kSize B \<Longrightarrow> array_get v i = Some (v ! i) \<and> valid (v ! i)"
  by (simp add: rows_def)

lemma rows_set: "rows v \<Longrightarrow> i < kSize B \<Longrightarrow> valid x \<Longrightarrow>
    array_set v i x = Some (v[i := x]) \<and> rows (v[i := x]) \<and>
    edges elems (v[i := x]) = {e \<in> edges elems v. fst e \<noteq> i} \<union> {i} \<times> elems x"
  by (auto simp: rows_def edges_update dest!: set_update_subset_insert [THEN subsetD])

lemma rows_edge: "rows v \<Longrightarrow> i < kSize B \<Longrightarrow> j \<in> elems (v ! i) \<longleftrightarrow> (i, j) \<in> edges elems v"
  by (simp add: rows_def edges_def)

lemma edges_bound: "rows v \<Longrightarrow> edges elems v \<subseteq> {..<kSize B} \<times> {..<kSize B}"
  using elems_bound by (force simp: rows_def edges_def)

lemma graph_valid: "bvg_valid B shape valid g \<longleftrightarrow> rows (g_v g) \<and> shape (g_t1 g) \<and> shape (g_t2 g)"
  by (auto simp: bvg_valid_def rows_def)

lemma clear_graph: "bvg_shape B shape g \<Longrightarrow> bvg_valid B shape valid (bvg_clear B g) \<and> edges elems (g_v (bvg_clear B g)) = {}"
  using clear by (auto simp: bvg_shape_def bvg_valid_def bvg_clear_def edges_def)

lemma empty_graph: "bvg_valid B shape valid g \<Longrightarrow> bvg_empty B g \<longleftrightarrow> edges elems (g_v g) = {}"
  using empty by (auto simp: bvg_valid_def bvg_empty_def edges_def list_all_length)

lemma addEdge_graph:
  assumes "bvg_valid B shape valid g" "from < kSize B" "to < kSize B"
  shows "\<exists>g'. bvg_addEdge B g from to = Some ((from, to) \<notin> edges elems (g_v g), g') \<and> bvg_valid B shape valid g' \<and>
    edges elems (g_v g') = insert (from, to) (edges elems (g_v g))"
proof -
  have r: "rows (g_v g)" using assms by (simp add: graph_valid)
  obtain x where x: "bv_setBit B (g_v g ! from) to = Some (to \<notin> elems (g_v g ! from), x)" "valid x" "elems x = insert to (elems (g_v g ! from))"
    using setBit [of "g_v g ! from" to] rows_get [OF r assms(2)] assms(3) by blast
  show ?thesis
    using assms rows_get [OF r assms(2)] rows_set [OF r assms(2) x(2)] x rows_edge [OF r assms(2)]
    by (auto simp: bvg_addEdge_def bvg_check_def graph_valid)
qed

lemma addEdge_check: "\<not> (from < kSize B \<and> to < kSize B) \<Longrightarrow> bvg_addEdge B g from to = None"
  by (auto simp: bvg_addEdge_def bvg_check_def)

lemma removeEdge_graph:
  assumes "bvg_valid B shape valid g" "from < kSize B" "to < kSize B"
  shows "\<exists>g'. bvg_removeEdge B g from to = Some ((from, to) \<in> edges elems (g_v g), g') \<and> bvg_valid B shape valid g' \<and>
    edges elems (g_v g') = edges elems (g_v g) - {(from, to)}"
proof -
  have r: "rows (g_v g)" using assms by (simp add: graph_valid)
  obtain x where x: "bv_clearBit B (g_v g ! from) to = Some (to \<in> elems (g_v g ! from), x)" "valid x" "elems x = elems (g_v g ! from) - {to}"
    using clearBit [of "g_v g ! from" to] rows_get [OF r assms(2)] assms(3) by auto
  have v: "j \<in> elems (g_v g ! from) \<longleftrightarrow> (from, j) \<in> edges elems (g_v g)" for j by (rule rows_edge [OF r assms(2)])
  have "edges elems ((g_v g)[from := x]) = {e \<in> edges elems (g_v g). fst e \<noteq> from} \<union> {from} \<times> elems x"
    using rows_set [OF r assms(2) x(2)] by blast
  also have "\<dots> = edges elems (g_v g) - {(from, to)}" unfolding x(3) by (auto simp: v)
  finally show ?thesis
    using assms rows_get [OF r assms(2)] rows_set [OF r assms(2) x(2)] x(1) rows_edge [OF r assms(2), of to]
    by (simp add: bvg_removeEdge_def graph_valid)
qed

lemma hasEdge_graph:
  "bvg_valid B shape valid g \<Longrightarrow> from < kSize B \<Longrightarrow> to < kSize B \<Longrightarrow> bvg_hasEdge B g from to = Some ((from, to) \<in> edges elems (g_v g))"
  "bvg_valid B shape valid g \<Longrightarrow> from < kSize B \<Longrightarrow> to < kSize B \<Longrightarrow> bvg_hasEdge_racy B g from to = bvg_hasEdge B g from to"
  using rows_get [of "g_v g" "from"] getBit [of "g_v g ! from" to] rows_edge [of "g_v g" "from" to]
  by (simp_all add: graph_valid bvg_hasEdge_def bvg_hasEdge_racy_def bvg_check_def)

lemma removeEdgesFrom_node_graph:
  assumes "bvg_valid B shape valid g" "from < kSize B"
  shows "\<exists>g'. bvg_removeEdgesFrom_node B g from = Some g' \<and> bvg_valid B shape valid g' \<and>
    edges elems (g_v g') = {e \<in> edges elems (g_v g). fst e \<noteq> from}"
proof -
  have r: "rows (g_v g)" using assms by (simp add: graph_valid)
  have "valid (bv_clear B (g_v g ! from)) \<and> elems (bv_clear B (g_v g ! from)) = {}"
    using rows_get [OF r assms(2)] clear valid_shape by blast
  then show ?thesis
    using assms rows_get [OF r assms(2)] rows_set [OF r assms(2), of "bv_clear B (g_v g ! from)"]
    by (auto simp: bvg_removeEdgesFrom_node_def graph_valid)
qed

text \<open>Edges into one node: \<open>added_edges\<close> holds the first of the new ones, in increasing order.\<close>

lemma addEdges_loop:
  assumes "rows v" "to < kSize B" "distinct ns" "set ns \<subseteq> {..<kSize B}" "m \<le> length arr" "res \<le> m"
  defines "new \<equiv> filter (\<lambda>n. (n, to) \<notin> edges elems v) ns"
  shows "\<exists>arr' v'. for_each ns (addEdges_body B to m) (res, arr, v) = Some (min m (res + length new), arr', v') \<and>
    rows v' \<and> edges elems v' = edges elems v \<union> set ns \<times> {to} \<and> length arr' = length arr \<and>
    take (min m (res + length new)) arr' = take res arr @ take (m - res) new"
  using assms(1-6) unfolding new_def
proof (induction ns arbitrary: v res arr)
  case (Cons n ns)
  then have n: "n < kSize B" by simp
  obtain x where x: "bv_setBit B (v ! n) to = Some (to \<notin> elems (v ! n), x)" "valid x" "elems x = insert to (elems (v ! n))"
    using setBit [of "v ! n" to] rows_get [OF Cons.prems(1) n] Cons.prems(2) by blast
  define v' where "v' = v[n := x]"
  have v': "array_set v n x = Some v'" "rows v'" and e: "edges elems v' = {e \<in> edges elems v. fst e \<noteq> n} \<union> {n} \<times> elems x"
    using rows_set [OF Cons.prems(1) n x(2)] by (simp_all add: v'_def)
  have v'3: "edges elems v' = insert (n, to) (edges elems v)"
    unfolding e x(3) using rows_edge [OF Cons.prems(1) n] by auto
  have f: "filter (\<lambda>k. (k, to) \<notin> edges elems v') ns = filter (\<lambda>k. (k, to) \<notin> edges elems v) ns"
    using Cons.prems(3) by (intro filter_cong) (auto simp: v'3)
  have step: "addEdges_body B to m n (res, arr, v) =
      Some (if (n, to) \<notin> edges elems v \<and> res < m then (res + 1, arr[res := n], v') else (res, arr, v'))"
    using rows_get [OF Cons.prems(1) n] x(1) v'(1) rows_edge [OF Cons.prems(1) n] Cons.prems(5)
    by (auto simp: addEdges_body_def)
  let ?new = "filter (\<lambda>k. (k, to) \<notin> edges elems v) ns"
  show ?case
  proof (cases "(n, to) \<notin> edges elems v \<and> res < m")
    case True
    have a: "take (Suc res) (arr[res := n]) = take res arr @ [n]" using True Cons.prems(5) by (simp add: take_Suc_conv_app_nth)
    obtain arr' v'' where "for_each ns (addEdges_body B to m) (res + 1, arr[res := n], v') = Some (min m (res + 1 + length ?new), arr', v'')"
      "rows v''" "edges elems v'' = edges elems v' \<union> set ns \<times> {to}" "length arr' = length (arr[res := n])"
      "take (min m (res + 1 + length ?new)) arr' = take (res + 1) (arr[res := n]) @ take (m - (res + 1)) ?new"
      using Cons.IH [OF v'(2) Cons.prems(2), of "arr[res := n]" "res + 1", unfolded f] Cons.prems True by auto
    moreover have "take (m - res) (n # ?new) = n # take (m - (res + 1)) ?new" using True by (simp add: take_Cons')
    ultimately show ?thesis using True a unfolding v'3 by (simp add: step)
  next
    case False
    obtain arr' v'' where "for_each ns (addEdges_body B to m) (res, arr, v') = Some (min m (res + length ?new), arr', v'')"
      "rows v''" "edges elems v'' = edges elems v' \<union> set ns \<times> {to}" "length arr' = length arr"
      "take (min m (res + length ?new)) arr' = take res arr @ take (m - res) ?new"
      using Cons.IH [OF v'(2) Cons.prems(2), of arr res, unfolded f] Cons.prems by auto
    moreover have "for_each (n # ns) (addEdges_body B to m) (res, arr, v) = for_each ns (addEdges_body B to m) (res, arr, v')"
      using False by (auto simp: step)
    ultimately show ?thesis using False Cons.prems(6) unfolding v'3 by (cases "(n, to) \<in> edges elems v") simp_all
  qed
qed auto

lemma addEdges_graph:
  assumes "bvg_valid B shape valid g" "valid from" "to < kSize B" "m \<le> length arr"
  defines "new \<equiv> {n \<in> elems from. (n, to) \<notin> edges elems (g_v g)}"
  shows "\<exists>arr' g'. bvg_addEdges B g from to arr m = Some (min m (card new), arr', g') \<and> bvg_valid B shape valid g' \<and>
    edges elems (g_v g') = edges elems (g_v g) \<union> elems from \<times> {to} \<and>
    take (min m (card new)) arr' = take m (sorted_list_of_set new)"
proof -
  have r: "rows (g_v g)" and s: "shape (g_t1 g)" "shape (g_t2 g)" using assms by (auto simp: graph_valid)
  obtain t where t: "bv_copyFrom B (g_t1 g) from = Some t" "valid t" "elems t = elems from" using copyFrom [OF s(1) assms(2)] by blast
  obtain t' where t': "valid t'" "\<And>st. drain B (addEdges_body B to m) t st =
      map_option (Pair t') (for_each (sorted_list_of_set (elems from)) (addEdges_body B to m) st)"
    using drain_eq [OF t(2)] t(3) by metis
  have new: "filter (\<lambda>n. (n, to) \<notin> edges elems (g_v g)) (sorted_list_of_set (elems from)) = sorted_list_of_set new"
    using assms(2) by (intro sorted_distinct_set_unique) (auto simp: new_def sorted_wrt_filter)
  have sub: "set (sorted_list_of_set (elems from)) \<subseteq> {..<kSize B}" using elems_bound [OF assms(2)] assms(2) by simp
  from addEdges_loop [OF r assms(3) _ sub assms(4), of 0, unfolded new] show ?thesis
    using t(1) t' s assms(2) valid_shape [OF t'(1)] by (auto simp: bvg_addEdges_def graph_valid)
qed

text \<open>A loop that removes, at the indices done so far, the edges with \<open>P\<close>, and reports whether there was one.\<close>

definition removing :: "(nat \<times> nat) set \<Rightarrow> (nat \<Rightarrow> bool) \<Rightarrow> nat set \<Rightarrow> bool \<times> 'bv list \<Rightarrow> bool" where
  "removing E P D s \<longleftrightarrow> fst s = (\<exists>(i, j)\<in>E. i \<in> D \<and> P j) \<and> rows (snd s) \<and> edges elems (snd s) = E - {(i, j). i \<in> D \<and> P j}"

lemma removing_step:
  assumes s: "removing E P D (res, v)" and i: "i < kSize B" "i \<notin> D"
    and x: "valid x" "elems x = {j \<in> elems (v ! i). \<not> P j}"
  shows "removing E P (insert i D) (res \<or> (\<exists>j\<in>elems (v ! i). P j), v[i := x])"
proof -
  have v: "rows v" "edges elems v = E - {(i, j). i \<in> D \<and> P j}" "res = (\<exists>(i, j)\<in>E. i \<in> D \<and> P j)"
    using s by (auto simp: removing_def)
  have e: "elems (v ! i) = {j. (i, j) \<in> E}" using rows_edge [OF v(1) i(1)] i(2) by (auto simp: v(2))
  have "edges elems (v[i := x]) = {a \<in> E - {(i, j). i \<in> D \<and> P j}. fst a \<noteq> i} \<union> {i} \<times> {j. (i, j) \<in> E \<and> \<not> P j}"
    using rows_set [OF v(1) i(1) x(1)] by (simp add: v(2) x(2) e)
  also have "\<dots> = E - {(k, j). k \<in> insert i D \<and> P j}" using i(2) by auto
  finally show ?thesis
    using rows_set [OF v(1) i(1) x(1)] by (auto simp: removing_def v(3) e)
qed

lemma removeEdgesTo_graph:
  assumes "bvg_valid B shape valid g" "valid to"
  shows "\<exists>g'. bvg_removeEdgesTo B g to = Some (edges elems (g_v g) \<inter> UNIV \<times> elems to \<noteq> {}, g') \<and> bvg_valid B shape valid g' \<and>
    edges elems (g_v g') = edges elems (g_v g) - UNIV \<times> elems to"
proof -
  define E where "E = edges elems (g_v g)"
  let ?I = "removing E (\<lambda>j. j \<in> elems to)"
  have r: "rows (g_v g)" using assms by (simp add: graph_valid)
  have base: "?I {} (False, g_v g)" using r by (simp add: removing_def E_def)
  have step: "\<exists>s'. removeEdgesTo_body B to i s = Some s' \<and> ?I (insert i D) s'"
    if i: "i \<in> set [0..<kSize B]" "i \<notin> D" and s: "?I D s" for i D s
  proof -
    obtain res v where sv: "s = (res, v)" by force
    have v: "rows v" and ib: "i < kSize B" using s i by (auto simp: sv removing_def)
    obtain x where x: "bv_setDifference B (v ! i) to = Some (elems (v ! i) \<inter> elems to \<noteq> {}, x)" "valid x" "elems x = elems (v ! i) - elems to"
      using setDifference [of "v ! i" to] rows_get [OF v ib] assms(2) by blast
    have "removeEdgesTo_body B to i s = Some (res \<or> (\<exists>j\<in>elems (v ! i). j \<in> elems to), v[i := x])"
      using rows_get [OF v ib] rows_set [OF v ib x(2)] x(1) by (auto simp: sv removeEdgesTo_body_def)
    then show ?thesis using removing_step [OF s [unfolded sv] ib i(2) x(2)] x(3) by (auto simp: set_diff_eq)
  qed
  obtain s where "for_each [0..<kSize B] (removeEdgesTo_body B to) (False, g_v g) = Some s" "?I (set [0..<kSize B]) s"
    by (rule for_each_rule [of "[0..<kSize B]" ?I, OF distinct_upt base step])
  moreover obtain res v where "s = (res, v)" by force
  moreover have "(\<exists>(i, j)\<in>E. i \<in> set [0..<kSize B] \<and> j \<in> elems to) \<longleftrightarrow> E \<inter> UNIV \<times> elems to \<noteq> {}"
    "E - {(i, j). i \<in> set [0..<kSize B] \<and> j \<in> elems to} = E - UNIV \<times> elems to"
    using edges_bound [OF r] by (auto simp flip: E_def)
  ultimately show ?thesis using assms by (simp add: bvg_removeEdgesTo_def removing_def graph_valid flip: E_def)
qed

lemma removeEdgesFrom_graph:
  assumes "bvg_valid B shape valid g" "valid from"
  shows "\<exists>g'. bvg_removeEdgesFrom B g from = Some (edges elems (g_v g) \<inter> elems from \<times> UNIV \<noteq> {}, g') \<and> bvg_valid B shape valid g' \<and>
    edges elems (g_v g') = edges elems (g_v g) - elems from \<times> UNIV"
proof -
  define E where "E = edges elems (g_v g)"
  let ?I = "removing E (\<lambda>j. True)"
  have r: "rows (g_v g)" and sh: "shape (g_t1 g)" "shape (g_t2 g)" using assms by (auto simp: graph_valid)
  obtain t where t: "bv_copyFrom B (g_t1 g) from = Some t" "valid t" "elems t = elems from" using copyFrom [OF sh(1) assms(2)] by blast
  have base: "?I {} (False, g_v g)" using r by (simp add: removing_def E_def)
  have step: "\<exists>s'. removeEdgesFrom_body B i s = Some s' \<and> ?I (insert i D) s'"
    if i: "i \<in> elems t" "i \<notin> D" and s: "?I D s" for i D s
  proof -
    obtain res v where sv: "s = (res, v)" by force
    have v: "rows v" and ib: "i < kSize B" using s i elems_bound [OF t(2)] by (auto simp: sv removing_def)
    note g = rows_get [OF v ib]
    let ?x = "if bv_empty B (v ! i) then v ! i else bv_clear B (v ! i)"
    have x: "valid ?x" "elems ?x = {}" using g clear valid_shape empty by auto
    have "removeEdgesFrom_body B i s = Some (res \<or> (\<exists>j\<in>elems (v ! i). True), v[i := ?x])"
      using g v ib empty [of "v ! i"] by (cases "elems (v ! i) = {}") (simp_all add: sv removeEdgesFrom_body_def rows_def ex_in_conv)
    then show ?thesis using removing_step [OF s [unfolded sv] ib i(2) x(1)] x(2) by auto
  qed
  obtain t' s where d: "drain B (removeEdgesFrom_body B) t (False, g_v g) = Some (t', s)" "valid t'" "?I (elems t) s"
    by (rule drain_rule [of t ?I, OF t(2) base step])
  moreover obtain res v where "s = (res, v)" by force
  moreover have "(\<exists>(i, j)\<in>E. i \<in> elems from) \<longleftrightarrow> E \<inter> elems from \<times> UNIV \<noteq> {}" "E - {(i, j). i \<in> elems from} = E - elems from \<times> UNIV"
    by auto
  ultimately show ?thesis using assms t valid_shape [OF d(2)] sh by (simp add: bvg_removeEdgesFrom_def removing_def graph_valid flip: E_def)
qed

text \<open>Reachability. The loop visits closed sets only when it ends; the nodes not visited and the
  nodes to visit bound the number of its rounds.\<close>

definition reach_measure :: "'bv \<Rightarrow> 'bv \<Rightarrow> nat" where
  "reach_measure to_visit visited = (kSize B - card (elems visited)) * Suc (kSize B) + card (elems to_visit)"

lemma card_elems: "valid b \<Longrightarrow> card (elems b) \<le> kSize B"
  using card_mono [OF _ elems_bound [of b]] by simp

lemma reach_measure_new:
  assumes "valid t'" "valid vis" "valid vis'" "elems vis' = insert i (elems vis)" "i \<notin> elems vis"
  shows "reach_measure t' vis' < reach_measure t vis"
proof -
  have c: "card (elems vis') = Suc (card (elems vis))" "card (elems vis') \<le> kSize B"
    using assms card_elems [of vis'] by simp_all
  then have "kSize B - card (elems vis) = Suc (kSize B - card (elems vis'))" by simp
  then show ?thesis using card_elems [OF assms(1)] by (simp add: reach_measure_def)
qed

lemma reach_loop_correct:
  assumes v: "rows v" and "valid to_visit" "valid visited"
    and "elems visited \<union> elems to_visit \<subseteq> (edges elems v)\<^sup>* `` {from}" "from \<in> elems visited"
    and "edges elems v `` elems visited \<subseteq> elems visited \<union> elems to_visit"
  shows "\<exists>to_visit' visited'. reach_loop B v to_visit visited = Some (to_visit', visited') \<and> valid to_visit' \<and> valid visited' \<and>
    elems visited' = (edges elems v)\<^sup>* `` {from}"
  using assms(2-)
proof (induction "reach_measure to_visit visited" arbitrary: to_visit visited rule: less_induct)
  case (less t vis)
  let ?E = "edges elems v"
  show ?case
  proof (cases "elems t = {}")
    case True
    have "y \<in> elems vis" if "(from, y) \<in> ?E\<^sup>*" for y
      using that by (induction rule: rtrancl_induct) (use less.prems True in auto)
    then have "elems vis = ?E\<^sup>* `` {from}" using less.prems(3) by auto
    then show ?thesis using True less.prems empty [OF less.prems(1)] by (simp add: reach_loop.simps)
  next
    case False
    let ?i = "Min (elems t)"
    obtain u where u: "bv_getAndClearFirstOne B t = Some (?i, u)" "valid u" "elems u = elems t - {?i}"
      using getAndClearFirstOne [OF less.prems(1) False] by blast
    have i: "?i \<in> elems t" "?i < kSize B" using Min_in [OF finite_elems False] less.prems(1) elems_bound by blast+
    obtain vis' where vis': "bv_setBit B vis ?i = Some (?i \<notin> elems vis, vis')" "valid vis'" "elems vis' = insert ?i (elems vis)"
      using setBit [OF less.prems(2) i(2)] by blast
    note unfold = reach_loop.simps [of B v t vis]
    have ne: "\<not> bv_empty B t" using empty [OF less.prems(1)] False by simp
    have reach: "?i \<in> ?E\<^sup>* `` {from}" using i(1) less.prems(3) by blast
    show ?thesis
    proof (cases "?i \<in> elems vis")
      case True
      have "elems u \<subset> elems t" using i(1) u(3) by blast
      then have "card (elems u) < card (elems t)" by (rule psubset_card_mono [OF finite_elems [OF less.prems(1)]])
      moreover have e: "elems vis' = elems vis" using vis'(3) True by (simp add: insert_absorb)
      ultimately have "reach_measure u vis' < reach_measure t vis" by (simp add: reach_measure_def)
      moreover have "edges elems v `` elems vis' \<subseteq> elems vis' \<union> elems u" "elems vis' \<union> elems u \<subseteq> ?E\<^sup>* `` {from}" "from \<in> elems vis'"
        using less.prems(3-5) True u(3) unfolding e by blast+
      ultimately show ?thesis using less.hyps [OF _ u(2) vis'(2)] True ne u(1) vis'(1) by (simp add: unfold)
    next
      case new: False
      have row: "array_get v ?i = Some (v ! ?i)" "valid (v ! ?i)" using rows_get [OF v i(2)] by simp_all
      obtain w where w: "bv_setUnion B u (v ! ?i) = Some (\<not> elems (v ! ?i) \<subseteq> elems u, w)" "valid w" "elems w = elems u \<union> elems (v ! ?i)"
        using setUnion [OF u(2) row(2)] by blast
      have succ: "elems (v ! ?i) = ?E `` {?i}" using rows_edge [OF v i(2)] by blast
      have "reach_measure w vis' < reach_measure t vis" by (rule reach_measure_new [OF w(2) less.prems(2) vis'(2,3) new])
      moreover have "from \<in> elems vis'" using less.prems(4) vis'(3) by blast
      moreover have "?E `` elems vis' \<subseteq> elems vis' \<union> elems w" using less.prems(5) by (auto simp: vis'(3) w(3) u(3) succ)
      moreover have "elems vis' \<union> elems w \<subseteq> ?E\<^sup>* `` {from}"
        using less.prems(3) reach by (auto simp: vis'(3) w(3) u(3) succ intro: rtrancl_into_rtrancl)
      ultimately show ?thesis using less.hyps [OF _ w(2) vis'(2)] new ne u(1) vis'(1) w(1) row(1) by (simp add: unfold)
    qed
  qed
qed

lemma isReachable_graph:
  assumes g: "bvg_valid B shape valid g" and f: "from < kSize B" and t: "valid targets"
  shows "\<exists>g'. bvg_isReachable B g from targets = Some (\<exists>x\<in>elems targets. (from, x) \<in> (edges elems (g_v g))\<^sup>*, g') \<and>
    bvg_valid B shape valid g' \<and> g_v g' = g_v g"
proof -
  let ?E = "edges elems (g_v g)"
  have r: "rows (g_v g)" and sh: "shape (g_t1 g)" "shape (g_t2 g)" using g by (auto simp: graph_valid)
  note row = rows_get [OF r f]
  obtain tv where tv: "bv_copyFrom B (g_t1 g) (g_v g ! from) = Some tv" "valid tv" "elems tv = elems (g_v g ! from)"
    using copyFrom [OF sh(1), of "g_v g ! from"] row by blast
  have c: "valid (bv_clear B (g_t2 g))" "elems (bv_clear B (g_t2 g)) = {}" using clear [OF sh(2)] by simp_all
  obtain vis where vis: "bv_setBit B (bv_clear B (g_t2 g)) from = Some (True, vis)" "valid vis" "elems vis = {from}"
    using setBit [OF c(1) f] c(2) by auto
  have succ: "elems tv = ?E `` {from}" using rows_edge [OF r f] tv(3) by blast
  have inv: "elems vis \<union> elems tv \<subseteq> ?E\<^sup>* `` {from}" "from \<in> elems vis" "?E `` elems vis \<subseteq> elems vis \<union> elems tv"
    unfolding vis(3) succ by auto
  obtain tv' vis' where l: "reach_loop B (g_v g) tv vis = Some (tv', vis')" "valid tv'" "valid vis'" "elems vis' = ?E\<^sup>* `` {from}"
    using reach_loop_correct [OF r tv(2) vis(2) inv] by blast
  have "elems targets \<inter> elems vis' \<noteq> {} \<longleftrightarrow> (\<exists>x\<in>elems targets. (from, x) \<in> ?E\<^sup>*)" unfolding l(4) by blast
  then show ?thesis
    using row tv(1) vis(1) l(1) intersectsWith [OF t l(3)] g valid_shape l(2,3)
    by (simp add: bvg_isReachable_def Let_def graph_valid)
qed

text \<open>Paths. The loop over the successors stops at the first one from which a path was found.\<close>

lemma find_loop_rule:
  assumes "it_valid it" "I s"
    and "\<And>i s. i \<in> rest it \<Longrightarrow> I s \<Longrightarrow> \<exists>r s'. f i s = Some (r, s') \<and> (r = 0 \<longrightarrow> I s' \<and> N i) \<and> (r \<noteq> 0 \<longrightarrow> Q i r s')"
  shows "\<exists>r s'. find_loop B f it s = Some (r, s') \<and> (r = 0 \<longrightarrow> I s' \<and> (\<forall>i\<in>rest it. N i)) \<and>
    (r \<noteq> 0 \<longrightarrow> (\<exists>i\<in>rest it. \<exists>q. r = q + 1 \<and> Q i q s'))"
  using assms
proof (induction "card (rest it)" arbitrary: it s rule: less_induct)
  case (less it s)
  note unfold = find_loop.simps [of B f it s]
  show ?case
  proof (cases "rest it = {}")
    case True
    then show ?thesis using less.prems hasNext [OF less.prems(1)] by (simp add: unfold)
  next
    case False
    let ?i = "Min (rest it)"
    have i: "?i \<in> rest it" using Min_in [OF rest_finite [OF less.prems(1)] False] .
    obtain u where u: "bv_next B it = Some (?i, u)" "it_valid u" "rest u = rest it - {?i}"
      using next_item [OF less.prems(1) False] by blast
    obtain r s' where f: "f ?i s = Some (r, s')" "r = 0 \<Longrightarrow> I s' \<and> N ?i" "r \<noteq> 0 \<Longrightarrow> Q ?i r s'"
      using less.prems(3) [OF i less.prems(2)] by blast
    have n: "bv_hasNext B it" using hasNext [OF less.prems(1)] False by simp
    show ?thesis
    proof (cases "r = 0")
      case True
      have "card (rest u) < card (rest it)"
        unfolding u(3) by (rule card_Diff1_less [OF rest_finite [OF less.prems(1)] i])
      then have "\<exists>r' s''. find_loop B f u s' = Some (r', s'') \<and> (r' = 0 \<longrightarrow> I s'' \<and> (\<forall>i\<in>rest u. N i)) \<and>
          (r' \<noteq> 0 \<longrightarrow> (\<exists>i\<in>rest u. \<exists>q. r' = q + 1 \<and> Q i q s''))"
        by (rule less.hyps [OF _ u(2)]) (use True f(2) less.prems(3) u(3) in auto)
      then obtain r' s'' where l: "find_loop B f u s' = Some (r', s'')" "r' = 0 \<Longrightarrow> I s'' \<and> (\<forall>i\<in>rest u. N i)"
        "r' \<noteq> 0 \<Longrightarrow> \<exists>i\<in>rest u. \<exists>q. r' = q + 1 \<and> Q i q s''" by auto
      have "find_loop B f it s = Some (r', s'')" using True f(1) n u(1) l(1) by (simp add: unfold)
      moreover have "\<forall>i\<in>rest it. N i" if "r' = 0" using l(2) [OF that] f(2) [OF True] u(3) by blast
      moreover have "\<exists>i\<in>rest it. \<exists>q. r' = q + 1 \<and> Q i q s''" if "r' \<noteq> 0" using l(3) [OF that] u(3) by blast
      ultimately show ?thesis using l(2) by simp
    next
      case False
      then show ?thesis using f n u(1) i by (auto simp: unfold)
    qed
  qed
qed

end

text \<open>\<open>xs\<close> is a path from \<open>from\<close> to a target.\<close>

definition target_path :: "(nat \<times> nat) set \<Rightarrow> nat \<Rightarrow> nat set \<Rightarrow> nat list \<Rightarrow> bool" where
  "target_path E from T xs \<longleftrightarrow> xs \<noteq> [] \<and> hd xs = from \<and> successively (\<lambda>x y. (x, y) \<in> E) xs \<and> last xs \<in> T"

lemma target_path_Cons:
  "x \<in> T \<Longrightarrow> target_path E x T [x]"
  "(x, y) \<in> E \<Longrightarrow> target_path E y T xs \<Longrightarrow> target_path E x T (x # xs)"
  by (auto simp: target_path_def successively_Cons)

text \<open>A path of \<open>Suc k\<close> nodes is a walk of \<open>k\<close> edges.\<close>

lemma target_path_relpow: "target_path E x T xs \<Longrightarrow> \<exists>y\<in>T. (x, y) \<in> E ^^ (length xs - 1)"
proof (induction xs arbitrary: x)
  case (Cons a xs)
  show ?case
  proof (cases xs)
    case (Cons b ys)
    then have "(x, b) \<in> E" "target_path E b T xs" using Cons.prems by (auto simp: target_path_def successively_Cons)
    with Cons.IH [of b] Cons obtain y where y: "y \<in> T" "(b, y) \<in> E ^^ length ys" by auto
    have "(x, y) \<in> E ^^ Suc (length ys)" by (rule relpow_Suc_I2) fact+
    then show ?thesis using y(1) Cons by auto
  qed (use Cons.prems in \<open>auto simp: target_path_def\<close>)
qed (simp add: target_path_def)

context bit_vector
begin

lemma findPath_graph:
  assumes g: "bvg_valid B shape valid g" and t: "valid targets" and "from < kSize B" "off + n \<le> length path"
  defines "E \<equiv> edges elems (g_v g)" and "T \<equiv> elems targets"
  shows "\<exists>r path'. bvg_findPath B g from targets path off n = Some (r, path') \<and> length path' = length path \<and> take off path' = take off path \<and>
    (r = 0 \<longrightarrow> (\<forall>k<n. \<forall>x\<in>T. (from, x) \<notin> E ^^ k)) \<and> (r \<noteq> 0 \<longrightarrow> r \<le> n \<and> target_path E from T (take r (drop off path')))"
  using assms(3,4)
proof (induction n arbitrary: "from" off path)
  case (Suc n)
  have r: "rows (g_v g)" using g by (simp add: graph_valid)
  note row = rows_get [OF r Suc.prems(1)] and tb = getBit [OF t Suc.prems(1)]
  define p where "p = path[off := from]"
  have p: "array_set path off from = Some p" "length p = length path" "take off p = take off path" "p ! off = from"
    using Suc.prems(2) by (simp_all add: p_def)
  show ?case
  proof (cases "from \<in> T")
    case True
    have "take 1 (drop off p) = [from]" using Suc.prems(2) p(2,4) by (simp add: take_Suc_conv_app_nth)
    then show ?thesis using True p tb target_path_Cons(1) [of "from" T E] by (simp add: T_def)
  next
    case False
    let ?f = "\<lambda>idx path. bvg_findPath B g idx targets path (off + 1) n" and ?it = "bv_begin B (g_v g ! from)"
    let ?I = "\<lambda>q. length q = length path \<and> take (off + 1) q = take (off + 1) p"
    let ?N = "\<lambda>i. \<forall>k<n. \<forall>x\<in>T. (i, x) \<notin> E ^^ k"
    let ?Q = "\<lambda>i r q. ?I q \<and> r \<le> n \<and> r \<noteq> 0 \<and> target_path E i T (take r (drop (off + 1) q))"
    have it: "it_valid ?it" "rest ?it = elems (g_v g ! from)" using begin_iterator row by blast+
    have succ: "i \<in> elems (g_v g ! from) \<longleftrightarrow> (from, i) \<in> E" for i unfolding E_def by (rule rows_edge [OF r Suc.prems(1)])
    have "\<exists>r q'. ?f i q = Some (r, q') \<and> (r = 0 \<longrightarrow> ?I q' \<and> ?N i) \<and> (r \<noteq> 0 \<longrightarrow> ?Q i r q')" if "i \<in> rest ?it" "?I q" for i q
    proof -
      have "i < kSize B" using that(1) it(2) elems_bound row by blast
      from Suc.IH [OF this, of "off + 1" q] show ?thesis using that(2) Suc.prems(2) by auto
    qed
    from find_loop_rule [where it = ?it and I = ?I and s = p and f = ?f and N = ?N and Q = ?Q, OF it(1) _ this] p(2) obtain res q where
      fl: "find_loop B ?f ?it p = Some (res, q)" "res = 0 \<longrightarrow> ?I q \<and> (\<forall>i\<in>rest ?it. ?N i)"
      "res \<noteq> 0 \<longrightarrow> (\<exists>i\<in>rest ?it. \<exists>k. res = k + 1 \<and> ?Q i k q)" by blast
    have I: "length q = length path" "take (off + 1) q = take (off + 1) p" using fl(2,3) by (cases "res = 0"; blast)+
    have off: "off < length q" "off < length p" using Suc.prems(2) I(1) p(2) by simp_all
    have "take off q = take off path" using arg_cong [OF I(2), of "take off"] p(3) by simp
    moreover have "q ! off = from" using arg_cong [OF I(2), of "\<lambda>xs. xs ! off"] p(4) by simp
    then have d: "drop off q = from # drop (off + 1) q" using Cons_nth_drop_Suc [OF off(1)] by simp
    moreover have "res \<le> Suc n \<and> target_path E from T (take res (drop off q))" if "res \<noteq> 0"
      using fl(3) that d it(2) succ target_path_Cons(2) by fastforce
    moreover have "(from, x) \<notin> E ^^ k" if "res = 0" "k < Suc n" "x \<in> T" for k x
    proof (cases k)
      case (Suc m)
      show ?thesis
      proof
        assume "(from, x) \<in> E ^^ k"
        then obtain y where "(from, y) \<in> E" "(y, x) \<in> E ^^ m" unfolding Suc using relpow_Suc_D2 by metis
        then show False using that fl(2) it(2) succ Suc by auto
      qed
    qed (use False that in auto)
    ultimately show ?thesis using p(1) tb False row fl(1) I(1) by (simp add: T_def)
  qed
qed simp

lemma shortest_loop_correct:
  assumes g: "bvg_valid B shape valid g" and t: "valid targets" and f: "from < kSize B" "n \<le> length path"
  defines "E \<equiv> edges elems (g_v g)" and "T \<equiv> elems targets"
  assumes p: "0 < p" "p \<le> Suc n" "\<forall>k<p - 1. \<forall>x\<in>T. (from, x) \<notin> E ^^ k"
  shows "\<exists>r path'. shortest_loop B g from targets [p..<Suc n] path = Some (r, path') \<and> length path' = length path \<and>
    (r = 0 \<longrightarrow> (\<forall>k<n. \<forall>x\<in>T. (from, x) \<notin> E ^^ k)) \<and>
    (r \<noteq> 0 \<longrightarrow> r \<le> n \<and> target_path E from T (take r path') \<and> (\<forall>k<r - 1. \<forall>x\<in>T. (from, x) \<notin> E ^^ k))"
  using p f(2)
proof (induction "Suc n - p" arbitrary: p path)
  case 0
  then show ?case by auto
next
  case (Suc d)
  then have pn: "p < Suc n" by simp
  obtain r q where r: "bvg_findPath B g from targets path 0 p = Some (r, q)" "length q = length path"
    "r = 0 \<Longrightarrow> (\<forall>k<p. \<forall>x\<in>T. (from, x) \<notin> E ^^ k)" "r \<noteq> 0 \<Longrightarrow> r \<le> p \<and> target_path E from T (take r q)"
    using findPath_graph [OF g t f(1), of 0 p path] Suc.prems(4) pn unfolding E_def T_def by auto
  have l: "shortest_loop B g from targets [p..<Suc n] path =
      (if r = p then Some (p, q) else shortest_loop B g from targets [Suc p..<Suc n] q)"
    unfolding upt_conv_Cons [OF pn] shortest_loop.simps r(1) by simp
  show ?case
  proof (cases "r = p")
    case True
    then show ?thesis unfolding l using Suc.prems r(2,4) pn by auto
  next
    case False
    have "r = 0"
    proof (rule ccontr)
      assume "r \<noteq> 0"
      with r(4) False have r': "r < p" "target_path E from T (take r q)" by auto
      have "length (take r q) = r" using r' pn Suc.prems(4) r(2) by simp
      with target_path_relpow [OF r'(2)] Suc.prems(3) r'(1) \<open>r \<noteq> 0\<close> show False by force
    qed
    then show ?thesis unfolding l using Suc.hyps(1) [of "Suc p" q] Suc.hyps(2) r(2,3) Suc.prems pn False by (simp del: upt_Suc)
  qed
qed

lemma findShortestPath_graph:
  assumes g: "bvg_valid B shape valid g" and t: "valid targets" and f: "from < kSize B" "n \<le> length path"
  shows "\<exists>r path'. bvg_findShortestPath B g from targets path n = Some (r, path') \<and> length path' = length path \<and>
    (r = 0 \<longrightarrow> (\<forall>k<n. \<forall>x\<in>elems targets. (from, x) \<notin> edges elems (g_v g) ^^ k)) \<and>
    (r \<noteq> 0 \<longrightarrow> r \<le> n \<and> target_path (edges elems (g_v g)) from (elems targets) (take r path') \<and>
      (\<forall>k<r - 1. \<forall>x\<in>elems targets. (from, x) \<notin> edges elems (g_v g) ^^ k))"
  using shortest_loop_correct [OF g t f, of 1] by (simp add: bvg_findShortestPath_def)

end

end
