(* ===== verification/San_Deadlock.thy ===== *)
theory San_Deadlock
  imports San_BVGraph "HOL-Library.Multiset"
begin

text \<open>
  \<open>sanitizer_deadlock_detector.h\<close>: the locks held by a thread (\<open>DeadlockDetectorTLS\<close>) and the graph
  of lock acquisitions (\<open>DeadlockDetector\<close>), over any class \<open>BV\<close> that keeps the contract
  \<open>bit_vector\<close>. Node identifiers and epochs only grow and are natural numbers here: the wrap-around
  of an epoch after \<open>2 ^ 64\<close> is left out. The narrow fields of \<open>LockWithContext\<close> and \<open>Edge\<close> keep their width.
\<close>

section \<open>Searching and swapping\<close>

text \<open>The loop \<open>for (sptr i = n - 1; i >= 0; i--) if (P(i)) ... return\<close>.\<close>

fun search_down :: "(nat \<Rightarrow> bool option) \<Rightarrow> nat \<Rightarrow> nat option option" where
  "search_down P 0 = Some None"
| "search_down P (Suc i) = do { b \<leftarrow> P i; if b then Some (Some i) else search_down P i }"

text \<open>The loop \<open>for (uptr i = 0; i < n; i++) if (P(i)) ... return\<close> over the indices \<open>is\<close>.\<close>

fun search_up :: "(nat \<Rightarrow> bool option) \<Rightarrow> nat list \<Rightarrow> nat option option" where
  "search_up P [] = Some None"
| "search_up P (i # is) = do { b \<leftarrow> P i; if b then Some (Some i) else search_up P is }"

definition Swap :: "'a list \<Rightarrow> nat \<Rightarrow> nat \<Rightarrow> 'a list option" where
  "Swap xs i j = do { x \<leftarrow> array_get xs i; y \<leftarrow> array_get xs j; xs \<leftarrow> array_set xs i y; array_set xs j x }"

section \<open>\<open>DeadlockDetectorTLS\<close>\<close>

record LockWithContext =
  lc_lock :: "32 word"
  lc_stk :: "32 word"

record 'bv DeadlockDetectorTLS =
  tls_bv :: 'bv
  tls_epoch :: nat
  recursive_locks :: "nat list"
  n_recursive_locks :: nat
  all_locks_with_contexts :: "LockWithContext list"
  n_all_locks :: nat

definition tls_clear :: "('bv, 'it) BV \<Rightarrow> 'bv DeadlockDetectorTLS \<Rightarrow> 'bv DeadlockDetectorTLS" where
  "tls_clear B d = d\<lparr>tls_bv := bv_clear B (tls_bv d), tls_epoch := 0, n_recursive_locks := 0, n_all_locks := 0\<rparr>"

definition tls_empty :: "('bv, 'it) BV \<Rightarrow> 'bv DeadlockDetectorTLS \<Rightarrow> bool" where
  "tls_empty B d = bv_empty B (tls_bv d)"

definition tls_ensureCurrentEpoch :: "('bv, 'it) BV \<Rightarrow> 'bv DeadlockDetectorTLS \<Rightarrow> nat \<Rightarrow> 'bv DeadlockDetectorTLS" where
  "tls_ensureCurrentEpoch B d current_epoch =
    (if tls_epoch d = current_epoch then d
     else d\<lparr>tls_bv := bv_clear B (tls_bv d), tls_epoch := current_epoch, n_recursive_locks := 0, n_all_locks := 0\<rparr>)"

definition tls_addLock ::
    "('bv, 'it) BV \<Rightarrow> 'bv DeadlockDetectorTLS \<Rightarrow> nat \<Rightarrow> nat \<Rightarrow> 32 word \<Rightarrow> (bool \<times> 'bv DeadlockDetectorTLS) option" where
  "tls_addLock B d lock_id current_epoch stk = do {
     CHECK (tls_epoch d = current_epoch);
     (new, bv) \<leftarrow> bv_setBit B (tls_bv d) lock_id;
     let d = d\<lparr>tls_bv := bv\<rparr>;
     if \<not> new then do {
       CHECK (n_recursive_locks d < length (recursive_locks d));
       r \<leftarrow> array_set (recursive_locks d) (n_recursive_locks d) lock_id;
       Some (False, d\<lparr>recursive_locks := r, n_recursive_locks := n_recursive_locks d + 1\<rparr>) }
     else do {
       CHECK (n_all_locks d < length (all_locks_with_contexts d));
       let l = \<lparr>lc_lock = of_nat lock_id, lc_stk = stk\<rparr>;
       a \<leftarrow> array_set (all_locks_with_contexts d) (n_all_locks d) l;
       Some (True, d\<lparr>all_locks_with_contexts := a, n_all_locks := n_all_locks d + 1\<rparr>) } }"

text \<open>The part of \<open>removeLock\<close> after the search of the recursive locks failed.\<close>

definition tls_removeLock_last :: "('bv, 'it) BV \<Rightarrow> 'bv DeadlockDetectorTLS \<Rightarrow> nat \<Rightarrow> 'bv DeadlockDetectorTLS option" where
  "tls_removeLock_last B d lock_id = do {
     (removed, bv) \<leftarrow> bv_clearBit B (tls_bv d) lock_id;
     let d = d\<lparr>tls_bv := bv\<rparr>;
     if \<not> removed then Some d
     else do {
       r \<leftarrow> search_down (\<lambda>i. do { l \<leftarrow> array_get (all_locks_with_contexts d) i; Some (lc_lock l = of_nat lock_id) }) (n_all_locks d);
       case r of None \<Rightarrow> Some d
       | Some i \<Rightarrow> do {
           a \<leftarrow> Swap (all_locks_with_contexts d) i (n_all_locks d - 1);
           Some (d\<lparr>all_locks_with_contexts := a, n_all_locks := n_all_locks d - 1\<rparr>) } } }"

definition tls_removeLock :: "('bv, 'it) BV \<Rightarrow> 'bv DeadlockDetectorTLS \<Rightarrow> nat \<Rightarrow> 'bv DeadlockDetectorTLS option" where
  "tls_removeLock B d lock_id = do {
     r \<leftarrow> search_down (\<lambda>i. do { l \<leftarrow> array_get (recursive_locks d) i; Some (l = lock_id) }) (n_recursive_locks d);
     case r of
       Some i \<Rightarrow> do {
         let n = n_recursive_locks d - 1;
         a \<leftarrow> Swap (recursive_locks d) i n;
         Some (d\<lparr>recursive_locks := a, n_recursive_locks := n\<rparr>) }
     | None \<Rightarrow> tls_removeLock_last B d lock_id }"

definition tls_findLockContext :: "'bv DeadlockDetectorTLS \<Rightarrow> nat \<Rightarrow> 32 word option" where
  "tls_findLockContext d lock_id = do {
     r \<leftarrow> search_up (\<lambda>i. do { l \<leftarrow> array_get (all_locks_with_contexts d) i; Some (lc_lock l = of_nat lock_id) }) [0..<n_all_locks d];
     case r of Some i \<Rightarrow> do { l \<leftarrow> array_get (all_locks_with_contexts d) i; Some (lc_stk l) } | None \<Rightarrow> Some 0 }"

definition tls_getLocks :: "'bv DeadlockDetectorTLS \<Rightarrow> nat \<Rightarrow> 'bv option" where
  "tls_getLocks d current_epoch = do { CHECK (tls_epoch d = current_epoch); Some (tls_bv d) }"

definition tls_getLock :: "'bv DeadlockDetectorTLS \<Rightarrow> nat \<Rightarrow> nat option" where
  "tls_getLock d idx = do { l \<leftarrow> array_get (all_locks_with_contexts d) idx; Some (unat (lc_lock l)) }"

section \<open>\<open>DeadlockDetector\<close>\<close>

record Edge =
  e_from :: "16 word"
  e_to :: "16 word"
  stk_from :: "32 word"
  stk_to :: "32 word"
  unique_tid :: "32 word"

record 'bv DeadlockDetector =
  current_epoch :: nat
  available_nodes :: 'bv
  recycled_nodes :: 'bv
  tmp_bv :: 'bv
  dd_g :: "'bv BVGraph"
  dd_data :: "nat list"
  dd_edges :: "Edge list"
  n_edges :: nat

definition dd_clear :: "('bv, 'it) BV \<Rightarrow> 'bv DeadlockDetector \<Rightarrow> 'bv DeadlockDetector" where
  "dd_clear B d = d\<lparr>current_epoch := 0, available_nodes := bv_clear B (available_nodes d),
     recycled_nodes := bv_clear B (recycled_nodes d), dd_g := bvg_clear B (dd_g d), n_edges := 0\<rparr>"

definition check_idx :: "('bv, 'it) BV \<Rightarrow> nat \<Rightarrow> unit option" where
  "check_idx B idx = CHECK (idx < kSize B)"

definition nodeToEpoch :: "('bv, 'it) BV \<Rightarrow> nat \<Rightarrow> nat" where
  "nodeToEpoch B node = node div kSize B * kSize B"

definition check_node :: "('bv, 'it) BV \<Rightarrow> 'bv DeadlockDetector \<Rightarrow> nat \<Rightarrow> unit option" where
  "check_node B d node = do { CHECK (node \<ge> kSize B); CHECK (current_epoch d = nodeToEpoch B node) }"

definition indexToNode :: "('bv, 'it) BV \<Rightarrow> 'bv DeadlockDetector \<Rightarrow> nat \<Rightarrow> nat option" where
  "indexToNode B d idx = do { check_idx B idx; Some (idx + current_epoch d) }"

definition nodeToIndexUnchecked :: "('bv, 'it) BV \<Rightarrow> nat \<Rightarrow> nat" where
  "nodeToIndexUnchecked B node = node mod kSize B"

definition nodeToIndex :: "('bv, 'it) BV \<Rightarrow> 'bv DeadlockDetector \<Rightarrow> nat \<Rightarrow> nat option" where
  "nodeToIndex B d node = do { check_node B d node; Some (nodeToIndexUnchecked B node) }"

definition getAvailableNode :: "('bv, 'it) BV \<Rightarrow> 'bv DeadlockDetector \<Rightarrow> nat \<Rightarrow> (nat \<times> 'bv DeadlockDetector) option" where
  "getAvailableNode B d data = do {
     (idx, a) \<leftarrow> bv_getAndClearFirstOne B (available_nodes d);
     ds \<leftarrow> array_set (dd_data d) idx data;
     let d = d\<lparr>available_nodes := a, dd_data := ds\<rparr>;
     node \<leftarrow> indexToNode B d idx;
     Some (node, d) }"

text \<open>The loop that drops the recorded edges of recycled nodes; \<open>Suc i\<close> stands for the round with index \<open>i\<close>.\<close>

fun drop_edges :: "('bv, 'it) BV \<Rightarrow> 'bv \<Rightarrow> nat \<Rightarrow> Edge list \<Rightarrow> nat \<Rightarrow> (Edge list \<times> nat) option" where
  "drop_edges B recycled 0 es n = Some (es, n)"
| "drop_edges B recycled (Suc i) es n = do {
     e \<leftarrow> array_get es i;
     f \<leftarrow> bv_getBit B recycled (unat (e_from e));
     t \<leftarrow> (if f then Some True else bv_getBit B recycled (unat (e_to e)));
     if t then do { es \<leftarrow> Swap es i (n - 1); drop_edges B recycled i es (n - 1) }
     else drop_edges B recycled i es n }"

definition newNode :: "('bv, 'it) BV \<Rightarrow> 'bv DeadlockDetector \<Rightarrow> nat \<Rightarrow> (nat \<times> 'bv DeadlockDetector) option" where
  "newNode B d data =
    (if \<not> bv_empty B (available_nodes d) then getAvailableNode B d data
     else if \<not> bv_empty B (recycled_nodes d) then do {
       (es, n) \<leftarrow> drop_edges B (recycled_nodes d) (n_edges d) (dd_edges d) (n_edges d);
       let d = d\<lparr>dd_edges := es, n_edges := n\<rparr>;
       CHECK (bv_empty B (available_nodes d));
       (_, g) \<leftarrow> bvg_removeEdgesTo B (dd_g d) (recycled_nodes d);
       (_, a) \<leftarrow> bv_setUnion B (available_nodes d) (recycled_nodes d);
       let d = d\<lparr>dd_g := g, available_nodes := a, recycled_nodes := bv_clear B (recycled_nodes d)\<rparr>;
       getAvailableNode B d data }
     else
       let d = d\<lparr>current_epoch := current_epoch d + kSize B, recycled_nodes := bv_clear B (recycled_nodes d),
           available_nodes := bv_setAll B (available_nodes d), dd_g := bvg_clear B (dd_g d), n_edges := 0\<rparr>
       in getAvailableNode B d data)"

definition getData :: "('bv, 'it) BV \<Rightarrow> 'bv DeadlockDetector \<Rightarrow> nat \<Rightarrow> nat option" where
  "getData B d node = do { i \<leftarrow> nodeToIndex B d node; array_get (dd_data d) i }"

definition nodeBelongsToCurrentEpoch :: "('bv, 'it) BV \<Rightarrow> 'bv DeadlockDetector \<Rightarrow> nat \<Rightarrow> bool" where
  "nodeBelongsToCurrentEpoch B d node \<longleftrightarrow> node \<noteq> 0 \<and> node div kSize B * kSize B = current_epoch d"

definition removeNode :: "('bv, 'it) BV \<Rightarrow> 'bv DeadlockDetector \<Rightarrow> nat \<Rightarrow> 'bv DeadlockDetector option" where
  "removeNode B d node = do {
     idx \<leftarrow> nodeToIndex B d node;
     a \<leftarrow> bv_getBit B (available_nodes d) idx;
     CHECK (\<not> a);
     (new, r) \<leftarrow> bv_setBit B (recycled_nodes d) idx;
     CHECK new;
     g \<leftarrow> bvg_removeEdgesFrom_node B (dd_g d) idx;
     Some (d\<lparr>recycled_nodes := r, dd_g := g\<rparr>) }"

definition ensureCurrentEpoch :: "('bv, 'it) BV \<Rightarrow> 'bv DeadlockDetector \<Rightarrow> 'bv DeadlockDetectorTLS \<Rightarrow> 'bv DeadlockDetectorTLS" where
  "ensureCurrentEpoch B d dtls = tls_ensureCurrentEpoch B dtls (current_epoch d)"

definition onLockBefore ::
    "('bv, 'it) BV \<Rightarrow> 'bv DeadlockDetector \<Rightarrow> 'bv DeadlockDetectorTLS \<Rightarrow> nat \<Rightarrow>
      (bool \<times> 'bv DeadlockDetector \<times> 'bv DeadlockDetectorTLS) option" where
  "onLockBefore B d dtls cur_node = do {
     let dtls = ensureCurrentEpoch B d dtls;
     cur_idx \<leftarrow> nodeToIndex B d cur_node;
     locks \<leftarrow> tls_getLocks dtls (current_epoch d);
     (r, g) \<leftarrow> bvg_isReachable B (dd_g d) cur_idx locks;
     Some (r, d\<lparr>dd_g := g\<rparr>, dtls) }"

definition findLockContext :: "('bv, 'it) BV \<Rightarrow> 'bv DeadlockDetector \<Rightarrow> 'bv DeadlockDetectorTLS \<Rightarrow> nat \<Rightarrow> 32 word option" where
  "findLockContext B d dtls node = do { i \<leftarrow> nodeToIndex B d node; tls_findLockContext dtls i }"

definition onLockAfter ::
    "('bv, 'it) BV \<Rightarrow> 'bv DeadlockDetector \<Rightarrow> 'bv DeadlockDetectorTLS \<Rightarrow> nat \<Rightarrow> 32 word \<Rightarrow> 'bv DeadlockDetectorTLS option" where
  "onLockAfter B d dtls cur_node stk = do {
     let dtls = ensureCurrentEpoch B d dtls;
     cur_idx \<leftarrow> nodeToIndex B d cur_node;
     (_, dtls) \<leftarrow> tls_addLock B dtls cur_idx (current_epoch d) stk;
     Some dtls }"

fun all_edges_loop :: "('bv, 'it) BV \<Rightarrow> 'bv DeadlockDetector \<Rightarrow> 'bv DeadlockDetectorTLS \<Rightarrow> nat \<Rightarrow> nat list \<Rightarrow> bool option" where
  "all_edges_loop B d dtls cur_idx [] = Some True"
| "all_edges_loop B d dtls cur_idx (i # is) = do {
     l \<leftarrow> tls_getLock dtls i;
     h \<leftarrow> bvg_hasEdge_racy B (dd_g d) l cur_idx;
     if \<not> h then Some False else all_edges_loop B d dtls cur_idx is }"

definition hasAllEdges :: "('bv, 'it) BV \<Rightarrow> 'bv DeadlockDetector \<Rightarrow> 'bv DeadlockDetectorTLS \<Rightarrow> nat \<Rightarrow> bool option" where
  "hasAllEdges B d dtls cur_node =
    (let local_epoch = tls_epoch dtls in
     if cur_node \<noteq> 0 \<and> local_epoch = current_epoch d \<and> local_epoch = nodeToEpoch B cur_node then
       all_edges_loop B d dtls (nodeToIndexUnchecked B cur_node) [0..<n_all_locks dtls]
     else Some False)"

definition record_edge ::
    "'bv DeadlockDetectorTLS \<Rightarrow> nat list \<Rightarrow> nat \<Rightarrow> 32 word \<Rightarrow> 32 word \<Rightarrow> nat \<Rightarrow> Edge list \<times> nat \<Rightarrow> (Edge list \<times> nat) option" where
  "record_edge dtls added_edges cur_idx stk tid i = (\<lambda>(es, n).
     if n < length es then do {
       a \<leftarrow> array_get added_edges i;
       c \<leftarrow> tls_findLockContext dtls a;
       es \<leftarrow> array_set es n \<lparr>e_from = of_nat a, e_to = of_nat cur_idx, stk_from = c, stk_to = stk, unique_tid = tid\<rparr>;
       Some (es, n + 1) }
     else Some (es, n))"

text \<open>
  The array \<open>added_edges\<close> of 40 items is not initialised; \<open>added\<close> stands for its first contents. Its length is left
  open, so the source is the case \<open>length added = 40\<close>.
\<close>

definition dd_addEdges ::
    "('bv, 'it) BV \<Rightarrow> 'bv DeadlockDetector \<Rightarrow> 'bv DeadlockDetectorTLS \<Rightarrow> nat \<Rightarrow> 32 word \<Rightarrow> 32 word \<Rightarrow> nat list \<Rightarrow>
      (nat \<times> 'bv DeadlockDetector \<times> 'bv DeadlockDetectorTLS) option" where
  "dd_addEdges B d dtls cur_node stk tid added = do {
     let dtls = ensureCurrentEpoch B d dtls;
     cur_idx \<leftarrow> nodeToIndex B d cur_node;
     locks \<leftarrow> tls_getLocks dtls (current_epoch d);
     (n_added_edges, added_edges, g) \<leftarrow> bvg_addEdges B (dd_g d) locks cur_idx added (length added);
     (es, n) \<leftarrow> for_each [0..<n_added_edges] (record_edge dtls added_edges cur_idx stk tid) (dd_edges d, n_edges d);
     Some (n_added_edges, d\<lparr>dd_g := g, dd_edges := es, n_edges := n\<rparr>, dtls) }"

text \<open>\<open>Some (Some e)\<close> is the return of \<open>true\<close> with the output parameters taken from \<open>e\<close>.\<close>

definition findEdge :: "('bv, 'it) BV \<Rightarrow> 'bv DeadlockDetector \<Rightarrow> nat \<Rightarrow> nat \<Rightarrow> Edge option option" where
  "findEdge B d from_node to_node = do {
     from_idx \<leftarrow> nodeToIndex B d from_node;
     to_idx \<leftarrow> nodeToIndex B d to_node;
     r \<leftarrow> search_up (\<lambda>i. do { e \<leftarrow> array_get (dd_edges d) i; Some (unat (e_from e) = from_idx \<and> unat (e_to e) = to_idx) }) [0..<n_edges d];
     case r of Some i \<Rightarrow> do { e \<leftarrow> array_get (dd_edges d) i; Some (Some e) } | None \<Rightarrow> Some None }"

definition isHeld :: "('bv, 'it) BV \<Rightarrow> 'bv DeadlockDetector \<Rightarrow> 'bv DeadlockDetectorTLS \<Rightarrow> nat \<Rightarrow> bool option" where
  "isHeld B d dtls node = do {
     locks \<leftarrow> tls_getLocks dtls (current_epoch d);
     i \<leftarrow> nodeToIndex B d node;
     bv_getBit B locks i }"

definition onLock ::
    "('bv, 'it) BV \<Rightarrow> 'bv DeadlockDetector \<Rightarrow> 'bv DeadlockDetectorTLS \<Rightarrow> nat \<Rightarrow> 32 word \<Rightarrow> nat list \<Rightarrow>
      (bool \<times> 'bv DeadlockDetector \<times> 'bv DeadlockDetectorTLS) option" where
  "onLock B d dtls cur_node stk added = do {
     let dtls = ensureCurrentEpoch B d dtls;
     held \<leftarrow> isHeld B d dtls cur_node;
     (is_reachable, d, dtls) \<leftarrow> (if \<not> held then onLockBefore B d dtls cur_node else Some (False, d, dtls));
     (_, d, dtls) \<leftarrow> dd_addEdges B d dtls cur_node stk 0 added;
     dtls \<leftarrow> onLockAfter B d dtls cur_node stk;
     Some (is_reachable, d, dtls) }"

definition onTryLock ::
    "('bv, 'it) BV \<Rightarrow> 'bv DeadlockDetector \<Rightarrow> 'bv DeadlockDetectorTLS \<Rightarrow> nat \<Rightarrow> 32 word \<Rightarrow> (bool \<times> 'bv DeadlockDetectorTLS) option" where
  "onTryLock B d dtls cur_node stk = do {
     let dtls = ensureCurrentEpoch B d dtls;
     cur_idx \<leftarrow> nodeToIndex B d cur_node;
     (_, dtls) \<leftarrow> tls_addLock B dtls cur_idx (current_epoch d) stk;
     Some (False, dtls) }"

definition onFirstLock :: "('bv, 'it) BV \<Rightarrow> 'bv DeadlockDetectorTLS \<Rightarrow> nat \<Rightarrow> 32 word \<Rightarrow> (bool \<times> 'bv DeadlockDetectorTLS) option" where
  "onFirstLock B dtls node stk =
    (if \<not> tls_empty B dtls then Some (False, dtls)
     else if tls_epoch dtls \<noteq> 0 \<and> tls_epoch dtls = nodeToEpoch B node then do {
       (_, dtls) \<leftarrow> tls_addLock B dtls (nodeToIndexUnchecked B node) (nodeToEpoch B node) stk;
       Some (True, dtls) }
     else Some (False, dtls))"

definition node_path :: "('bv, 'it) BV \<Rightarrow> 'bv DeadlockDetector \<Rightarrow> nat \<Rightarrow> nat list \<Rightarrow> nat list option" where
  "node_path B d i path = do { x \<leftarrow> array_get path i; n \<leftarrow> indexToNode B d x; array_set path i n }"

definition findPathToLock ::
    "('bv, 'it) BV \<Rightarrow> 'bv DeadlockDetector \<Rightarrow> 'bv DeadlockDetectorTLS \<Rightarrow> nat \<Rightarrow> nat list \<Rightarrow> nat \<Rightarrow> (nat \<times> nat list \<times> 'bv DeadlockDetector) option" where
  "findPathToLock B d dtls cur_node path path_size = do {
     locks \<leftarrow> tls_getLocks dtls (current_epoch d);
     t \<leftarrow> bv_copyFrom B (tmp_bv d) locks;
     let d = d\<lparr>tmp_bv := t\<rparr>;
     idx \<leftarrow> nodeToIndex B d cur_node;
     h \<leftarrow> bv_getBit B (tmp_bv d) idx;
     CHECK (\<not> h);
     (res, path) \<leftarrow> bvg_findShortestPath B (dd_g d) idx (tmp_bv d) path path_size;
     path \<leftarrow> for_each [0..<res] (node_path B d) path;
     if res \<noteq> 0 then do { x \<leftarrow> array_get path 0; CHECK (x = cur_node); Some (res, path, d) } else Some (res, path, d) }"

definition onUnlock :: "('bv, 'it) BV \<Rightarrow> 'bv DeadlockDetectorTLS \<Rightarrow> nat \<Rightarrow> 'bv DeadlockDetectorTLS option" where
  "onUnlock B dtls node =
    (if tls_epoch dtls = nodeToEpoch B node then tls_removeLock B dtls (nodeToIndexUnchecked B node) else Some dtls)"

definition onLockFast ::
    "('bv, 'it) BV \<Rightarrow> 'bv DeadlockDetector \<Rightarrow> 'bv DeadlockDetectorTLS \<Rightarrow> nat \<Rightarrow> 32 word \<Rightarrow> (bool \<times> 'bv DeadlockDetectorTLS) option" where
  "onLockFast B d dtls node stk = do {
     h \<leftarrow> hasAllEdges B d dtls node;
     if h then do {
       (_, dtls) \<leftarrow> tls_addLock B dtls (nodeToIndexUnchecked B node) (nodeToEpoch B node) stk;
       Some (True, dtls) }
     else Some (False, dtls) }"

section \<open>Searches and swaps\<close>

lemma search_down_spec:
  assumes "\<And>i. i < n \<Longrightarrow> P i = Some (Q i)"
  obtains (none) "search_down P n = Some None" "\<And>i. i < n \<Longrightarrow> \<not> Q i"
  | (found) i where "search_down P n = Some (Some i)" "i < n" "Q i"
  using assms
proof (induction n arbitrary: thesis)
  case (Suc n)
  show ?case
  proof (cases "Q n")
    case True
    then show ?thesis using Suc.prems by simp
  next
    case False
    then have e: "search_down P (Suc n) = search_down P n" using Suc.prems(3) by simp
    show ?thesis
    proof (rule Suc.IH)
      show thesis if "search_down P n = Some None" "\<And>i. i < n \<Longrightarrow> \<not> Q i"
        using Suc.prems(1) e that False by (simp add: less_Suc_eq) metis
      show thesis if "search_down P n = Some (Some i)" "i < n" "Q i" for i
        using Suc.prems(2) [of i] e that by simp
      show "P i = Some (Q i)" if "i < n" for i using Suc.prems(3) that by simp
    qed
  qed
qed simp

lemma search_up_spec:
  assumes "\<And>i. i \<in> set is \<Longrightarrow> P i = Some (Q i)"
  obtains (none) "search_up P is = Some None" "\<And>i. i \<in> set is \<Longrightarrow> \<not> Q i"
  | (found) i where "search_up P is = Some (Some i)" "i \<in> set is" "Q i"
  using assms
proof (induction "is" arbitrary: thesis)
  case (Cons k "is")
  show ?case
  proof (cases "Q k")
    case True
    then show ?thesis using Cons.prems by simp
  next
    case False
    then have e: "search_up P (k # is) = search_up P is" using Cons.prems(3) by simp
    show ?thesis
    proof (rule Cons.IH)
      show thesis if "search_up P is = Some None" "\<And>i. i \<in> set is \<Longrightarrow> \<not> Q i"
        using Cons.prems(1) e that False by simp metis
      show thesis if "search_up P is = Some (Some i)" "i \<in> set is" "Q i" for i
        using Cons.prems(2) [of i] e that by simp
      show "P i = Some (Q i)" if "i \<in> set is" for i using Cons.prems(3) that by simp
    qed
  qed
qed simp

text \<open>Moving the last of the first \<open>n\<close> items to the place of the item \<open>i\<close> removes that item.\<close>

lemma Swap_remove:
  assumes i: "i < n" "n \<le> length xs"
  shows "\<exists>ys. Swap xs i (n - 1) = Some ys \<and> length ys = length xs \<and> mset (take (n - 1) ys) = mset (take n xs) - {#xs ! i#}"
proof -
  let ?ys = "xs[i := xs ! (n - 1), n - 1 := xs ! i]"
  have last: "take n xs = take (n - 1) xs @ [xs ! (n - 1)]"
    using i take_Suc_conv_app_nth [of "n - 1" xs] by simp
  have "take (n - 1) ?ys = (take (n - 1) xs)[i := xs ! (n - 1)]" by (simp add: take_update_swap list_update_beyond)
  also have "mset \<dots> = mset (take n xs) - {#xs ! i#}"
  proof (cases "i < n - 1")
    case True
    then have "xs ! i \<in># mset (take (n - 1) xs)" using i by (metis in_set_conv_nth length_take min.absorb2 nth_take set_mset_mset
          less_imp_le_nat diff_le_self le_trans)
    with True i show ?thesis by (simp add: last mset_update)
  next
    case False
    then have "i = n - 1" using i by simp
    then show ?thesis using i by (simp add: last list_update_beyond)
  qed
  finally show ?thesis using i by (simp add: Swap_def)
qed

text \<open>The cast of an index to a narrow type is faithful in its range.\<close>

lemma narrow: "l < 2 ^ LENGTH('a) \<Longrightarrow> w = of_nat l \<longleftrightarrow> unat w = l"
  for w :: "'a::len word"
  by (auto simp: unat_of_nat)

section \<open>The locks of a thread\<close>

text \<open>
  The abstract state of a thread is the multiset of its locks: each lock of \<open>tls_bv\<close> once, and each
  entry of \<open>recursive_locks\<close> once more. \<open>all_locks_with_contexts\<close> lists the locks of \<open>tls_bv\<close>.
\<close>

definition tls_held :: "'bv DeadlockDetectorTLS \<Rightarrow> nat list" where
  "tls_held d = map (\<lambda>l. unat (lc_lock l)) (take (n_all_locks d) (all_locks_with_contexts d))"

definition tls_valid :: "('bv \<Rightarrow> bool) \<Rightarrow> ('bv \<Rightarrow> nat set) \<Rightarrow> 'bv DeadlockDetectorTLS \<Rightarrow> bool" where
  "tls_valid valid elems d \<longleftrightarrow> valid (tls_bv d) \<and>
     length (recursive_locks d) = 64 \<and> n_recursive_locks d \<le> 64 \<and>
     length (all_locks_with_contexts d) = 64 \<and> n_all_locks d \<le> 64 \<and>
     set (take (n_recursive_locks d) (recursive_locks d)) \<subseteq> elems (tls_bv d) \<and>
     mset (tls_held d) = mset_set (elems (tls_bv d))"

definition tls_locks :: "('bv \<Rightarrow> nat set) \<Rightarrow> 'bv DeadlockDetectorTLS \<Rightarrow> nat multiset" where
  "tls_locks elems d = mset_set (elems (tls_bv d)) + mset (take (n_recursive_locks d) (recursive_locks d))"

text \<open>There is room for one more occurrence of \<open>l\<close>.\<close>

definition tls_room :: "('bv \<Rightarrow> nat set) \<Rightarrow> 'bv DeadlockDetectorTLS \<Rightarrow> nat \<Rightarrow> bool" where
  "tls_room elems d l \<longleftrightarrow> (if l \<in># tls_locks elems d then n_recursive_locks d < 64 else n_all_locks d < 64)"

context bit_vector
begin

lemma tls_clear_valid:
  assumes "shape (tls_bv d)" "length (recursive_locks d) = 64" "length (all_locks_with_contexts d) = 64"
  shows "tls_valid valid elems (tls_clear B d)" "tls_locks elems (tls_clear B d) = {#}"
  using clear [OF assms(1)] assms(2,3) by (simp_all add: tls_valid_def tls_clear_def tls_locks_def tls_held_def)

lemma tls_empty_iff: "tls_valid valid elems d \<Longrightarrow> tls_empty B d \<longleftrightarrow> tls_locks elems d = {#}"
  using empty [of "tls_bv d"] by (auto simp: tls_valid_def tls_empty_def tls_locks_def mset_set_empty_iff)

lemma tls_ensureCurrentEpoch_valid:
  assumes "tls_valid valid elems d"
  shows "tls_valid valid elems (tls_ensureCurrentEpoch B d e) \<and> tls_epoch (tls_ensureCurrentEpoch B d e) = e \<and>
    tls_locks elems (tls_ensureCurrentEpoch B d e) = (if tls_epoch d = e then tls_locks elems d else {#}) \<and>
    elems (tls_bv (tls_ensureCurrentEpoch B d e)) = (if tls_epoch d = e then elems (tls_bv d) else {})"
  using clear [of "tls_bv d"] valid_shape [of "tls_bv d"] assms
  by (auto simp: tls_valid_def tls_ensureCurrentEpoch_def tls_locks_def tls_held_def)

text \<open>\<open>addLock\<close> adds an occurrence, unless the array for it is full.\<close>

lemma tls_addLock_correct:
  assumes d: "tls_valid valid elems d" and l: "l < kSize B" "kSize B \<le> 2 ^ 32" and e: "tls_epoch d = e"
  shows "\<not> tls_room elems d l \<Longrightarrow> tls_addLock B d l e stk = None"
    "tls_room elems d l \<Longrightarrow>
      \<exists>d'. tls_addLock B d l e stk = Some (l \<notin># tls_locks elems d, d') \<and> tls_valid valid elems d' \<and> tls_epoch d' = e \<and>
        tls_locks elems d' = add_mset l (tls_locks elems d) \<and> elems (tls_bv d') = insert l (elems (tls_bv d))"
proof -
  have v: "valid (tls_bv d)" and len: "length (recursive_locks d) = 64" "length (all_locks_with_contexts d) = 64"
    and rec: "set (take (n_recursive_locks d) (recursive_locks d)) \<subseteq> elems (tls_bv d)"
    and held: "mset (tls_held d) = mset_set (elems (tls_bv d))"
    using d by (auto simp: tls_valid_def)
  have mem: "l \<in># tls_locks elems d \<longleftrightarrow> l \<in> elems (tls_bv d)" using rec v by (auto simp: tls_locks_def)
  obtain b where b: "bv_setBit B (tls_bv d) l = Some (l \<notin> elems (tls_bv d), b)" "valid b" "elems b = insert l (elems (tls_bv d))"
    using setBit [OF v l(1)] by blast
  show "tls_addLock B d l e stk = None" if "\<not> tls_room elems d l"
    using b(1) len e that by (auto simp: mem tls_room_def tls_addLock_def Let_def split: if_splits)
  assume "tls_room elems d l"
  then have room: "if l \<in># tls_locks elems d then n_recursive_locks d < 64 else n_all_locks d < 64" by (simp add: tls_room_def)
  show "\<exists>d'. tls_addLock B d l e stk = Some (l \<notin># tls_locks elems d, d') \<and> tls_valid valid elems d' \<and> tls_epoch d' = e \<and>
        tls_locks elems d' = add_mset l (tls_locks elems d) \<and> elems (tls_bv d') = insert l (elems (tls_bv d))"
  proof (cases "l \<in> elems (tls_bv d)")
    case True
    define d' where "d' = d\<lparr>tls_bv := b, recursive_locks := (recursive_locks d)[n_recursive_locks d := l], n_recursive_locks := n_recursive_locks d + 1\<rparr>"
    have t: "take (n_recursive_locks d + 1) ((recursive_locks d)[n_recursive_locks d := l]) = take (n_recursive_locks d) (recursive_locks d) @ [l]"
      using room True len by (simp add: mem take_Suc_conv_app_nth)
    have eb: "elems b = elems (tls_bv d)" using b(3) True by (simp add: insert_absorb)
    have "tls_addLock B d l e stk = Some (l \<notin># tls_locks elems d, d')"
      using b(1) room True len e by (simp add: tls_addLock_def Let_def mem d'_def)
    moreover have "tls_valid valid elems d'"
      using d b(2) eb t room True rec by (simp add: tls_valid_def d'_def tls_held_def mem)
    moreover have "tls_locks elems d' = add_mset l (tls_locks elems d)" using t eb by (simp add: tls_locks_def d'_def)
    ultimately show ?thesis using e eb True by (auto simp: d'_def)
  next
    case False
    define lc where "lc = \<lparr>lc_lock = of_nat l, lc_stk = stk\<rparr>"
    define d' where "d' = d\<lparr>tls_bv := b, all_locks_with_contexts := (all_locks_with_contexts d)[n_all_locks d := lc], n_all_locks := n_all_locks d + 1\<rparr>"
    have t: "take (n_all_locks d + 1) ((all_locks_with_contexts d)[n_all_locks d := lc]) = take (n_all_locks d) (all_locks_with_contexts d) @ [lc]"
      using room False len by (simp add: mem take_Suc_conv_app_nth)
    have "unat (of_nat l :: 32 word) = l" using narrow [of l "of_nat l :: 32 word"] l by simp
    then have "tls_held d' = tls_held d @ [l]" using t by (simp add: tls_held_def d'_def lc_def)
    moreover have "mset_set (elems b) = add_mset l (mset_set (elems (tls_bv d)))" using b(3) False v by simp
    moreover have "n_all_locks d < 64" using room False by (simp add: mem)
    ultimately have "tls_valid valid elems d'" "tls_locks elems d' = add_mset l (tls_locks elems d)"
      using d b(2,3) held rec by (auto simp: tls_valid_def tls_locks_def d'_def)
    moreover have "tls_addLock B d l e stk = Some (l \<notin># tls_locks elems d, d')"
      using b(1) room False len e by (simp add: tls_addLock_def Let_def mem d'_def lc_def)
    ultimately show ?thesis using e b(3) by (auto simp: d'_def)
  qed
qed

lemma tls_removeLock_last_correct:
  assumes d: "tls_valid valid elems d" and l: "l < kSize B" "kSize B \<le> 2 ^ 32"
    and r: "l \<notin> set (take (n_recursive_locks d) (recursive_locks d))"
  shows "\<exists>d'. tls_removeLock_last B d l = Some d' \<and> tls_valid valid elems d' \<and> tls_epoch d' = tls_epoch d \<and>
    tls_locks elems d' = tls_locks elems d - {#l#} \<and> elems (tls_bv d') = elems (tls_bv d) - {l}"
proof -
  have v: "valid (tls_bv d)" and len: "length (all_locks_with_contexts d) = 64" "n_all_locks d \<le> 64"
    and rec: "set (take (n_recursive_locks d) (recursive_locks d)) \<subseteq> elems (tls_bv d)"
    and held: "mset (tls_held d) = mset_set (elems (tls_bv d))"
    using d by (auto simp: tls_valid_def)
  obtain b where b: "bv_clearBit B (tls_bv d) l = Some (l \<in> elems (tls_bv d), b)" "valid b" "elems b = elems (tls_bv d) - {l}"
    using clearBit [OF v l(1)] by blast
  have locks: "tls_locks elems d - {#l#} = mset_set (elems b) + mset (take (n_recursive_locks d) (recursive_locks d))"
    using r v by (cases "l \<in> elems (tls_bv d)") (auto simp: tls_locks_def b(3) mset_set_Diff diff_single_trivial)
  have rec': "set (take (n_recursive_locks d) (recursive_locks d)) \<subseteq> elems b" using rec r b(3) by blast
  show ?thesis
  proof (cases "l \<in> elems (tls_bv d)")
    case False
    then have "elems b = elems (tls_bv d)" using b(3) by blast
    with False b(1,2) d locks show ?thesis
      by (auto simp: tls_removeLock_last_def Let_def tls_valid_def tls_locks_def tls_held_def)
  next
    case True
    let ?a = "all_locks_with_contexts d" and ?n = "n_all_locks d"
    have eq: "lc_lock x = of_nat l \<longleftrightarrow> unat (lc_lock x) = l" for x
      using l by (intro narrow) simp
    obtain k where k: "k < ?n" "unat (lc_lock (?a ! k)) = l"
    proof -
      have "l \<in># mset (tls_held d)" using True v by (simp add: held)
      then show ?thesis using that len by (auto simp: tls_held_def in_set_conv_nth)
    qed
    have get: "do { l' \<leftarrow> array_get ?a i; Some (lc_lock l' = of_nat l) } = Some (unat (lc_lock (?a ! i)) = l)" if "i < ?n" for i
      using that len by (simp add: eq)
    from get obtain i where i: "search_down (\<lambda>i. do { l' \<leftarrow> array_get ?a i; Some (lc_lock l' = of_nat l) }) ?n = Some (Some i)"
      "i < ?n" "unat (lc_lock (?a ! i)) = l"
      by (rule search_down_spec) (use k in auto)
    obtain ys where ys: "Swap ?a i (?n - 1) = Some ys" "length ys = 64" "mset (take (?n - 1) ys) = mset (take ?n ?a) - {#?a ! i#}"
      using Swap_remove [OF i(2), of ?a] len by auto
    define d' where "d' = d\<lparr>tls_bv := b, all_locks_with_contexts := ys, n_all_locks := ?n - 1\<rparr>"
    have "?a ! i \<in># mset (take ?n ?a)" using i(2) len by (metis in_set_conv_nth length_take min.absorb2 nth_take set_mset_mset)
    then have "mset (tls_held d') = mset (tls_held d) - {#l#}"
      unfolding tls_held_def mset_map d'_def using ys(3) i(3) by (simp add: image_mset_Diff)
    also have "\<dots> = mset_set (elems b)" using v True by (simp add: held b(3) mset_set_Diff)
    finally have "tls_valid valid elems d'" using d b(2) rec' ys(2) len by (simp add: tls_valid_def d'_def)
    moreover have "tls_removeLock_last B d l = Some d'"
      using b(1) True i(1) ys(1) by (simp add: tls_removeLock_last_def Let_def d'_def)
    ultimately show ?thesis using locks b(3) by (auto simp: d'_def tls_locks_def)
  qed
qed

lemma tls_removeLock_correct:
  assumes d: "tls_valid valid elems d" and l: "l < kSize B" "kSize B \<le> 2 ^ 32"
  shows "\<exists>d'. tls_removeLock B d l = Some d' \<and> tls_valid valid elems d' \<and> tls_epoch d' = tls_epoch d \<and>
    tls_locks elems d' = tls_locks elems d - {#l#}"
proof -
  let ?r = "recursive_locks d" and ?n = "n_recursive_locks d"
  have len: "length ?r = 64" "?n \<le> 64" using d by (auto simp: tls_valid_def)
  have get: "do { x \<leftarrow> array_get ?r i; Some (x = l) } = Some (?r ! i = l)" if "i < ?n" for i using that len by simp
  show ?thesis
  proof (rule search_down_spec [of ?n "\<lambda>i. do { x \<leftarrow> array_get ?r i; Some (x = l) }" "\<lambda>i. ?r ! i = l", OF get], goal_cases _ none found)
    case none
    then have "l \<notin> set (take ?n ?r)" using len by (auto simp: in_set_conv_nth)
    from tls_removeLock_last_correct [OF d l this] show ?thesis using none(1) by (auto simp: tls_removeLock_def)
  next
    case (found i)
    obtain ys where ys: "Swap ?r i (?n - 1) = Some ys" "length ys = 64" "mset (take (?n - 1) ys) = mset (take ?n ?r) - {#?r ! i#}"
      using Swap_remove [OF found(2), of ?r] len by auto
    have "?r ! i \<in># mset (take ?n ?r)" using found(2) len by (metis in_set_conv_nth length_take min.absorb2 nth_take set_mset_mset)
    then have "tls_locks elems (d\<lparr>recursive_locks := ys, n_recursive_locks := ?n - 1\<rparr>) = tls_locks elems d - {#l#}"
      using ys(3) found(3) by (simp add: tls_locks_def)
    moreover have "set (take (?n - 1) ys) \<subseteq> set (take ?n ?r)"
      using ys(3) by (metis in_diffD set_mset_mset subsetI)
    ultimately show ?thesis
      using found(1) ys(1,2) d by (auto simp: tls_removeLock_def Let_def tls_valid_def tls_held_def)
  qed
qed

lemma tls_findLockContext_correct:
  assumes d: "tls_valid valid elems d" and l: "l < kSize B" "kSize B \<le> 2 ^ 32"
  shows "\<exists>c. tls_findLockContext d l = Some c \<and>
    (if l \<in> elems (tls_bv d) then \<exists>i<n_all_locks d. unat (lc_lock (all_locks_with_contexts d ! i)) = l \<and> c = lc_stk (all_locks_with_contexts d ! i)
     else c = 0)"
proof -
  let ?a = "all_locks_with_contexts d" and ?n = "n_all_locks d"
  have len: "?n \<le> length ?a" and v: "valid (tls_bv d)" and held: "mset (tls_held d) = mset_set (elems (tls_bv d))"
    using d by (auto simp: tls_valid_def)
  have mem: "l \<in> elems (tls_bv d) \<longleftrightarrow> (\<exists>i<?n. unat (lc_lock (?a ! i)) = l)"
  proof -
    have "elems (tls_bv d) = set (tls_held d)" using v arg_cong [OF held, of set_mset] by simp
    also have "\<dots> = (\<lambda>i. unat (lc_lock (?a ! i))) ` {0..<?n}" by (simp add: tls_held_def image_image flip: nth_image [OF len])
    finally show ?thesis by auto
  qed
  have "lc_lock x = of_nat l \<longleftrightarrow> unat (lc_lock x) = l" for x using l by (intro narrow) simp
  then have get: "do { x \<leftarrow> array_get ?a i; Some (lc_lock x = of_nat l) } = Some (unat (lc_lock (?a ! i)) = l)" if "i \<in> set [0..<?n]" for i
    using that len by simp
  show ?thesis
  proof (rule search_up_spec [of "[0..<?n]" "\<lambda>i. do { x \<leftarrow> array_get ?a i; Some (lc_lock x = of_nat l) }", OF get], goal_cases _ none found)
    case none
    then show ?case by (auto simp: tls_findLockContext_def mem)
  next
    case (found i)
    then show ?case using len by (auto simp: tls_findLockContext_def mem)
  qed
qed

end

section \<open>The detector\<close>

text \<open>
  Nodes are available, recycled or live. Edges run from live nodes to nodes that are not available, so
  that a node that is handed out has no edge. A recorded edge is an edge of the graph unless its source was recycled.
\<close>

definition live :: "('bv, 'it) BV \<Rightarrow> ('bv \<Rightarrow> nat set) \<Rightarrow> 'bv DeadlockDetector \<Rightarrow> nat set" where
  "live B elems d = {..<kSize B} - elems (available_nodes d) - elems (recycled_nodes d)"

definition dd_graph :: "('bv \<Rightarrow> nat set) \<Rightarrow> 'bv DeadlockDetector \<Rightarrow> (nat \<times> nat) set" where
  "dd_graph elems d = edges elems (g_v (dd_g d))"

definition dd_shape :: "('bv, 'it) BV \<Rightarrow> ('bv \<Rightarrow> bool) \<Rightarrow> 'bv DeadlockDetector \<Rightarrow> bool" where
  "dd_shape B shape d \<longleftrightarrow> shape (available_nodes d) \<and> shape (recycled_nodes d) \<and> shape (tmp_bv d) \<and> bvg_shape B shape (dd_g d) \<and>
     length (dd_data d) = kSize B \<and> length (dd_edges d) = kSize B * 32"

text \<open>
  The flag \<open>st\<close> tells the invariant of the detector under arbitrary calls from the stricter one for programs that never destroy a
  mutex while a thread holds it. Only the second one keeps the edges of nodes that are not live out of the graph.
\<close>

definition edge_ok :: "bool \<Rightarrow> nat \<Rightarrow> (nat \<times> nat) set \<Rightarrow> nat set \<Rightarrow> Edge \<Rightarrow> bool" where
  "edge_ok st n E R e \<longleftrightarrow> unat (e_from e) < n \<and> unat (e_to e) < n \<and>
     (st \<longrightarrow> (unat (e_from e), unat (e_to e)) \<in> E \<or> unat (e_from e) \<in> R)"

definition dd_inv :: "bool \<Rightarrow> ('bv, 'it) BV \<Rightarrow> ('bv \<Rightarrow> bool) \<Rightarrow> ('bv \<Rightarrow> bool) \<Rightarrow> ('bv \<Rightarrow> nat set) \<Rightarrow> 'bv DeadlockDetector \<Rightarrow> bool" where
  "dd_inv st B shape valid elems d \<longleftrightarrow>
     valid (available_nodes d) \<and> valid (recycled_nodes d) \<and> shape (tmp_bv d) \<and> bvg_valid B shape valid (dd_g d) \<and>
     length (dd_data d) = kSize B \<and> length (dd_edges d) = kSize B * 32 \<and> n_edges d \<le> kSize B * 32 \<and>
     kSize B dvd current_epoch d \<and> elems (available_nodes d) \<inter> elems (recycled_nodes d) = {} \<and>
     (current_epoch d = 0 \<longrightarrow> elems (available_nodes d) = {} \<and> elems (recycled_nodes d) = {}) \<and>
     (st \<longrightarrow> dd_graph elems d \<subseteq> live B elems d \<times> - elems (available_nodes d)) \<and>
     (\<forall>e\<in>set (take (n_edges d) (dd_edges d)). edge_ok st (kSize B) (dd_graph elems d) (elems (recycled_nodes d)) e)"

abbreviation dd_valid :: "('bv, 'it) BV \<Rightarrow> ('bv \<Rightarrow> bool) \<Rightarrow> ('bv \<Rightarrow> bool) \<Rightarrow> ('bv \<Rightarrow> nat set) \<Rightarrow> 'bv DeadlockDetector \<Rightarrow> bool" where
  "dd_valid \<equiv> dd_inv True"

text \<open>The recorded edges that stay when the nodes \<open>R\<close> are recycled.\<close>

definition kept :: "nat set \<Rightarrow> Edge \<Rightarrow> bool" where
  "kept R e \<longleftrightarrow> unat (e_from e) \<notin> R \<and> unat (e_to e) \<notin> R"

context bit_vector
begin

lemma drop_edges_correct:
  assumes r: "valid r" and "i \<le> n" "n \<le> length es" "\<forall>j. i \<le> j \<and> j < n \<longrightarrow> kept (elems r) (es ! j)"
    and "\<forall>e\<in>set (take n es). unat (e_from e) < kSize B \<and> unat (e_to e) < kSize B"
  shows "\<exists>es' n'. drop_edges B r i es n = Some (es', n') \<and> length es' = length es \<and> n' \<le> n \<and>
    mset (take n' es') = filter_mset (kept (elems r)) (mset (take n es))"
  using assms(2-)
proof (induction i arbitrary: es n)
  case 0
  then have "\<forall>e\<in>set (take n es). kept (elems r) e" by (auto simp: in_set_conv_nth)
  then have "filter_mset (kept (elems r)) (mset (take n es)) = mset (take n es)" by (simp add: filter_mset_eq_conv)
  then show ?case by simp
next
  case (Suc i)
  then have i: "i < n" "i < length es" by simp_all
  have mem: "es ! i \<in> set (take n es)" using i by (metis in_set_conv_nth length_take min_less_iff_conj nth_take)
  have get: "drop_edges B r (Suc i) es n =
      (if kept (elems r) (es ! i) then drop_edges B r i es n else do { es \<leftarrow> Swap es i (n - 1); drop_edges B r i es (n - 1) })"
    using i mem Suc.prems(4) getBit [OF r, of "unat (e_from (es ! i))"] getBit [OF r, of "unat (e_to (es ! i))"]
    by (auto simp: kept_def)
  show ?case
  proof (cases "kept (elems r) (es ! i)")
    case True
    then have "\<forall>j. i \<le> j \<and> j < n \<longrightarrow> kept (elems r) (es ! j)" using Suc.prems(3) by (metis le_neq_implies_less Suc_leI)
    with Suc.IH [of n es] Suc.prems(2,4) i True show ?thesis unfolding get by simp
  next
    case False
    obtain ys where ys: "Swap es i (n - 1) = Some ys" "length ys = length es" "mset (take (n - 1) ys) = mset (take n es) - {#es ! i#}"
      using Swap_remove [OF i(1) Suc.prems(2)] by blast
    have y: "ys = es[i := es ! (n - 1), n - 1 := es ! i]" using ys(1) i Suc.prems(2) by (simp add: Swap_def)
    have "\<forall>j. i \<le> j \<and> j < n - 1 \<longrightarrow> kept (elems r) (ys ! j)"
      using Suc.prems(2,3) i by (auto simp: y nth_list_update)
    moreover have "set (take (n - 1) ys) \<subseteq> set (take n es)" using ys(3) by (metis in_diffD set_mset_mset subsetI)
    ultimately have "\<exists>es' n'. drop_edges B r i ys (n - 1) = Some (es', n') \<and> length es' = length ys \<and> n' \<le> n - 1 \<and>
        mset (take n' es') = filter_mset (kept (elems r)) (mset (take (n - 1) ys))"
      using Suc.prems(2,4) i ys(2) by (intro Suc.IH) auto
    moreover have "filter_mset (kept (elems r)) (mset (take (n - 1) ys)) = filter_mset (kept (elems r)) (mset (take n es))"
      using False mem unfolding ys(3) by (simp add: filter_diff_mset)
    ultimately show ?thesis using False ys(1,2) unfolding get by fastforce
  qed
qed

lemma node_of_index:
  assumes "idx < kSize B" "kSize B dvd e"
  shows "nodeToEpoch B (idx + e) = e" "nodeToIndexUnchecked B (idx + e) = idx"
  using assms by (auto simp: nodeToEpoch_def nodeToIndexUnchecked_def dvd_def)

lemma nodeToIndex_of_index:
  "idx < kSize B \<Longrightarrow> kSize B dvd current_epoch d \<Longrightarrow> current_epoch d \<noteq> 0 \<Longrightarrow> nodeToIndex B d (idx + current_epoch d) = Some idx"
  using node_of_index [of idx "current_epoch d"] dvd_imp_le [of "kSize B" "current_epoch d"]
  by (simp add: nodeToIndex_def check_node_def)

lemma nodeToIndex_SomeD: "nodeToIndex B d node = Some i \<Longrightarrow> 0 < kSize B \<Longrightarrow>
    i < kSize B \<and> node = i + current_epoch d \<and> current_epoch d \<noteq> 0"
proof -
  assume n: "nodeToIndex B d node = Some i" "0 < kSize B"
  then have "kSize B \<le> node" "current_epoch d = nodeToEpoch B node" "i = node mod kSize B"
    by (auto simp: nodeToIndex_def check_node_def nodeToIndexUnchecked_def bind_eq_Some_conv)
  then show ?thesis using n(2) div_greater_zero_iff [of node "kSize B"] by (simp add: nodeToEpoch_def)
qed

lemma clear_dd:
  assumes "dd_shape B shape d"
  shows "dd_inv st B shape valid elems (dd_clear B d)" "dd_graph elems (dd_clear B d) = {}" "current_epoch (dd_clear B d) = 0"
  using assms clear clear_graph [of "dd_g d"]
  by (auto simp: dd_shape_def dd_inv_def dd_clear_def dd_graph_def)

lemma getAvailableNode_correct:
  assumes d: "dd_inv st B shape valid elems d" and ne: "elems (available_nodes d) \<noteq> {}"
  defines "idx \<equiv> Min (elems (available_nodes d))"
  shows "\<exists>d'. getAvailableNode B d data = Some (idx + current_epoch d, d') \<and> dd_inv st B shape valid elems d' \<and>
    nodeToIndex B d' (idx + current_epoch d) = Some idx \<and> getData B d' (idx + current_epoch d) = Some data \<and>
    idx \<notin> live B elems d \<and> live B elems d' = insert idx (live B elems d) \<and> elems (recycled_nodes d') = elems (recycled_nodes d) \<and>
    current_epoch d' = current_epoch d \<and> dd_graph elems d' = dd_graph elems d \<and> (st \<longrightarrow> idx \<notin> Field (dd_graph elems d)) \<and>
    dd_data d' = (dd_data d)[idx := data]"
proof -
  have v: "valid (available_nodes d)" and e: "kSize B dvd current_epoch d" "current_epoch d \<noteq> 0"
    and disj: "elems (available_nodes d) \<inter> elems (recycled_nodes d) = {}"
    and sub: "st \<longrightarrow> dd_graph elems d \<subseteq> live B elems d \<times> - elems (available_nodes d)" and len: "length (dd_data d) = kSize B"
    using d ne by (auto simp: dd_inv_def)
  have i: "idx \<in> elems (available_nodes d)" using Min_in [OF finite_elems [OF v] ne] by (simp add: idx_def)
  then have ib: "idx < kSize B" using elems_bound [OF v] by blast
  obtain a where a: "bv_getAndClearFirstOne B (available_nodes d) = Some (idx, a)" "valid a" "elems a = elems (available_nodes d) - {idx}"
    using getAndClearFirstOne [OF v ne] by (auto simp: idx_def)
  define d' where "d' = d\<lparr>available_nodes := a, dd_data := (dd_data d)[idx := data]\<rparr>"
  have g: "getAvailableNode B d data = Some (idx + current_epoch d, d')"
    using a(1) ib len by (simp add: getAvailableNode_def indexToNode_def check_idx_def Let_def d'_def)
  have l: "live B elems d' = insert idx (live B elems d)" using ib i disj by (auto simp: live_def d'_def a(3))
  have "dd_graph elems d' = dd_graph elems d" by (simp add: d'_def dd_graph_def)
  moreover have "dd_inv st B shape valid elems d'"
    using d a(2) sub l ne unfolding dd_inv_def by (auto simp: d'_def dd_graph_def a(3))
  moreover have n: "nodeToIndex B d' (idx + current_epoch d) = Some idx"
    using nodeToIndex_of_index [OF ib, of d'] e by (simp add: d'_def)
  moreover have "getData B d' (idx + current_epoch d) = Some data" using n ib len by (simp add: getData_def d'_def)
  moreover have "idx \<notin> live B elems d" using i by (simp add: live_def)
  moreover have "st \<longrightarrow> idx \<notin> Field (dd_graph elems d)" using sub i by (auto simp: Field_def live_def)
  ultimately show ?thesis using g l by (auto simp: d'_def)
qed

text \<open>The detector after \<open>newNode\<close> recycled nodes, before it hands one out.\<close>

lemma recycle_correct:
  assumes d: "dd_inv st B shape valid elems d" and e: "elems (available_nodes d) = {}" and ne: "elems (recycled_nodes d) \<noteq> {}"
  shows "\<exists>d1. newNode B d data = getAvailableNode B d1 data \<and> dd_inv st B shape valid elems d1 \<and>
    elems (available_nodes d1) = elems (recycled_nodes d) \<and> elems (recycled_nodes d1) = {} \<and> live B elems d1 = live B elems d \<and>
    current_epoch d1 = current_epoch d \<and> dd_data d1 = dd_data d \<and> dd_graph elems d1 = dd_graph elems d - UNIV \<times> elems (recycled_nodes d)"
proof -
  let ?R = "elems (recycled_nodes d)"
  have v: "valid (available_nodes d)" "valid (recycled_nodes d)" "bvg_valid B shape valid (dd_g d)"
    and n: "length (dd_edges d) = kSize B * 32" "n_edges d \<le> length (dd_edges d)"
    and sub: "st \<longrightarrow> dd_graph elems d \<subseteq> live B elems d \<times> - elems (available_nodes d)"
    and ok: "\<forall>x\<in>set (take (n_edges d) (dd_edges d)). edge_ok st (kSize B) (dd_graph elems d) ?R x"
    using d by (auto simp: dd_inv_def)
  have b: "\<forall>x\<in>set (take (n_edges d) (dd_edges d)). unat (e_from x) < kSize B \<and> unat (e_to x) < kSize B" using ok by (simp add: edge_ok_def)
  have none: "\<forall>j. n_edges d \<le> j \<and> j < n_edges d \<longrightarrow> kept ?R (dd_edges d ! j)" by auto
  obtain es m where es: "drop_edges B (recycled_nodes d) (n_edges d) (dd_edges d) (n_edges d) = Some (es, m)" "length es = length (dd_edges d)"
    "m \<le> n_edges d" "mset (take m es) = filter_mset (kept ?R) (mset (take (n_edges d) (dd_edges d)))"
    using drop_edges_correct [OF v(2) order_refl n(2) none b] by blast
  obtain g c where g: "bvg_removeEdgesTo B (dd_g d) (recycled_nodes d) = Some (c, g)" "bvg_valid B shape valid g"
    "edges elems (g_v g) = dd_graph elems d - UNIV \<times> ?R"
    using removeEdgesTo_graph [OF v(3,2)] by (auto simp: dd_graph_def)
  obtain a c' where a: "bv_setUnion B (available_nodes d) (recycled_nodes d) = Some (c', a)" "valid a" "elems a = ?R"
    using setUnion [OF v(1,2)] e by auto
  have c: "valid (bv_clear B (recycled_nodes d))" "elems (bv_clear B (recycled_nodes d)) = {}"
    using clear [OF valid_shape [OF v(2)]] by simp_all
  define d1 where "d1 = d\<lparr>dd_edges := es, n_edges := m, dd_g := g, available_nodes := a, recycled_nodes := bv_clear B (recycled_nodes d)\<rparr>"
  have "newNode B d data = getAvailableNode B d1 data"
    using e ne empty [OF v(1)] empty [OF v(2)] es(1) g(1) a(1) by (simp add: newNode_def Let_def d1_def)
  moreover have l: "live B elems d1 = live B elems d" using e by (simp add: live_def d1_def a(3) c(2))
  moreover have gr: "dd_graph elems d1 = dd_graph elems d - UNIV \<times> ?R" by (simp add: dd_graph_def d1_def g(3))
  moreover have "dd_inv st B shape valid elems d1"
  proof -
    have "edge_ok st (kSize B) (dd_graph elems d1) {} x" if x: "x \<in> set (take m es)" for x
    proof -
      have "x \<in># mset (take m es)" using x by simp
      then have "x \<in> set (take (n_edges d) (dd_edges d))" "kept ?R x" unfolding es(4) by auto
      then show ?thesis using ok by (auto simp: gr edge_ok_def kept_def)
    qed
    moreover have "st \<longrightarrow> dd_graph elems d1 \<subseteq> live B elems d1 \<times> - ?R" using sub by (auto simp: gr l)
    moreover have "current_epoch d \<noteq> 0" using d ne by (auto simp: dd_inv_def)
    ultimately show ?thesis
      using d a(2) c g(2) n es(2,3) by (simp add: dd_inv_def d1_def a(3))
  qed
  ultimately show ?thesis by (auto simp: d1_def a(3) c(2))
qed

lemma flush_correct:
  assumes d: "dd_inv st B shape valid elems d" and k: "0 < kSize B" and e: "elems (available_nodes d) = {}" "elems (recycled_nodes d) = {}"
  shows "\<exists>d1. newNode B d data = getAvailableNode B d1 data \<and> dd_inv st B shape valid elems d1 \<and>
    elems (available_nodes d1) = {..<kSize B} \<and> live B elems d1 = {} \<and>
    current_epoch d1 = current_epoch d + kSize B \<and> dd_data d1 = dd_data d \<and> dd_graph elems d1 = {}"
proof -
  have v: "valid (available_nodes d)" "valid (recycled_nodes d)" "bvg_valid B shape valid (dd_g d)" using d by (auto simp: dd_inv_def)
  have c: "valid (bv_clear B (recycled_nodes d))" "elems (bv_clear B (recycled_nodes d)) = {}"
    using clear [OF valid_shape [OF v(2)]] by simp_all
  have a: "valid (bv_setAll B (available_nodes d))" "elems (bv_setAll B (available_nodes d)) = {..<kSize B}"
    using setAll [OF valid_shape [OF v(1)]] by simp_all
  have "bvg_shape B shape (dd_g d)" using v(3) valid_shape by (auto simp: bvg_shape_def bvg_valid_def)
  then have g: "bvg_valid B shape valid (bvg_clear B (dd_g d))" "edges elems (g_v (bvg_clear B (dd_g d))) = {}"
    using clear_graph by blast+
  define d1 where "d1 = d\<lparr>current_epoch := current_epoch d + kSize B, recycled_nodes := bv_clear B (recycled_nodes d),
    available_nodes := bv_setAll B (available_nodes d), dd_g := bvg_clear B (dd_g d), n_edges := 0\<rparr>"
  have "newNode B d data = getAvailableNode B d1 data"
    using e empty [OF v(1)] empty [OF v(2)] by (simp add: newNode_def d1_def Let_def)
  moreover have "dd_inv st B shape valid elems d1" using d c a g k by (simp add: dd_inv_def d1_def dd_graph_def)
  ultimately show ?thesis using a g(2) by (auto simp: d1_def live_def dd_graph_def)
qed

lemma newNode_of_available:
  assumes n: "newNode B d data = getAvailableNode B d1 data" and d1: "dd_inv st B shape valid elems d1" "elems (available_nodes d1) \<noteq> {}"
  obtains node d' idx where "newNode B d data = Some (node, d')" "dd_inv st B shape valid elems d'"
    "nodeToIndex B d' node = Some idx" "getData B d' node = Some data" "st \<longrightarrow> idx \<notin> Field (dd_graph elems d')"
    "current_epoch d' = current_epoch d1" "idx \<notin> live B elems d1" "live B elems d' = insert idx (live B elems d1)"
    "dd_graph elems d' = dd_graph elems d1" "dd_data d' = (dd_data d1)[idx := data]"
proof -
  obtain d' where "getAvailableNode B d1 data = Some (Min (elems (available_nodes d1)) + current_epoch d1, d')" "dd_inv st B shape valid elems d'"
    "nodeToIndex B d' (Min (elems (available_nodes d1)) + current_epoch d1) = Some (Min (elems (available_nodes d1)))"
    "getData B d' (Min (elems (available_nodes d1)) + current_epoch d1) = Some data"
    "Min (elems (available_nodes d1)) \<notin> live B elems d1" "live B elems d' = insert (Min (elems (available_nodes d1))) (live B elems d1)"
    "current_epoch d' = current_epoch d1" "dd_graph elems d' = dd_graph elems d1" "st \<longrightarrow> Min (elems (available_nodes d1)) \<notin> Field (dd_graph elems d1)"
    "dd_data d' = (dd_data d1)[Min (elems (available_nodes d1)) := data]"
    using getAvailableNode_correct [OF d1, of data] by blast
  with that n show ?thesis by simp
qed

text \<open>\<open>newNode\<close> hands out a live node without edges. The epoch changes when no node was left.\<close>

lemma newNode_correct:
  assumes d: "dd_inv st B shape valid elems d" and k: "0 < kSize B"
  defines "L \<equiv> live B elems d" and "E \<equiv> dd_graph elems d"
  shows "\<exists>node d' idx. newNode B d data = Some (node, d') \<and> dd_inv st B shape valid elems d' \<and>
    nodeToIndex B d' node = Some idx \<and> getData B d' node = Some data \<and> dd_data d' = (dd_data d)[idx := data] \<and>
    (st \<longrightarrow> idx \<notin> Field (dd_graph elems d')) \<and>
    (if elems (available_nodes d) \<union> elems (recycled_nodes d) = {}
     then current_epoch d' = current_epoch d + kSize B \<and> dd_graph elems d' = {} \<and> live B elems d' = {idx}
     else current_epoch d' = current_epoch d \<and> idx \<notin> L \<and> live B elems d' = insert idx L \<and>
       dd_graph elems d' \<subseteq> E \<and> dd_graph elems d' \<inter> L \<times> L = E \<inter> L \<times> L)"
proof (cases "elems (available_nodes d) = {}")
  case False
  have v: "valid (available_nodes d)" using d by (simp add: dd_inv_def)
  have "newNode B d data = getAvailableNode B d data" using False empty [OF v] by (simp add: newNode_def)
  from newNode_of_available [OF this d False] show ?thesis using False unfolding L_def E_def by (metis Un_empty order_refl)
next
  case avail: True
  show ?thesis
  proof (cases "elems (recycled_nodes d) = {}")
    case True
    then obtain d1 where d1: "newNode B d data = getAvailableNode B d1 data" "dd_inv st B shape valid elems d1"
      "elems (available_nodes d1) = {..<kSize B}" "live B elems d1 = {}"
      "current_epoch d1 = current_epoch d + kSize B" "dd_data d1 = dd_data d" "dd_graph elems d1 = {}"
      using flush_correct [OF d k avail] by blast
    then have "elems (available_nodes d1) \<noteq> {}" using k by auto
    from newNode_of_available [OF d1(1,2) this] show ?thesis unfolding avail True d1(4-7) by (metis Un_empty)
  next
    case False
    then obtain d1 where d1: "newNode B d data = getAvailableNode B d1 data" "dd_inv st B shape valid elems d1"
      "elems (available_nodes d1) = elems (recycled_nodes d)" "live B elems d1 = L"
      "current_epoch d1 = current_epoch d" "dd_data d1 = dd_data d" "dd_graph elems d1 = E - UNIV \<times> elems (recycled_nodes d)"
      using recycle_correct [OF d avail] unfolding L_def E_def by blast
    have s: "dd_graph elems d1 \<inter> L \<times> L = E \<inter> L \<times> L" "dd_graph elems d1 \<subseteq> E" unfolding d1(7) L_def live_def by auto
    have "elems (available_nodes d1) \<noteq> {}" using d1(3) False by simp
    from newNode_of_available [OF d1(1,2) this] show ?thesis using False s unfolding avail d1(4-6) by (metis Un_empty)
  qed
qed

lemma removeNode_correct:
  assumes d: "dd_inv st B shape valid elems d" and k: "0 < kSize B" and n: "nodeToIndex B d node = Some idx" and l: "idx \<in> live B elems d"
  shows "\<exists>d'. removeNode B d node = Some d' \<and> dd_inv st B shape valid elems d' \<and> live B elems d' = live B elems d - {idx} \<and>
    current_epoch d' = current_epoch d \<and> dd_data d' = dd_data d \<and> dd_graph elems d' = {e \<in> dd_graph elems d. fst e \<noteq> idx}"
proof -
  have v: "valid (available_nodes d)" "valid (recycled_nodes d)" "bvg_valid B shape valid (dd_g d)"
    and ib: "idx < kSize B" "idx \<notin> elems (available_nodes d)" "idx \<notin> elems (recycled_nodes d)"
    and e: "current_epoch d \<noteq> 0"
    using d l nodeToIndex_SomeD [OF n k] by (auto simp: dd_inv_def live_def)
  obtain r where r: "bv_setBit B (recycled_nodes d) idx = Some (True, r)" "valid r" "elems r = insert idx (elems (recycled_nodes d))"
    using setBit [OF v(2) ib(1)] ib(3) by auto
  obtain g where g: "bvg_removeEdgesFrom_node B (dd_g d) idx = Some g" "bvg_valid B shape valid g"
    "edges elems (g_v g) = {e \<in> dd_graph elems d. fst e \<noteq> idx}"
    using removeEdgesFrom_node_graph [OF v(3) ib(1)] by (auto simp: dd_graph_def)
  define d' where "d' = d\<lparr>recycled_nodes := r, dd_g := g\<rparr>"
  have gr: "dd_graph elems d' = {e \<in> dd_graph elems d. fst e \<noteq> idx}" using g(3) by (simp add: d'_def dd_graph_def)
  have l': "live B elems d' = live B elems d - {idx}" by (auto simp: live_def d'_def r(3))
  have "removeNode B d node = Some d'"
    using n getBit [OF v(1) ib(1)] ib(2) r(1) g(1) by (simp add: removeNode_def d'_def)
  moreover have "dd_inv st B shape valid elems d'"
  proof -
    have "edge_ok st (kSize B) (dd_graph elems d') (elems r) x" if "x \<in> set (take (n_edges d) (dd_edges d))" for x
      using d that by (auto simp: dd_inv_def edge_ok_def gr r(3))
    moreover have "st \<longrightarrow> dd_graph elems d' \<subseteq> live B elems d' \<times> - elems (available_nodes d)"
      using d by (auto simp: dd_inv_def gr l')
    ultimately show ?thesis using d r g(2) ib(2) e by (simp add: dd_inv_def d'_def)
  qed
  ultimately show ?thesis using gr l' by (auto simp: d'_def)
qed

lemma dd_after_graph:
  assumes d: "dd_inv st B shape valid elems d" and g: "bvg_valid B shape valid g" "g_v g = g_v (dd_g d)"
  shows "dd_inv st B shape valid elems (d\<lparr>dd_g := g\<rparr>)" "live B elems (d\<lparr>dd_g := g\<rparr>) = live B elems d"
    "dd_graph elems (d\<lparr>dd_g := g\<rparr>) = dd_graph elems d"
  using assms by (auto simp: dd_inv_def live_def dd_graph_def)

lemma onLockBefore_correct:
  assumes d: "dd_inv st B shape valid elems d" and t: "tls_valid valid elems t" and k: "0 < kSize B" and n: "nodeToIndex B d cur = Some c"
  defines "t' \<equiv> ensureCurrentEpoch B d t"
  shows "\<exists>g. onLockBefore B d t cur = Some (\<exists>h\<in>elems (tls_bv t'). (c, h) \<in> (dd_graph elems d)\<^sup>*, d\<lparr>dd_g := g\<rparr>, t') \<and>
    bvg_valid B shape valid g \<and> g_v g = g_v (dd_g d)"
proof -
  have t': "tls_valid valid elems t'" "tls_epoch t' = current_epoch d"
    using tls_ensureCurrentEpoch_valid [OF t, of "current_epoch d"] by (simp_all add: t'_def ensureCurrentEpoch_def)
  have v: "bvg_valid B shape valid (dd_g d)" "valid (tls_bv t')" "c < kSize B"
    using d t'(1) nodeToIndex_SomeD [OF n k] by (auto simp: dd_inv_def tls_valid_def)
  from isReachable_graph [OF v(1,3,2)] show ?thesis
    using n t'(2) by (auto simp: onLockBefore_def Let_def tls_getLocks_def dd_graph_def simp flip: t'_def)
qed

end

text \<open>New edges into one node close a cycle exactly when the node reaches one of their sources.\<close>

lemma reach_via_node:
  assumes "(a, b) \<in> (E \<union> H \<times> {c})\<^sup>*"
  shows "(a, b) \<in> E\<^sup>* \<or> (\<exists>h\<in>H. (a, h) \<in> E\<^sup>*) \<and> (c, b) \<in> E\<^sup>*"
  using assms by (induction rule: rtrancl_induct) (auto intro: rtrancl_into_rtrancl)

lemma acyclic_new_edges: "acyclic (E \<union> H \<times> {c}) \<longleftrightarrow> acyclic E \<and> (\<forall>h\<in>H. (c, h) \<notin> E\<^sup>*)"
proof (intro iffI conjI ballI)
  assume a: "acyclic (E \<union> H \<times> {c})"
  then show "acyclic E" by (rule acyclic_subset) simp
  fix h
  assume "h \<in> H"
  show "(c, h) \<notin> E\<^sup>*"
  proof
    assume "(c, h) \<in> E\<^sup>*"
    then have "(c, h) \<in> (E \<union> H \<times> {c})\<^sup>*" by (rule rtrancl_mono [THEN subsetD, rotated]) simp
    moreover have "(h, c) \<in> E \<union> H \<times> {c}" using \<open>h \<in> H\<close> by simp
    ultimately show False using a unfolding acyclic_def by (meson rtrancl_into_trancl2)
  qed
next
  assume a: "acyclic E \<and> (\<forall>h\<in>H. (c, h) \<notin> E\<^sup>*)"
  show "acyclic (E \<union> H \<times> {c})"
    unfolding acyclic_def
  proof (intro allI notI)
    fix x
    assume "(x, x) \<in> (E \<union> H \<times> {c})\<^sup>+"
    then obtain y where y: "(x, y) \<in> E \<union> H \<times> {c}" "(y, x) \<in> (E \<union> H \<times> {c})\<^sup>*" by (meson tranclD)
    from reach_via_node [OF y(2)] show False
    proof
      assume "(y, x) \<in> E\<^sup>*"
      then show False using y(1) a by (auto simp: acyclic_def dest: rtrancl_into_trancl2)
    next
      assume "(\<exists>h\<in>H. (y, h) \<in> E\<^sup>*) \<and> (c, x) \<in> E\<^sup>*"
      then obtain h where h: "h \<in> H" "(y, h) \<in> E\<^sup>*" "(c, x) \<in> E\<^sup>*" by blast
      show False
      proof (cases "(x, y) \<in> E")
        case True
        then have "(c, h) \<in> E\<^sup>*" using h by (meson rtrancl_into_rtrancl rtrancl_trans)
        then show False using a h(1) by blast
      qed (use y(1) a h in auto)
    qed
  qed
qed

context bit_vector
begin

lemma record_edges_correct:
  assumes t: "tls_valid valid elems t" and k: "kSize B \<le> 2 ^ 16" and c: "c < kSize B"
    and a: "m \<le> length arr" "\<forall>x\<in>set (take m arr). x < kSize B \<and> (x, c) \<in> E"
    and es: "n \<le> length es" "\<forall>e\<in>set (take n es). edge_ok st (kSize B) E R e"
  shows "\<exists>es' n'. for_each [0..<m] (record_edge t arr c stk tid) (es, n) = Some (es', n') \<and> length es' = length es \<and>
    n' \<le> length es \<and> (\<forall>e\<in>set (take n' es'). edge_ok st (kSize B) E R e)"
proof -
  define I where "I D s \<longleftrightarrow> length (fst s) = length es \<and> snd s \<le> length es \<and> (\<forall>e\<in>set (take (snd s) (fst s)). edge_ok st (kSize B) E R e)"
    for D :: "nat set" and s
  have base: "I {} (es, n)" using es by (simp add: I_def)
  have step: "\<exists>s'. record_edge t arr c stk tid i s = Some s' \<and> I (insert i D) s'"
    if i: "i \<in> set [0..<m]" "i \<notin> D" and s: "I D s" for i D s
  proof -
    obtain xs p where sx: "s = (xs, p)" by force
    have im: "i < m" using i by simp
    then have "arr ! i \<in> set (take m arr)" using a(1) by (metis in_set_conv_nth length_take min.absorb2 nth_take)
    then have ai: "arr ! i < kSize B" "(arr ! i, c) \<in> E" using a(2) by blast+
    obtain ctx where ctx: "tls_findLockContext t (arr ! i) = Some ctx"
      using tls_findLockContext_correct [OF t ai(1)] k by auto
    define e where "e = \<lparr>e_from = of_nat (arr ! i), e_to = of_nat c, stk_from = ctx, stk_to = stk, unique_tid = tid\<rparr>"
    have "unat (of_nat x :: 16 word) = x" if "x < kSize B" for x using narrow [of x "of_nat x :: 16 word"] that k by simp
    then have e: "edge_ok st (kSize B) E R e" using ai c by (simp add: e_def edge_ok_def)
    show ?thesis
    proof (cases "p < length xs")
      case True
      then have "take (p + 1) (xs[p := e]) = take p xs @ [e]" by (simp add: take_Suc_conv_app_nth)
      then have "I (insert i D) (xs[p := e], p + 1)" using s e True by (auto simp: I_def sx)
      moreover have "record_edge t arr c stk tid i s = Some (xs[p := e], p + 1)"
        using True im a(1) ctx by (simp add: record_edge_def sx e_def)
      ultimately show ?thesis by blast
    next
      case False
      then show ?thesis using s by (auto simp: record_edge_def sx I_def)
    qed
  qed
  obtain s' where "for_each [0..<m] (record_edge t arr c stk tid) (es, n) = Some s'" "I (set [0..<m]) s'"
    by (rule for_each_rule [of "[0..<m]" I, OF distinct_upt base step])
  then show ?thesis by (cases s') (auto simp: I_def)
qed

lemma dd_addEdges_correct:
  assumes d: "dd_inv st B shape valid elems d" and t: "tls_valid valid elems t" and k: "0 < kSize B" "kSize B \<le> 2 ^ 16"
    and n: "nodeToIndex B d cur = Some c" and l: "c \<in> live B elems d"
  defines "t' \<equiv> ensureCurrentEpoch B d t"
  defines "H \<equiv> elems (tls_bv t')" and "E \<equiv> dd_graph elems d"
  assumes h: "st \<Longrightarrow> H \<subseteq> live B elems d"
  shows "\<exists>d'. dd_addEdges B d t cur stk tid added = Some (min (length added) (card {h \<in> H. (h, c) \<notin> E}), d', t') \<and>
    dd_inv st B shape valid elems d' \<and> dd_graph elems d' = E \<union> H \<times> {c} \<and>
    live B elems d' = live B elems d \<and> current_epoch d' = current_epoch d \<and> dd_data d' = dd_data d"
proof -
  have t': "tls_valid valid elems t'" "tls_epoch t' = current_epoch d"
    using tls_ensureCurrentEpoch_valid [OF t, of "current_epoch d"] by (simp_all add: t'_def ensureCurrentEpoch_def)
  have v: "bvg_valid B shape valid (dd_g d)" "valid (tls_bv t')" "c < kSize B" "c \<notin> elems (available_nodes d)"
    and len: "length (dd_edges d) = kSize B * 32" "n_edges d \<le> length (dd_edges d)"
    and ok: "\<forall>e\<in>set (take (n_edges d) (dd_edges d)). edge_ok st (kSize B) E (elems (recycled_nodes d)) e"
    using d t'(1) l by (auto simp: dd_inv_def tls_valid_def live_def E_def)
  let ?new = "{h \<in> H. (h, c) \<notin> E}"
  let ?m = "min (length added) (card ?new)" and ?E' = "E \<union> H \<times> {c}"
  obtain arr g where g: "bvg_addEdges B (dd_g d) (tls_bv t') c added (length added) = Some (?m, arr, g)"
    "bvg_valid B shape valid g" "edges elems (g_v g) = ?E'" "take ?m arr = take (length added) (sorted_list_of_set ?new)"
    using addEdges_graph [OF v(1,2,3) order_refl, of added] unfolding H_def E_def dd_graph_def by blast
  have fin: "finite ?new" using finite_elems [OF v(2)] by (simp add: H_def)
  have m: "?m \<le> length arr" using arg_cong [OF g(4), of length] fin by simp
  have "set (take ?m arr) \<subseteq> H" unfolding g(4) using fin set_take_subset [of "length added" "sorted_list_of_set ?new"] by auto
  moreover have "H \<subseteq> {..<kSize B}" using elems_bound [OF v(2)] by (simp add: H_def)
  ultimately have a: "\<forall>x\<in>set (take ?m arr). x < kSize B \<and> (x, c) \<in> ?E'" by auto
  have ok': "\<forall>e\<in>set (take (n_edges d) (dd_edges d)). edge_ok st (kSize B) ?E' (elems (recycled_nodes d)) e"
    using ok by (auto simp: edge_ok_def)
  obtain es p where r: "for_each [0..<?m] (record_edge t' arr c stk tid) (dd_edges d, n_edges d) = Some (es, p)"
    "length es = length (dd_edges d)" "p \<le> length (dd_edges d)" "\<forall>e\<in>set (take p es). edge_ok st (kSize B) ?E' (elems (recycled_nodes d)) e"
    using record_edges_correct [OF t'(1) k(2) v(3) m a len(2) ok', of stk tid] by blast
  define d' where "d' = d\<lparr>dd_g := g, dd_edges := es, n_edges := p\<rparr>"
  have gr: "dd_graph elems d' = ?E'" and l': "live B elems d' = live B elems d" using g(3) by (simp_all add: d'_def dd_graph_def live_def)
  have "dd_addEdges B d t cur stk tid added = Some (?m, d', t')"
    using n t'(2) g(1) r(1) by (simp add: dd_addEdges_def Let_def tls_getLocks_def d'_def flip: t'_def)
  moreover have "dd_inv st B shape valid elems d'"
  proof -
    have "st \<longrightarrow> ?E' \<subseteq> live B elems d \<times> - elems (available_nodes d)" using d h v(4) by (auto simp: dd_inv_def E_def)
    then show ?thesis using d g(2) r len by (simp add: dd_inv_def d'_def gr [unfolded d'_def] l' [unfolded d'_def])
  qed
  ultimately show ?thesis using gr l' by (auto simp: d'_def)
qed

lemma ensure_idem: "ensureCurrentEpoch B d (ensureCurrentEpoch B d t) = ensureCurrentEpoch B d t"
  by (simp add: ensureCurrentEpoch_def tls_ensureCurrentEpoch_def)

lemma ensure_valid: "tls_valid valid elems t \<Longrightarrow> tls_valid valid elems (ensureCurrentEpoch B d t) \<and> tls_epoch (ensureCurrentEpoch B d t) = current_epoch d"
  using tls_ensureCurrentEpoch_valid [of t "current_epoch d"] by (simp add: ensureCurrentEpoch_def)

lemma ensure_same_epoch: "current_epoch d' = current_epoch d \<Longrightarrow> ensureCurrentEpoch B d' t = ensureCurrentEpoch B d t"
  by (simp add: ensureCurrentEpoch_def)

lemma nodeToIndex_same_epoch: "current_epoch d' = current_epoch d \<Longrightarrow> nodeToIndex B d' node = nodeToIndex B d node"
  by (simp add: nodeToIndex_def check_node_def)

lemma isHeld_correct:
  assumes t: "tls_valid valid elems t" and e: "tls_epoch t = current_epoch d" and n: "nodeToIndex B d node = Some i" "0 < kSize B"
  shows "isHeld B d t node = Some (i \<in> elems (tls_bv t))"
  using t e n nodeToIndex_SomeD [OF n] getBit [of "tls_bv t" i] by (simp add: isHeld_def tls_getLocks_def tls_valid_def)

lemma onLockAfter_correct:
  assumes t: "tls_valid valid elems t" and n: "nodeToIndex B d cur = Some c" and k: "0 < kSize B" "kSize B \<le> 2 ^ 32"
  defines "t' \<equiv> ensureCurrentEpoch B d t"
  shows "\<not> tls_room elems t' c \<Longrightarrow> onLockAfter B d t cur stk = None"
    "tls_room elems t' c \<Longrightarrow> \<exists>t''. onLockAfter B d t cur stk = Some t'' \<and> tls_valid valid elems t'' \<and> tls_epoch t'' = current_epoch d \<and>
      tls_locks elems t'' = add_mset c (tls_locks elems t') \<and> elems (tls_bv t'') = insert c (elems (tls_bv t'))"
proof -
  have v: "tls_valid valid elems t'" "tls_epoch t' = current_epoch d" using ensure_valid [OF t] by (simp_all add: t'_def)
  have c: "c < kSize B" using nodeToIndex_SomeD [OF n k(1)] by blast
  note a = tls_addLock_correct [OF v(1) c k(2) v(2), of stk]
  show "onLockAfter B d t cur stk = None" if "\<not> tls_room elems t' c"
    using a(1) [OF that] n by (simp add: onLockAfter_def Let_def flip: t'_def)
  show "\<exists>t''. onLockAfter B d t cur stk = Some t'' \<and> tls_valid valid elems t'' \<and> tls_epoch t'' = current_epoch d \<and>
      tls_locks elems t'' = add_mset c (tls_locks elems t') \<and> elems (tls_bv t'') = insert c (elems (tls_bv t'))" if "tls_room elems t' c"
    using a(2) [OF that] n by (auto simp: onLockAfter_def Let_def simp flip: t'_def)
qed

text \<open>\<open>onLock\<close> reports exactly the acquisitions that close a cycle in the lock graph.\<close>

lemma onLock_correct:
  assumes d: "dd_inv st B shape valid elems d" and t: "tls_valid valid elems t" and k: "0 < kSize B" "kSize B \<le> 2 ^ 16"
    and n: "nodeToIndex B d cur = Some c" and l: "c \<in> live B elems d"
  defines "t' \<equiv> ensureCurrentEpoch B d t"
  defines "H \<equiv> elems (tls_bv t')" and "E \<equiv> dd_graph elems d"
  assumes h: "st \<Longrightarrow> H \<subseteq> live B elems d" and room: "tls_room elems t' c"
  shows "\<exists>d' t''. onLock B d t cur stk added = Some (c \<notin> H \<and> (\<exists>h\<in>H. (c, h) \<in> E\<^sup>*), d', t'') \<and>
    dd_inv st B shape valid elems d' \<and> dd_graph elems d' = E \<union> H \<times> {c} \<and> live B elems d' = live B elems d \<and> current_epoch d' = current_epoch d \<and>
    tls_valid valid elems t'' \<and> tls_locks elems t'' = add_mset c (tls_locks elems t')"
proof -
  have v: "tls_valid valid elems t'" "tls_epoch t' = current_epoch d" and i: "ensureCurrentEpoch B d t' = t'"
    using ensure_valid [OF t] by (simp_all add: t'_def ensure_idem)
  have held: "isHeld B d t' cur = Some (c \<in> H)" unfolding H_def by (rule isHeld_correct [OF v n k(1)])
  obtain d1 where d1: "(if \<not> c \<in> H then onLockBefore B d t' cur else Some (False, d, t')) = Some (c \<notin> H \<and> (\<exists>h\<in>H. (c, h) \<in> E\<^sup>*), d1, t')"
    "dd_inv st B shape valid elems d1" "live B elems d1 = live B elems d" "dd_graph elems d1 = E" "current_epoch d1 = current_epoch d"
  proof (cases "c \<in> H")
    case True
    then show ?thesis by (intro that [of d] d) (simp_all add: E_def)
  next
    case False
    from onLockBefore_correct [OF d v(1) k(1) n] obtain g where "onLockBefore B d t' cur = Some (\<exists>h\<in>H. (c, h) \<in> E\<^sup>*, d\<lparr>dd_g := g\<rparr>, t')"
      "bvg_valid B shape valid g" "g_v g = g_v (dd_g d)" unfolding i H_def E_def by blast
    then show ?thesis by (intro that [of "d\<lparr>dd_g := g\<rparr>"] dd_after_graph(1) d) (simp_all add: False E_def dd_after_graph [OF d])
  qed
  have n1: "nodeToIndex B d1 cur = Some c" and i1: "ensureCurrentEpoch B d1 t' = t'"
    using n i nodeToIndex_same_epoch [OF d1(5)] ensure_same_epoch [OF d1(5)] by simp_all
  obtain d2 m where d2: "dd_addEdges B d1 t' cur stk 0 added = Some (m, d2, t')" "dd_inv st B shape valid elems d2"
    "dd_graph elems d2 = E \<union> H \<times> {c}" "live B elems d2 = live B elems d" "current_epoch d2 = current_epoch d"
    using dd_addEdges_correct [OF d1(2) v(1) k n1, of stk 0 added] l h unfolding i1 d1(3-5) H_def by blast
  have n2: "nodeToIndex B d2 cur = Some c" and i2: "ensureCurrentEpoch B d2 t' = t'"
    using n i nodeToIndex_same_epoch [OF d2(5)] ensure_same_epoch [OF d2(5)] by simp_all
  have k32: "kSize B \<le> 2 ^ 32" using k(2) by simp
  obtain t'' where "onLockAfter B d2 t' cur stk = Some t''" "tls_valid valid elems t''" "tls_locks elems t'' = add_mset c (tls_locks elems t')"
    using onLockAfter_correct(2) [OF v(1) n2 k(1) k32, of stk] room unfolding i2 by blast
  then show ?thesis using held d1(1) d2 by (simp add: onLock_def Let_def flip: t'_def)
qed

lemma onTryLock_correct:
  "onTryLock B d t cur stk = map_option (Pair False) (onLockAfter B d t cur stk)"
proof (cases "nodeToIndex B d cur")
  case (Some c)
  then show ?thesis
    by (cases "tls_addLock B (ensureCurrentEpoch B d t) c (current_epoch d) stk") (auto simp: onTryLock_def onLockAfter_def Let_def)
qed (simp add: onTryLock_def onLockAfter_def Let_def)

lemma tls_held_elems: "tls_valid valid elems t \<Longrightarrow> set (tls_held t) = elems (tls_bv t)"
proof -
  assume "tls_valid valid elems t"
  then have "mset (tls_held t) = mset_set (elems (tls_bv t))" "finite (elems (tls_bv t))" by (auto simp: tls_valid_def)
  then show ?thesis by (metis finite_set_mset_mset_set set_mset_mset)
qed

lemma all_edges_loop_eq:
  assumes d: "dd_inv st B shape valid elems d" and t: "tls_valid valid elems t" and c: "c < kSize B" and i: "set is \<subseteq> {..<n_all_locks t}"
  shows "all_edges_loop B d t c is = Some (\<forall>i\<in>set is. (tls_held t ! i, c) \<in> dd_graph elems d)"
  using i
proof (induction "is")
  case (Cons i "is")
  have len: "n_all_locks t \<le> length (all_locks_with_contexts t)" "length (tls_held t) = n_all_locks t" and g: "bvg_valid B shape valid (dd_g d)"
    and v: "valid (tls_bv t)" using d t by (auto simp: tls_valid_def tls_held_def dd_inv_def)
  have get: "tls_getLock t i = Some (tls_held t ! i)" using Cons.prems len by (simp add: tls_getLock_def tls_held_def)
  have "tls_held t ! i \<in> elems (tls_bv t)" using Cons.prems len tls_held_elems [OF t] nth_mem [of i "tls_held t"] by auto
  then have "tls_held t ! i < kSize B" using elems_bound [OF v] by blast
  then show ?case using Cons get hasEdge_graph [OF g _ c, of "tls_held t ! i"] by (simp add: dd_graph_def)
qed simp

lemma hasAllEdges_correct:
  assumes d: "dd_inv st B shape valid elems d" and t: "tls_valid valid elems t" and k: "0 < kSize B"
  shows "hasAllEdges B d t cur = Some (cur \<noteq> 0 \<and> tls_epoch t = current_epoch d \<and> tls_epoch t = nodeToEpoch B cur \<and>
    elems (tls_bv t) \<times> {cur mod kSize B} \<subseteq> dd_graph elems d)"
proof -
  have len: "length (tls_held t) = n_all_locks t" using t by (auto simp: tls_valid_def tls_held_def)
  have "(\<forall>i\<in>set [0..<n_all_locks t]. (tls_held t ! i, c) \<in> dd_graph elems d) \<longleftrightarrow> elems (tls_bv t) \<times> {c} \<subseteq> dd_graph elems d" for c
    unfolding tls_held_elems [OF t, symmetric] by (force simp: in_set_conv_nth len)
  then show ?thesis
    using all_edges_loop_eq [OF d t, of "cur mod kSize B" "[0..<n_all_locks t]"] k
    by (auto simp: hasAllEdges_def Let_def nodeToIndexUnchecked_def subset_eq)
qed

text \<open>The fast path is taken only when the slow path would not change the graph.\<close>

lemma onLockFast_correct:
  assumes d: "dd_inv st B shape valid elems d" and t: "tls_valid valid elems t" and k: "0 < kSize B" "kSize B \<le> 2 ^ 32"
    and f: "onLockFast B d t cur stk = Some (True, t')" and e: "current_epoch d \<noteq> 0"
  shows "\<exists>c. nodeToIndex B d cur = Some c \<and> dd_graph elems d \<union> elems (tls_bv t) \<times> {c} = dd_graph elems d \<and>
    ensureCurrentEpoch B d t = t \<and> onLockAfter B d t cur stk = Some t'"
proof -
  let ?c = "cur mod kSize B"
  have h: "cur \<noteq> 0" "tls_epoch t = current_epoch d" "tls_epoch t = nodeToEpoch B cur" "elems (tls_bv t) \<times> {?c} \<subseteq> dd_graph elems d"
    and a: "(\<exists>b. tls_addLock B t ?c (current_epoch d) stk = Some (b, t'))"
    using f hasAllEdges_correct [OF d t k(1), of cur]
    by (auto simp: onLockFast_def nodeToIndexUnchecked_def bind_eq_Some_conv split: if_splits)
  have "cur \<ge> kSize B"
  proof (rule ccontr)
    assume "\<not> cur \<ge> kSize B"
    then have "nodeToEpoch B cur = 0" by (simp add: nodeToEpoch_def)
    then show False using h e by simp
  qed
  then have "nodeToIndex B d cur = Some ?c" using h by (simp add: nodeToIndex_def check_node_def nodeToIndexUnchecked_def)
  moreover have "ensureCurrentEpoch B d t = t" using h(2) by (simp add: ensureCurrentEpoch_def tls_ensureCurrentEpoch_def)
  ultimately show ?thesis using h(4) a by (auto simp: onLockAfter_def Let_def)
qed

lemma onUnlock_correct:
  assumes t: "tls_valid valid elems t" and k: "0 < kSize B" "kSize B \<le> 2 ^ 32"
  shows "\<exists>t'. onUnlock B t node = Some t' \<and> tls_valid valid elems t' \<and> tls_epoch t' = tls_epoch t \<and>
    tls_locks elems t' = (if tls_epoch t = nodeToEpoch B node then tls_locks elems t - {#node mod kSize B#} else tls_locks elems t)"
  using tls_removeLock_correct [OF t, of "node mod kSize B"] t k by (auto simp: onUnlock_def nodeToIndexUnchecked_def)

lemma findEdge_correct:
  assumes d: "dd_inv st B shape valid elems d" and n: "nodeToIndex B d m1 = Some i" "nodeToIndex B d m2 = Some j"
  shows "\<exists>r. findEdge B d m1 m2 = Some r \<and> (\<forall>e. r = Some e \<longrightarrow> unat (e_from e) = i \<and> unat (e_to e) = j \<and>
      (st \<and> i \<notin> elems (recycled_nodes d) \<longrightarrow> (i, j) \<in> dd_graph elems d)) \<and>
    (r = None \<longrightarrow> (\<forall>e\<in>set (take (n_edges d) (dd_edges d)). (unat (e_from e), unat (e_to e)) \<noteq> (i, j)))"
proof -
  let ?es = "dd_edges d" and ?n = "n_edges d"
  have len: "?n \<le> length ?es" and ok: "\<forall>e\<in>set (take ?n ?es). edge_ok st (kSize B) (dd_graph elems d) (elems (recycled_nodes d)) e"
    using d by (auto simp: dd_inv_def)
  have get: "do { e \<leftarrow> array_get ?es p; Some (unat (e_from e) = i \<and> unat (e_to e) = j) } =
      Some (unat (e_from (?es ! p)) = i \<and> unat (e_to (?es ! p)) = j)" if "p \<in> set [0..<?n]" for p
    using that len by simp
  show ?thesis
  proof (rule search_up_spec [of "[0..<?n]" "\<lambda>p. do { e \<leftarrow> array_get ?es p; Some (unat (e_from e) = i \<and> unat (e_to e) = j) }", OF get], goal_cases _ none found)
    case none
    have "\<forall>e\<in>set (take ?n ?es). (unat (e_from e), unat (e_to e)) \<noteq> (i, j)"
      unfolding nth_image [OF len, symmetric]
    proof (rule ballI, elim imageE)
      fix e p
      assume "e = ?es ! p" "p \<in> {0..<?n}"
      then show "(unat (e_from e), unat (e_to e)) \<noteq> (i, j)" using none(2) [of p] by simp
    qed
    then show ?case using none(1) n by (simp add: findEdge_def)
  next
    case (found p)
    then have "?es ! p \<in> set (take ?n ?es)" using len by (auto simp: in_set_conv_nth)
    then have "st \<and> i \<notin> elems (recycled_nodes d) \<longrightarrow> (i, j) \<in> dd_graph elems d" using ok found by (auto simp: edge_ok_def)
    then show ?case using found n len by (auto simp: findEdge_def)
  qed
qed

text \<open>Mapping the indices of a path to nodes.\<close>

lemma node_path_loop:
  assumes "m \<le> length p" "\<forall>x\<in>set (take m p). x < kSize B"
  shows "for_each [0..<m] (node_path B d) p = Some (map (\<lambda>x. x + current_epoch d) (take m p) @ drop m p)"
  using assms
proof (induction m)
  case (Suc m)
  let ?f = "\<lambda>x. x + current_epoch d"
  have m: "m < length p" "take (Suc m) p = take m p @ [p ! m]" using Suc.prems(1) by (simp_all add: take_Suc_conv_app_nth)
  have "for_each [0..<m] (node_path B d) p = Some (map ?f (take m p) @ drop m p)" using Suc m by simp
  moreover have "node_path B d m (map ?f (take m p) @ drop m p) = Some (map ?f (take (Suc m) p) @ drop (Suc m) p)"
    using Suc.prems(2) m by (simp add: node_path_def indexToNode_def check_idx_def nth_append list_update_append
        flip: Cons_nth_drop_Suc)
  ultimately show ?case by (simp add: for_each_snoc)
qed simp

lemma findPathToLock_correct:
  assumes d: "dd_inv st B shape valid elems d" and t: "tls_valid valid elems t" "tls_epoch t = current_epoch d"
    and k: "0 < kSize B" and n: "nodeToIndex B d cur = Some c" and p: "len \<le> length path"
  defines "H \<equiv> elems (tls_bv t)" and "E \<equiv> dd_graph elems d"
  assumes c: "c \<notin> H"
  shows "\<exists>r path' d'. findPathToLock B d t cur path len = Some (r, path', d') \<and> dd_inv st B shape valid elems d' \<and> dd_g d' = dd_g d \<and>
    live B elems d' = live B elems d \<and> current_epoch d' = current_epoch d \<and> dd_data d' = dd_data d \<and>
    (r = 0 \<longrightarrow> (\<forall>j<len. \<forall>h\<in>H. (c, h) \<notin> E ^^ j)) \<and>
    (r \<noteq> 0 \<longrightarrow> r \<le> len \<and> (\<exists>xs. length xs = r \<and> target_path E c H xs \<and> take r path' = map (\<lambda>x. x + current_epoch d) xs) \<and>
      (\<forall>j<r - 1. \<forall>h\<in>H. (c, h) \<notin> E ^^ j))"
proof -
  have v: "valid (tls_bv t)" "shape (tmp_bv d)" "bvg_valid B shape valid (dd_g d)" using d t(1) by (auto simp: dd_inv_def tls_valid_def)
  have cb: "c < kSize B" "cur = c + current_epoch d" using nodeToIndex_SomeD [OF n k] by blast+
  obtain w where w: "bv_copyFrom B (tmp_bv d) (tls_bv t) = Some w" "valid w" "elems w = H"
    using copyFrom [OF v(2,1)] by (auto simp: H_def)
  define d' where "d' = d\<lparr>tmp_bv := w\<rparr>"
  have d': "dd_inv st B shape valid elems d'" "dd_g d' = dd_g d" "live B elems d' = live B elems d" "current_epoch d' = current_epoch d" "dd_data d' = dd_data d"
    using d valid_shape [OF w(2)] by (simp_all add: d'_def dd_inv_def live_def dd_graph_def)
  obtain r q where r: "bvg_findShortestPath B (dd_g d) c w path len = Some (r, q)" "length q = length path"
    "r = 0 \<Longrightarrow> (\<forall>j<len. \<forall>h\<in>H. (c, h) \<notin> E ^^ j)"
    "r \<noteq> 0 \<Longrightarrow> r \<le> len \<and> target_path E c H (take r q) \<and> (\<forall>j<r - 1. \<forall>h\<in>H. (c, h) \<notin> E ^^ j)"
    using findShortestPath_graph [OF v(3) w(2) cb(1) p] unfolding w(3) E_def dd_graph_def by blast
  have q: "set (take r q) \<subseteq> {..<kSize B}" if "r \<noteq> 0"
  proof -
    have "set (tl xs) \<subseteq> Range E" if "successively (\<lambda>x y. (x, y) \<in> E) xs" for xs
      using that by (induction xs rule: induct_list012) auto
    then have "set xs \<subseteq> Field E \<union> {c}" if "target_path E c H xs" for xs
      using that by (cases xs) (fastforce simp: target_path_def Field_def)+
    moreover have "Field E \<subseteq> {..<kSize B}" using edges_bound [of "g_v (dd_g d)"] v(3) by (auto simp: E_def dd_graph_def graph_valid Field_def)
    ultimately show ?thesis using r(4) [OF that] cb(1) by blast
  qed
  have rl: "r \<le> length q" using r(2,4) p by (cases "r = 0") auto
  have np: "for_each [0..<r] (node_path B d') q = Some (map (\<lambda>x. x + current_epoch d) (take r q) @ drop r q)"
    using node_path_loop [OF rl, of d'] q by (cases "r = 0") (auto simp: d'_def)
  have hd: "array_get (map (\<lambda>x. x + current_epoch d) (take r q) @ drop r q) 0 = Some cur" if "r \<noteq> 0"
    using r(4) [OF that] rl that cb(2) by (cases q) (auto simp: target_path_def nth_append array_get_def)
  have n': "nodeToIndex B d' cur = Some c" using n nodeToIndex_same_epoch [of d' d] by (simp add: d'_def)
  have "findPathToLock B d t cur path len = Some (r, map (\<lambda>x. x + current_epoch d) (take r q) @ drop r q, d')"
    using w(1) t(2) n' getBit [OF w(2) cb(1)] c r(1) np hd rl
    by (cases "r = 0") (simp_all add: findPathToLock_def tls_getLocks_def Let_def w(3) d'(2) flip: d'_def)
  then show ?thesis using d' r(3,4) rl
    by (intro exI [of _ r] exI [of _ "map (\<lambda>x. x + current_epoch d) (take r q) @ drop r q"] exI [of _ d'] conjI)
      (auto intro!: exI [of _ "take r q"])
qed

end

end
