(* ===== verification/San_DD.thy ===== *)
theory San_DD
  imports San_Deadlock
begin

text \<open>
  \<open>sanitizer_deadlock_detector1.cpp\<close>: the handlers of mutex events, on top of \<open>DeadlockDetector\<close>. The state
  holds the detector, the logical threads and the mutexes by their addresses. Each handler is one
  step: the spin mutex and the unlocked fast paths are not modelled as interleavings. The callbacks
  \<open>Unwind\<close> and \<open>UniqueTid\<close> are values. The uninitialised local arrays \<open>added_edges[40]\<close> and \<open>path[20]\<close> are list
  parameters whose length is left open, and the warning that \<open>ReportDeadlock\<close> prints for a path that is too long
  is left out.
\<close>

section \<open>The state\<close>

record DDMutex =
  m_id :: nat
  m_stk :: "32 word"
  m_ctx :: "64 word"

record loop_entry =
  thr_ctx :: "64 word"
  mtx_ctx0 :: "64 word"
  mtx_ctx1 :: "64 word"
  le_stk0 :: "32 word"
  le_stk1 :: "32 word"

record DDReport =
  rep_n :: nat
  rep_loop :: "loop_entry list"

record 'bv DDLogicalThread =
  lt_ctx :: "64 word"
  lt_dd :: "'bv DeadlockDetectorTLS"
  lt_rep :: DDReport
  report_pending :: bool

record 'bv DD =
  DD_dd :: "'bv DeadlockDetector"
  second_deadlock_stack :: bool
  DD_threads :: "nat \<Rightarrow> 'bv DDLogicalThread"
  DD_mutexes :: "nat \<Rightarrow> DDMutex"

text \<open>Assignments through the pointers \<open>lt\<close> and \<open>m\<close>.\<close>

definition put_thread :: "'bv DD \<Rightarrow> nat \<Rightarrow> 'bv DDLogicalThread \<Rightarrow> 'bv DD" where
  "put_thread s t lt = s\<lparr>DD_threads := (DD_threads s)(t := lt)\<rparr>"

definition put_tls :: "'bv DD \<Rightarrow> nat \<Rightarrow> 'bv DeadlockDetectorTLS \<Rightarrow> 'bv DD" where
  "put_tls s t tls = put_thread s t ((DD_threads s t)\<lparr>lt_dd := tls\<rparr>)"

definition put_id :: "'bv DD \<Rightarrow> nat \<Rightarrow> nat \<Rightarrow> 'bv DD" where
  "put_id s m i = s\<lparr>DD_mutexes := (DD_mutexes s)(m := (DD_mutexes s m)\<lparr>m_id := i\<rparr>)\<rparr>"

definition tls_of :: "'bv DD \<Rightarrow> nat \<Rightarrow> 'bv DeadlockDetectorTLS" where
  "tls_of s t = lt_dd (DD_threads s t)"

definition id_of :: "'bv DD \<Rightarrow> nat \<Rightarrow> nat" where
  "id_of s m = m_id (DD_mutexes s m)"

section \<open>The code\<close>

definition DD_init :: "('bv, 'it) BV \<Rightarrow> 'bv DD \<Rightarrow> bool \<Rightarrow> 'bv DD" where
  "DD_init B s flag = s\<lparr>second_deadlock_stack := flag, DD_dd := dd_clear B (DD_dd s)\<rparr>"

definition CreateLogicalThread :: "('bv, 'it) BV \<Rightarrow> 'bv DD \<Rightarrow> nat \<Rightarrow> 64 word \<Rightarrow> 'bv DD" where
  "CreateLogicalThread B s t ctx =
     put_thread s t ((DD_threads s t)\<lparr>lt_ctx := ctx, lt_dd := tls_clear B (tls_of s t), report_pending := False\<rparr>)"

definition MutexInit :: "'bv DD \<Rightarrow> nat \<Rightarrow> 32 word \<Rightarrow> 'bv DD" where
  "MutexInit s m unwind = s\<lparr>DD_mutexes := (DD_mutexes s)(m := (DD_mutexes s m)\<lparr>m_id := 0, m_stk := unwind\<rparr>)\<rparr>"

definition MutexEnsureID :: "('bv, 'it) BV \<Rightarrow> 'bv DD \<Rightarrow> nat \<Rightarrow> nat \<Rightarrow> 'bv DD option" where
  "MutexEnsureID B s t m = do {
     s \<leftarrow> (if \<not> nodeBelongsToCurrentEpoch B (DD_dd s) (id_of s m)
            then do { (i, d) \<leftarrow> newNode B (DD_dd s) m; Some (put_id (s\<lparr>DD_dd := d\<rparr>) m i) }
            else Some s);
     Some (put_tls s t (ensureCurrentEpoch B (DD_dd s) (tls_of s t))) }"

text \<open>One round of the loop of \<open>ReportDeadlock\<close>.\<close>

definition report_round ::
    "('bv, 'it) BV \<Rightarrow> 'bv DD \<Rightarrow> nat list \<Rightarrow> nat \<Rightarrow> nat \<Rightarrow> loop_entry list \<Rightarrow> loop_entry list option" where
  "report_round B s path len i loop = do {
     from \<leftarrow> array_get path i;
     to \<leftarrow> array_get path ((i + 1) mod len);
     m0 \<leftarrow> getData B (DD_dd s) from;
     m1 \<leftarrow> getData B (DD_dd s) to;
     r \<leftarrow> findEdge B (DD_dd s) from to;
     let (stk_from, stk_to, tid) = (case r of Some e \<Rightarrow> (stk_from e, stk_to e, unique_tid e) | None \<Rightarrow> (0, 0, 0));
     array_set loop i \<lparr>thr_ctx = scast tid, mtx_ctx0 = m_ctx (DD_mutexes s m0), mtx_ctx1 = m_ctx (DD_mutexes s m1),
       le_stk0 = stk_to, le_stk1 = stk_from\<rparr> }"

definition ReportDeadlock :: "('bv, 'it) BV \<Rightarrow> 'bv DD \<Rightarrow> nat \<Rightarrow> nat \<Rightarrow> nat list \<Rightarrow> 'bv DD option" where
  "ReportDeadlock B s t m path = do {
     (len, path, d) \<leftarrow> findPathToLock B (DD_dd s) (tls_of s t) (id_of s m) path (length path);
     let s = s\<lparr>DD_dd := d\<rparr>;
     if len = 0 then Some s
     else do {
       x \<leftarrow> array_get path 0;
       CHECK (id_of s m = x);
       let s = put_thread s t ((DD_threads s t)\<lparr>report_pending := True\<rparr>);
       let len = min len 20;
       loop \<leftarrow> for_each [0..<len] (report_round B s path len) (rep_loop (lt_rep (DD_threads s t)));
       Some (put_thread s t ((DD_threads s t)\<lparr>lt_rep := \<lparr>rep_n = len, rep_loop = loop\<rparr>\<rparr>)) } }"

definition MutexBeforeLock ::
    "('bv, 'it) BV \<Rightarrow> 'bv DD \<Rightarrow> nat \<Rightarrow> nat \<Rightarrow> 32 word \<Rightarrow> 32 word \<Rightarrow> nat list \<Rightarrow> nat list \<Rightarrow> 'bv DD option" where
  "MutexBeforeLock B s t m unwind tid added path =
    (if tls_empty B (tls_of s t) then Some s
     else do {
       h \<leftarrow> hasAllEdges B (DD_dd s) (tls_of s t) (id_of s m);
       if h then Some s
       else do {
         s \<leftarrow> MutexEnsureID B s t m;
         held \<leftarrow> isHeld B (DD_dd s) (tls_of s t) (id_of s m);
         if held then Some s
         else do {
           (r, d, tls) \<leftarrow> onLockBefore B (DD_dd s) (tls_of s t) (id_of s m);
           let s = put_tls (s\<lparr>DD_dd := d\<rparr>) t tls;
           if r then do {
             (_, d, tls) \<leftarrow> dd_addEdges B (DD_dd s) (tls_of s t) (id_of s m) unwind tid added;
             ReportDeadlock B (put_tls (s\<lparr>DD_dd := d\<rparr>) t tls) t m path }
           else Some s } } })"

definition MutexAfterLock ::
    "('bv, 'it) BV \<Rightarrow> 'bv DD \<Rightarrow> nat \<Rightarrow> nat \<Rightarrow> bool \<Rightarrow> bool \<Rightarrow> 32 word \<Rightarrow> 32 word \<Rightarrow> nat list \<Rightarrow> 'bv DD option" where
  "MutexAfterLock B s t m wlock trylock unwind tid added = do {
     let stk = (if second_deadlock_stack s then unwind else 0);
     (r, tls) \<leftarrow> onFirstLock B (tls_of s t) (id_of s m) stk;
     let s = put_tls s t tls;
     if r then Some s
     else do {
       (r, tls) \<leftarrow> onLockFast B (DD_dd s) (tls_of s t) (id_of s m) stk;
       let s = put_tls s t tls;
       if r then Some s
       else do {
         s \<leftarrow> MutexEnsureID B s t m;
         (if wlock then do { h \<leftarrow> isHeld B (DD_dd s) (tls_of s t) (id_of s m); CHECK (\<not> h) } else Some ());
         s \<leftarrow> (if \<not> trylock then do {
                  (_, d, tls) \<leftarrow> dd_addEdges B (DD_dd s) (tls_of s t) (id_of s m) (if stk \<noteq> 0 then stk else unwind) tid added;
                  Some (put_tls (s\<lparr>DD_dd := d\<rparr>) t tls) }
                else Some s);
         tls \<leftarrow> onLockAfter B (DD_dd s) (tls_of s t) (id_of s m) stk;
         Some (put_tls s t tls) } } }"

definition MutexBeforeUnlock :: "('bv, 'it) BV \<Rightarrow> 'bv DD \<Rightarrow> nat \<Rightarrow> nat \<Rightarrow> 'bv DD option" where
  "MutexBeforeUnlock B s t m = do { tls \<leftarrow> onUnlock B (tls_of s t) (id_of s m); Some (put_tls s t tls) }"

definition MutexDestroy :: "('bv, 'it) BV \<Rightarrow> 'bv DD \<Rightarrow> nat \<Rightarrow> 'bv DD option" where
  "MutexDestroy B s m =
    (if id_of s m = 0 then Some s
     else do {
       s \<leftarrow> (if nodeBelongsToCurrentEpoch B (DD_dd s) (id_of s m)
              then do { d \<leftarrow> removeNode B (DD_dd s) (id_of s m); Some (s\<lparr>DD_dd := d\<rparr>) }
              else Some s);
       Some (put_id s m 0) })"

definition GetReport :: "'bv DD \<Rightarrow> nat \<Rightarrow> DDReport option \<times> 'bv DD" where
  "GetReport s t =
    (if \<not> report_pending (DD_threads s t) then (None, s)
     else (Some (lt_rep (DD_threads s t)), put_thread s t ((DD_threads s t)\<lparr>report_pending := False\<rparr>)))"

section \<open>The invariant\<close>

text \<open>The graph of lock acquisitions: an edge from each held lock to the lock acquired under it.\<close>

abbreviation lock_graph :: "('bv \<Rightarrow> nat set) \<Rightarrow> 'bv DD \<Rightarrow> (nat \<times> nat) set" where
  "lock_graph elems s \<equiv> dd_graph elems (DD_dd s)"

definition current :: "('bv, 'it) BV \<Rightarrow> 'bv DD \<Rightarrow> nat \<Rightarrow> bool" where
  "current B s m = nodeBelongsToCurrentEpoch B (DD_dd s) (id_of s m)"

definition index_of :: "('bv, 'it) BV \<Rightarrow> 'bv DD \<Rightarrow> nat \<Rightarrow> nat" where
  "index_of B s m = id_of s m mod kSize B"

text \<open>The locks a thread holds in the current epoch.\<close>

definition held :: "('bv \<Rightarrow> nat set) \<Rightarrow> 'bv DD \<Rightarrow> nat \<Rightarrow> nat set" where
  "held elems s t = (if tls_epoch (tls_of s t) = current_epoch (DD_dd s) then elems (tls_bv (tls_of s t)) else {})"

text \<open>
  Mutexes of the current epoch have live nodes, each its own; no identifier and no thread is ahead of the epoch. Under
  the flag \<open>st\<close> the locks a thread holds are nodes of such mutexes.
\<close>

definition sys_inv :: "bool \<Rightarrow> ('bv, 'it) BV \<Rightarrow> ('bv \<Rightarrow> bool) \<Rightarrow> ('bv \<Rightarrow> bool) \<Rightarrow> ('bv \<Rightarrow> nat set) \<Rightarrow> 'bv DD \<Rightarrow> bool" where
  "sys_inv st B shape valid elems s \<longleftrightarrow>
     dd_inv st B shape valid elems (DD_dd s) \<and>
     (\<forall>t. tls_valid valid elems (tls_of s t) \<and> tls_epoch (tls_of s t) \<le> current_epoch (DD_dd s) \<and>
       (st \<longrightarrow> held elems s t \<subseteq> index_of B s ` {m. current B s m})) \<and>
     (\<forall>m. (id_of s m = 0 \<or> kSize B \<le> id_of s m) \<and> nodeToEpoch B (id_of s m) \<le> current_epoch (DD_dd s)) \<and>
     (\<forall>m. current B s m \<longrightarrow> index_of B s m \<in> live B elems (DD_dd s) \<and> dd_data (DD_dd s) ! index_of B s m = m) \<and>
     (\<forall>t. length (rep_loop (lt_rep (DD_threads s t))) = 20)"

abbreviation sys_valid :: "('bv, 'it) BV \<Rightarrow> ('bv \<Rightarrow> bool) \<Rightarrow> ('bv \<Rightarrow> bool) \<Rightarrow> ('bv \<Rightarrow> nat set) \<Rightarrow> 'bv DD \<Rightarrow> bool" where
  "sys_valid \<equiv> sys_inv True"

abbreviation sys_safe :: "('bv, 'it) BV \<Rightarrow> ('bv \<Rightarrow> bool) \<Rightarrow> ('bv \<Rightarrow> bool) \<Rightarrow> ('bv \<Rightarrow> nat set) \<Rightarrow> 'bv DD \<Rightarrow> bool" where
  "sys_safe \<equiv> sys_inv False"

lemma put_simps [simp]:
  "tls_of (put_tls s t x) t' = (if t' = t then x else tls_of s t')" "DD_dd (put_tls s t x) = DD_dd s" "id_of (put_tls s t x) m = id_of s m"
  "tls_of (put_id s m i) t = tls_of s t" "DD_dd (put_id s m i) = DD_dd s" "id_of (put_id s m i) m' = (if m' = m then i else id_of s m')"
  "tls_of (s\<lparr>DD_dd := d\<rparr>) t = tls_of s t" "id_of (s\<lparr>DD_dd := d\<rparr>) m = id_of s m"
  "report_pending (DD_threads (put_tls s t x) t') = report_pending (DD_threads s t')"
  "lt_rep (DD_threads (put_tls s t x) t') = lt_rep (DD_threads s t')" "DD_threads (put_id s m i) = DD_threads s"
  by (simp_all add: tls_of_def put_tls_def put_thread_def put_id_def id_of_def)

lemma put_thread_simps [simp]:
  "DD_dd (put_thread s t x) = DD_dd s" "id_of (put_thread s t x) m = id_of s m" "DD_mutexes (put_thread s t x) = DD_mutexes s"
  "DD_threads (put_thread s t x) = (DD_threads s)(t := x)" "current B (put_thread s t x) = current B s" "index_of B (put_thread s t x) = index_of B s"
  by (simp_all add: put_thread_def id_of_def fun_eq_iff current_def index_of_def)

lemma put_tls_simps [simp]:
  "current B (put_tls s t x) = current B s" "index_of B (put_tls s t x) = index_of B s"
  "held elems (put_tls s t x) t' =
    (if t' = t then if tls_epoch x = current_epoch (DD_dd s) then elems (tls_bv x) else {} else held elems s t')"
  by (simp_all add: fun_eq_iff current_def index_of_def held_def)

lemma put_dd_same:
  assumes "current_epoch d = current_epoch (DD_dd s)"
  shows "current B (s\<lparr>DD_dd := d\<rparr>) = current B s" "index_of B (s\<lparr>DD_dd := d\<rparr>) = index_of B s" "held elems (s\<lparr>DD_dd := d\<rparr>) = held elems s"
  using assms by (simp_all add: fun_eq_iff current_def index_of_def held_def nodeBelongsToCurrentEpoch_def)

context bit_vector
begin

lemma sys_invD:
  assumes "sys_inv st B shape valid elems s"
  shows "dd_inv st B shape valid elems (DD_dd s)" "tls_valid valid elems (tls_of s t)" "tls_epoch (tls_of s t) \<le> current_epoch (DD_dd s)"
    "st \<Longrightarrow> held elems s t \<subseteq> index_of B s ` {m. current B s m}" "id_of s m = 0 \<or> kSize B \<le> id_of s m"
    "nodeToEpoch B (id_of s m) \<le> current_epoch (DD_dd s)"
    "current B s m \<Longrightarrow> index_of B s m \<in> live B elems (DD_dd s)" "current B s m \<Longrightarrow> dd_data (DD_dd s) ! index_of B s m = m"
  using assms by (simp_all add: sys_inv_def)

lemma sys_inv_safe: "sys_inv st B shape valid elems s \<Longrightarrow> sys_safe B shape valid elems s"
  by (auto simp: sys_inv_def dd_inv_def edge_ok_def)

lemma held_bound: "sys_inv st B shape valid elems s \<Longrightarrow> held elems s t \<subseteq> {..<kSize B}"
  using elems_bound [of "tls_bv (tls_of s t)"] sys_invD(2) [of st s t] by (auto simp: held_def tls_valid_def)

lemma held_live: "sys_inv st B shape valid elems s \<Longrightarrow> st \<Longrightarrow> held elems s t \<subseteq> live B elems (DD_dd s)"
  using sys_invD(4,7) by fastforce

lemma current_index: "sys_inv st B shape valid elems s \<Longrightarrow> current B s m \<Longrightarrow> nodeToIndex B (DD_dd s) (id_of s m) = Some (index_of B s m)"
  using sys_invD(5) [of st s m]
  by (auto simp: current_def nodeBelongsToCurrentEpoch_def nodeToIndex_def check_node_def nodeToEpoch_def nodeToIndexUnchecked_def index_of_def)

lemma put_tls_valid:
  assumes s: "sys_inv st B shape valid elems s" and x: "tls_valid valid elems x" "tls_epoch x \<le> current_epoch (DD_dd s)"
    "st \<Longrightarrow> tls_epoch x = current_epoch (DD_dd s) \<Longrightarrow> elems (tls_bv x) \<subseteq> index_of B s ` {m. current B s m}"
  shows "sys_inv st B shape valid elems (put_tls s t x)"
  using s x by (simp add: sys_inv_def)

lemma put_dd_valid:
  assumes s: "sys_inv st B shape valid elems s" and d: "dd_inv st B shape valid elems d" "current_epoch d = current_epoch (DD_dd s)"
    "live B elems d = live B elems (DD_dd s)" "dd_data d = dd_data (DD_dd s)"
  shows "sys_inv st B shape valid elems (s\<lparr>DD_dd := d\<rparr>)"
  using s d by (simp add: sys_inv_def put_dd_same [OF d(2)])

lemma ensure_thread:
  fixes t :: nat
  assumes s: "sys_inv st B shape valid elems s"
  defines "x \<equiv> ensureCurrentEpoch B (DD_dd s) (tls_of s t)"
  shows "sys_inv st B shape valid elems (put_tls s t x)" "tls_epoch x = current_epoch (DD_dd s)" "elems (tls_bv x) = held elems s t" "tls_valid valid elems x"
proof -
  show x: "tls_valid valid elems x" "tls_epoch x = current_epoch (DD_dd s)" "elems (tls_bv x) = held elems s t"
    using tls_ensureCurrentEpoch_valid [OF sys_invD(2) [OF s], of t "current_epoch (DD_dd s)"]
    by (simp_all add: x_def ensureCurrentEpoch_def held_def)
  show "sys_inv st B shape valid elems (put_tls s t x)"
    using put_tls_valid [OF s x(1)] x(2,3) sys_invD(4) [OF s, of t] by simp
qed

text \<open>A mutex gets a node of the current epoch, which has no edge when it is new.\<close>

lemma new_id_valid:
  assumes s: "sys_inv st B shape valid elems s" and k: "0 < kSize B" and m: "\<not> current B s m"
  obtains node d s' where "newNode B (DD_dd s) m = Some (node, d)" "s' = put_id (s\<lparr>DD_dd := d\<rparr>) m node" "sys_inv st B shape valid elems s'"
    "current B s' m" "held elems s' = (if current_epoch d = current_epoch (DD_dd s) then held elems s else (\<lambda>_. {}))"
    "dd_graph elems d \<subseteq> dd_graph elems (DD_dd s)" "\<And>t. held elems s t \<subseteq> live B elems (DD_dd s) \<Longrightarrow> index_of B s' m \<notin> held elems s' t"
proof -
  let ?d = "DD_dd s" and ?L = "live B elems (DD_dd s)"
  note dd = sys_invD(1) [OF s]
  obtain node d idx where n: "newNode B ?d m = Some (node, d)" "dd_inv st B shape valid elems d" "nodeToIndex B d node = Some idx"
    "dd_data d = (dd_data ?d)[idx := m]"
    and c: "if elems (available_nodes ?d) \<union> elems (recycled_nodes ?d) = {}
     then current_epoch d = current_epoch ?d + kSize B \<and> dd_graph elems d = {} \<and> live B elems d = {idx}
     else current_epoch d = current_epoch ?d \<and> idx \<notin> ?L \<and> live B elems d = insert idx ?L \<and>
       dd_graph elems d \<subseteq> dd_graph elems ?d \<and> dd_graph elems d \<inter> ?L \<times> ?L = dd_graph elems ?d \<inter> ?L \<times> ?L"
    using newNode_correct [OF dd k, of m] by blast
  define s' where "s' = put_id (s\<lparr>DD_dd := d\<rparr>) m node"
  have i: "idx < kSize B" "node = idx + current_epoch d" "current_epoch d \<noteq> 0" using nodeToIndex_SomeD [OF n(3) k] by blast+
  have dvd: "kSize B dvd current_epoch d" and len: "length (dd_data ?d) = kSize B" using n(2) dd by (simp_all add: dd_inv_def)
  have node: "nodeToEpoch B node = current_epoch d" "node mod kSize B = idx" "kSize B \<le> node"
    using node_of_index [OF i(1) dvd] dvd_imp_le [OF dvd] i by (simp_all add: nodeToIndexUnchecked_def)
  have cm: "current B s' m" "index_of B s' m = idx"
    using node k by (auto simp: current_def index_of_def s'_def nodeBelongsToCurrentEpoch_def nodeToEpoch_def)
  have f: "tls_of s' = tls_of s" "DD_dd s' = d" "id_of s' = (id_of s)(m := node)" "DD_threads s' = DD_threads s" by (auto simp: s'_def)
  show ?thesis
  proof (cases "current_epoch d = current_epoch ?d")
    case True
    then have c: "idx \<notin> ?L" "live B elems d = insert idx ?L" "dd_graph elems d \<subseteq> dd_graph elems ?d"
      "dd_graph elems d \<inter> ?L \<times> ?L = dd_graph elems ?d \<inter> ?L \<times> ?L"
      using c k by (auto split: if_splits)
    have o: "current B s' m' = current B s m'" "index_of B s' m' = index_of B s m'" if "m' \<noteq> m" for m'
      using that True by (simp_all add: current_def index_of_def f nodeBelongsToCurrentEpoch_def)
    have h: "held elems s' = held elems s" by (simp add: fun_eq_iff held_def f True)
    have "sys_inv st B shape valid elems s'"
      unfolding sys_inv_def
    proof (intro conjI allI impI)
      fix t
      assume st
      show "held elems s' t \<subseteq> index_of B s' ` {m. current B s' m}"
        using sys_invD(4) [OF s \<open>st\<close>, of t] m o unfolding h by (force simp: image_iff)
    next
      fix m'
      assume "current B s' m'"
      then show "index_of B s' m' \<in> live B elems (DD_dd s')" "dd_data (DD_dd s') ! index_of B s' m' = m'"
        using sys_invD(7,8) [OF s, of m'] o [of m'] cm c(1,2) n(4) i(1) len
        by (cases "m' = m"; force simp: f nth_list_update)+
    qed (use s n(2) node True in \<open>auto simp: f sys_inv_def\<close>)
    then show ?thesis
    proof (rule that [OF n(1) s'_def _ cm(1)])
      show "index_of B s' m \<notin> held elems s' t" if "held elems s t \<subseteq> ?L" for t using that c(1) cm(2) unfolding h by blast
    qed (use h True c in auto)
  next
    case False
    then have c: "current_epoch d = current_epoch ?d + kSize B" "dd_graph elems d = {}" "live B elems d = {idx}"
      using c by (auto split: if_splits)
    have o: "\<not> current B s' m'" if "m' \<noteq> m" for m'
      using that sys_invD(6) [OF s, of m'] c(1) k by (auto simp: current_def f nodeBelongsToCurrentEpoch_def nodeToEpoch_def)
    have h: "held elems s' t = {}" for t using sys_invD(3) [OF s, of t] c(1) k by (simp add: held_def f)
    have "sys_inv st B shape valid elems s'"
      unfolding sys_inv_def
    proof (intro conjI allI impI)
      fix m'
      assume "current B s' m'"
      then have "m' = m" using o by blast
      then show "index_of B s' m' \<in> live B elems (DD_dd s')" "dd_data (DD_dd s') ! index_of B s' m' = m'"
        using cm c(3) n(4) i(1) len by (simp_all add: f)
    next
      fix m'
      show "nodeToEpoch B (id_of s' m') \<le> current_epoch (DD_dd s')"
        using sys_invD(6) [OF s, of m'] node c(1) by (simp add: f)
    qed (use s n(2) node c(1) h in \<open>auto simp: f sys_inv_def intro: le_add1 order_trans\<close>)
    then show ?thesis using that [OF n(1) s'_def _ cm(1)] h False c by (simp add: fun_eq_iff)
  qed
qed

lemma MutexEnsureID_correct:
  assumes s: "sys_inv st B shape valid elems s" and k: "0 < kSize B"
  obtains s' where "MutexEnsureID B s t m = Some s'" "sys_inv st B shape valid elems s'" "current B s' m"
    "tls_epoch (tls_of s' t) = current_epoch (DD_dd s')" "elems (tls_bv (tls_of s' t)) = held elems s' t"
    "lock_graph elems s' \<subseteq> lock_graph elems s" "held elems s' t = held elems s t \<or> held elems s' t = {}"
    "\<And>t'. report_pending (DD_threads s' t') = report_pending (DD_threads s t')"
    "\<not> current B s m \<Longrightarrow> held elems s t \<subseteq> live B elems (DD_dd s) \<Longrightarrow> index_of B s' m \<notin> held elems s' t"
    "n_all_locks (tls_of s' t) \<le> n_all_locks (tls_of s t)" "n_recursive_locks (tls_of s' t) \<le> n_recursive_locks (tls_of s t)"
    "current B s m \<Longrightarrow> DD_dd s' = DD_dd s \<and> index_of B s' m = index_of B s m \<and> held elems s' t = held elems s t"
proof -
  define fin where "fin u = put_tls u t (ensureCurrentEpoch B (DD_dd u) (tls_of u t))" for u :: "'bv DD"
  have f: "sys_inv st B shape valid elems (fin u)" "tls_epoch (tls_of (fin u) t) = current_epoch (DD_dd (fin u))"
    "elems (tls_bv (tls_of (fin u) t)) = held elems (fin u) t" "held elems (fin u) t = held elems u t" if "sys_inv st B shape valid elems u" for u
    using ensure_thread [OF that, of t] by (simp_all add: fin_def)
  have g: "DD_dd (fin u) = DD_dd u" "current B (fin u) = current B u" "index_of B (fin u) = index_of B u"
    "n_all_locks (tls_of (fin u) t) \<le> n_all_locks (tls_of u t)" "n_recursive_locks (tls_of (fin u) t) \<le> n_recursive_locks (tls_of u t)"
    "report_pending (DD_threads (fin u) t') = report_pending (DD_threads u t')" for u t'
    by (simp_all add: fin_def ensureCurrentEpoch_def tls_ensureCurrentEpoch_def tls_clear_def)
  show ?thesis
  proof (cases "current B s m")
    case True
    then have "MutexEnsureID B s t m = Some (fin s)" by (simp add: MutexEnsureID_def current_def fin_def)
    then show ?thesis by (rule that) (use f [OF s] g True in auto)
  next
    case False
    obtain node d s' where n: "newNode B (DD_dd s) m = Some (node, d)" "s' = put_id (s\<lparr>DD_dd := d\<rparr>) m node" "sys_inv st B shape valid elems s'"
      "current B s' m" "held elems s' = (if current_epoch d = current_epoch (DD_dd s) then held elems s else (\<lambda>_. {}))"
      "dd_graph elems d \<subseteq> dd_graph elems (DD_dd s)" "\<And>t. held elems s t \<subseteq> live B elems (DD_dd s) \<Longrightarrow> index_of B s' m \<notin> held elems s' t"
      by (rule new_id_valid [OF s k False], rule that)
    have "MutexEnsureID B s t m = Some (fin s')" using False n(1) by (simp add: MutexEnsureID_def current_def fin_def n(2))
    moreover have "DD_dd s' = d" "DD_threads s' = DD_threads s" "tls_of s' t = tls_of s t" by (simp_all add: n(2))
    ultimately show ?thesis using f [OF n(3)] g [of s'] n(4-) False by (intro that [of "fin s'"]) (auto simp: fun_eq_iff)
  qed
qed

text \<open>The nodes of a path to a held lock have indices in range, so the report finds the data of their mutexes.\<close>

lemma target_path_nodes: "target_path E c H xs \<Longrightarrow> set xs \<subseteq> Domain E \<union> H"
proof (induction xs arbitrary: c)
  case (Cons x xs)
  then show ?case
  proof (cases xs)
    case Nil
    then show ?thesis using Cons.prems by (auto simp: target_path_def)
  next
    case (Cons y ys)
    then have "(x, y) \<in> E" "target_path E y H xs" using Cons.prems by (auto simp: target_path_def)
    then show ?thesis using Cons.IH by auto
  qed
qed simp

lemma report_loop:
  assumes d: "dd_inv st B shape valid elems (DD_dd s)" and k: "0 < kSize B" and e: "current_epoch (DD_dd s) \<noteq> 0"
    and p: "xs \<noteq> []" "length xs \<le> length path" "take (length xs) path = map (\<lambda>x. x + current_epoch (DD_dd s)) xs"
      "set xs \<subseteq> {..<kSize B}" and l: "0 < len" "len \<le> length xs" "len \<le> length loop"
  shows "\<exists>loop'. for_each [0..<len] (report_round B s path len) loop = Some loop' \<and> length loop' = length loop"
proof -
  let ?d = "DD_dd s"
  have dvd: "kSize B dvd current_epoch ?d" and data: "length (dd_data ?d) = kSize B" using d by (simp_all add: dd_inv_def)
  have node: "array_get path i = Some (xs ! i + current_epoch ?d)" "nodeToIndex B ?d (xs ! i + current_epoch ?d) = Some (xs ! i)"
    "xs ! i < kSize B" if "i < length xs" for i
  proof -
    show "xs ! i < kSize B" using p(4) nth_mem [OF that] by blast
    then show "nodeToIndex B ?d (xs ! i + current_epoch ?d) = Some (xs ! i)" using dvd e by (simp add: nodeToIndex_of_index)
    show "array_get path i = Some (xs ! i + current_epoch ?d)"
      using that p(2) arg_cong [OF p(3), of "\<lambda>ys. ys ! i"] by simp
  qed
  have step: "\<exists>s'. report_round B s path len i y = Some s' \<and> length s' = length loop" if "i \<in> set [0..<len]" "length y = length loop" for i y
  proof -
    let ?j = "(i + 1) mod len"
    have i: "i < length xs" "?j < length xs" using that l by (auto intro: less_le_trans [OF mod_less_divisor])
    obtain r where "findEdge B ?d (xs ! i + current_epoch ?d) (xs ! ?j + current_epoch ?d) = Some r"
      using findEdge_correct [OF d node(2) [OF i(1)] node(2) [OF i(2)]] by blast
    then show ?thesis
      using node [OF i(1)] node [OF i(2)] data that l by (simp add: report_round_def getData_def Let_def split: option.split prod.split)
  qed
  obtain s' where "for_each [0..<len] (report_round B s path len) loop = Some s'" "length s' = length loop"
    by (rule for_each_rule [of "[0..<len]" "\<lambda>_ y. length y = length loop", OF distinct_upt refl step])
  then show ?thesis by blast
qed

lemma put_report_valid:
  assumes "sys_inv st B shape valid elems s" "lt_dd x = tls_of s t" "length (rep_loop (lt_rep x)) = 20"
  shows "sys_inv st B shape valid elems (put_thread s t x)" "held elems (put_thread s t x) = held elems s"
proof -
  have tls: "tls_of (put_thread s t x) = tls_of s" using assms(2) by (simp add: fun_eq_iff tls_of_def)
  then show h: "held elems (put_thread s t x) = held elems s" by (simp add: held_def fun_eq_iff)
  show "sys_inv st B shape valid elems (put_thread s t x)" using assms(1,3) by (simp add: sys_inv_def h tls)
qed

lemma ReportDeadlock_correct:
  assumes s: "sys_inv st B shape valid elems s" and k: "0 < kSize B" and m: "current B s m"
    and t: "tls_epoch (tls_of s t) = current_epoch (DD_dd s)" and c: "index_of B s m \<notin> held elems s t"
  shows "\<exists>s'. ReportDeadlock B s t m path = Some s' \<and> sys_inv st B shape valid elems s' \<and> lock_graph elems s' = lock_graph elems s \<and>
    held elems s' = held elems s \<and> current B s' = current B s \<and> index_of B s' = index_of B s \<and>
    (report_pending (DD_threads s' t) \<or> (\<forall>j<length path. \<forall>h\<in>held elems s t. (index_of B s m, h) \<notin> lock_graph elems s ^^ j))"
proof -
  let ?d = "DD_dd s" and ?c = "index_of B s m" and ?H = "held elems s t" and ?E = "lock_graph elems s"
  note d = sys_invD(1) [OF s] and n = current_index [OF s m]
  have H: "elems (tls_bv (tls_of s t)) = ?H" using t by (simp add: held_def)
  have e: "current_epoch ?d \<noteq> 0" "id_of s m = ?c + current_epoch ?d" using nodeToIndex_SomeD [OF n k] by blast+
  obtain r path' d' where f: "findPathToLock B ?d (tls_of s t) (id_of s m) path (length path) = Some (r, path', d')"
    "dd_inv st B shape valid elems d'" "dd_g d' = dd_g ?d" "live B elems d' = live B elems ?d" "current_epoch d' = current_epoch ?d" "dd_data d' = dd_data ?d"
    "r = 0 \<longrightarrow> (\<forall>j<length path. \<forall>h\<in>?H. (?c, h) \<notin> ?E ^^ j)"
    "r \<noteq> 0 \<longrightarrow> r \<le> length path \<and> (\<exists>xs. length xs = r \<and> target_path ?E ?c ?H xs \<and> take r path' = map (\<lambda>x. x + current_epoch ?d) xs)"
    using findPathToLock_correct [OF d sys_invD(2) [OF s] t k n order_refl, of path] c unfolding H by blast
  define s1 where "s1 = s\<lparr>DD_dd := d'\<rparr>"
  have s1: "sys_inv st B shape valid elems s1" "held elems s1 = held elems s" "current B s1 = current B s" "index_of B s1 = index_of B s"
    "lock_graph elems s1 = ?E" "tls_of s1 = tls_of s" "id_of s1 = id_of s" "DD_threads s1 = DD_threads s" "DD_dd s1 = d'"
    using put_dd_valid [OF s f(2,5,4,6)] put_dd_same [OF f(5)] f(3) by (auto simp: s1_def dd_graph_def fun_eq_iff)
  show ?thesis
  proof (cases "r = 0")
    case True
    then show ?thesis using f(1,7) s1 by (simp add: ReportDeadlock_def Let_def flip: s1_def)
  next
    case False
    then obtain xs where xs: "length xs = r" "target_path ?E ?c ?H xs" "take r path' = map (\<lambda>x. x + current_epoch ?d) xs" using f(8) by blast
    have ne: "xs \<noteq> []" "hd xs = ?c" using xs(2) by (auto simp: target_path_def)
    have lp: "r \<le> length path'" using arg_cong [OF xs(3), of length] xs(1) by simp
    have hd: "array_get path' 0 = Some (id_of s m)"
      using arg_cong [OF xs(3), of "\<lambda>ys. ys ! 0"] ne False lp e(2) by (auto simp: array_get_def hd_conv_nth)
    define s2 where "s2 = put_thread s1 t ((DD_threads s1 t)\<lparr>report_pending := True\<rparr>)"
    have s2: "sys_inv st B shape valid elems s2" "held elems s2 = held elems s" "current B s2 = current B s" "index_of B s2 = index_of B s" "DD_dd s2 = d'"
      using put_report_valid [OF s1(1), of "(DD_threads s1 t)\<lparr>report_pending := True\<rparr>" t] s1 s
      by (auto simp: s2_def tls_of_def sys_inv_def)
    have l: "length (rep_loop (lt_rep (DD_threads s2 t))) = 20" using s2(1) by (simp add: sys_inv_def)
    have "?E \<subseteq> {..<kSize B} \<times> {..<kSize B}"
      using edges_bound [of "g_v (dd_g ?d)"] d by (auto simp: dd_inv_def dd_graph_def graph_valid)
    then have "set xs \<subseteq> {..<kSize B}" using target_path_nodes [OF xs(2)] held_bound [OF s, of t] by auto
    then obtain loop where loop: "for_each [0..<min r 20] (report_round B s2 path' (min r 20)) (rep_loop (lt_rep (DD_threads s2 t))) = Some loop" "length loop = 20"
      using report_loop [of st s2 xs path' "min r 20" "rep_loop (lt_rep (DD_threads s2 t))"] f(2,5) k e(1) ne xs lp l False s2(5) by auto
    define x where "x = (DD_threads s2 t)\<lparr>lt_rep := \<lparr>rep_n = min r 20, rep_loop = loop\<rparr>\<rparr>"
    have "ReportDeadlock B s t m path = Some (put_thread s2 t x)"
      using f(1) False hd loop(1) by (simp add: ReportDeadlock_def Let_def x_def s2_def s1_def)
    moreover have "report_pending x" by (simp add: x_def s2_def)
    moreover have "sys_inv st B shape valid elems (put_thread s2 t x)" "held elems (put_thread s2 t x) = held elems s2"
      using put_report_valid [OF s2(1), of x t] loop(2) by (simp_all add: x_def tls_of_def)
    ultimately show ?thesis using s2 f(3) by (auto simp: dd_graph_def)
  qed
qed

text \<open>
  \<open>MutexBeforeLock\<close> finds no cycle and leaves the graph, or it finds one: then the edges of the
  acquisition are in the graph and a report is pending, unless every path is too long for it.
\<close>

definition no_cycle_found :: "'bv DD \<Rightarrow> nat \<Rightarrow> nat \<Rightarrow> 'bv DD \<Rightarrow> bool" where
  "no_cycle_found s t m s' \<longleftrightarrow> lock_graph elems s' \<subseteq> lock_graph elems s \<and> (\<forall>u. report_pending (DD_threads s' u) = report_pending (DD_threads s u)) \<and>
    (held elems s' t = {} \<or> current B s' m \<and> (index_of B s' m \<in> held elems s' t \<or> held elems s' t \<times> {index_of B s' m} \<subseteq> lock_graph elems s' \<or>
      (\<forall>h\<in>held elems s' t. (index_of B s' m, h) \<notin> (lock_graph elems s')\<^sup>*)))"

definition cycle_found :: "'bv DD \<Rightarrow> nat \<Rightarrow> nat \<Rightarrow> nat \<Rightarrow> 'bv DD \<Rightarrow> bool" where
  "cycle_found s t m n s' \<longleftrightarrow> current B s' m \<and> index_of B s' m \<notin> held elems s' t \<and>
    (\<exists>E\<subseteq>lock_graph elems s. (\<exists>h\<in>held elems s' t. (index_of B s' m, h) \<in> E\<^sup>*) \<and> lock_graph elems s' = E \<union> held elems s' t \<times> {index_of B s' m}) \<and>
    (report_pending (DD_threads s' t) \<or> (\<forall>j<n. \<forall>h\<in>held elems s' t. (index_of B s' m, h) \<notin> lock_graph elems s' ^^ j))"

text \<open>A step that changes only the graph and the edge table, and stores the thread's state back.\<close>

lemma put_dd_step:
  fixes t :: nat
  assumes s: "sys_inv st B shape valid elems s" and d: "dd_inv st B shape valid elems d" "current_epoch d = current_epoch (DD_dd s)"
    "live B elems d = live B elems (DD_dd s)" "dd_data d = dd_data (DD_dd s)"
  defines "s' \<equiv> put_tls (s\<lparr>DD_dd := d\<rparr>) t (tls_of s t)"
  shows "sys_inv st B shape valid elems s'" "held elems s' = held elems s" "current B s' = current B s" "index_of B s' = index_of B s"
    "tls_of s' = tls_of s" "id_of s' = id_of s" "DD_dd s' = d" "report_pending (DD_threads s' u) = report_pending (DD_threads s u)"
proof -
  note v = put_dd_valid [OF s d] and same = put_dd_same [OF d(2)]
  show "tls_of s' = tls_of s" "id_of s' = id_of s" "DD_dd s' = d" "report_pending (DD_threads s' u) = report_pending (DD_threads s u)"
    "current B s' = current B s" "index_of B s' = index_of B s" using same by (auto simp: s'_def)
  show "held elems s' = held elems s" using same by (auto simp: s'_def fun_eq_iff held_def d(2))
  show "sys_inv st B shape valid elems s'"
    unfolding s'_def
  proof (rule put_tls_valid [OF v])
    assume st "tls_epoch (tls_of s t) = current_epoch (DD_dd (s\<lparr>DD_dd := d\<rparr>))"
    then show "elems (tls_bv (tls_of s t)) \<subseteq> index_of B (s\<lparr>DD_dd := d\<rparr>) ` {m. current B (s\<lparr>DD_dd := d\<rparr>) m}"
      using sys_invD(4) [OF s, of t] d(2) by (simp add: same held_def)
  qed (use sys_invD(2,3) [OF s, of t] d(2) in simp_all)
qed

lemma before_lock_search:
  assumes s: "sys_inv st B shape valid elems s" and k: "0 < kSize B" "kSize B \<le> 2 ^ 16" and m: "current B s m"
    and t: "tls_epoch (tls_of s t) = current_epoch (DD_dd s)"
  defines "H \<equiv> held elems s t" and "c \<equiv> index_of B s m" and "E \<equiv> lock_graph elems s"
  assumes c: "c \<notin> H"
  shows "\<exists>s'. do {
      (r, d, tls) \<leftarrow> onLockBefore B (DD_dd s) (tls_of s t) (id_of s m);
      let s = put_tls (s\<lparr>DD_dd := d\<rparr>) t tls;
      if r then do {
        (_, d, tls) \<leftarrow> dd_addEdges B (DD_dd s) (tls_of s t) (id_of s m) unwind tid added;
        ReportDeadlock B (put_tls (s\<lparr>DD_dd := d\<rparr>) t tls) t m path }
      else Some s } = Some s' \<and> sys_inv st B shape valid elems s' \<and>
    held elems s' = held elems s \<and> current B s' = current B s \<and> index_of B s' = index_of B s \<and>
    (if \<exists>h\<in>H. (c, h) \<in> E\<^sup>*
     then lock_graph elems s' = E \<union> H \<times> {c} \<and> (report_pending (DD_threads s' t) \<or> (\<forall>j<length path. \<forall>h\<in>H. (c, h) \<notin> (E \<union> H \<times> {c}) ^^ j))
     else lock_graph elems s' = E \<and> (\<forall>u. report_pending (DD_threads s' u) = report_pending (DD_threads s u)))"
proof -
  note d = sys_invD(1) [OF s] and tv = sys_invD(2) [OF s, of t] and n = current_index [OF s m]
  have idem: "ensureCurrentEpoch B (DD_dd s) (tls_of s t) = tls_of s t" and H: "elems (tls_bv (tls_of s t)) = H"
    using t by (simp_all add: ensureCurrentEpoch_def tls_ensureCurrentEpoch_def H_def held_def)
  obtain g where g: "onLockBefore B (DD_dd s) (tls_of s t) (id_of s m) = Some (\<exists>h\<in>H. (c, h) \<in> E\<^sup>*, (DD_dd s)\<lparr>dd_g := g\<rparr>, tls_of s t)"
    "bvg_valid B shape valid g" "g_v g = g_v (dd_g (DD_dd s))"
    using onLockBefore_correct [OF d tv k(1) n] unfolding idem H c_def E_def by blast
  note ag = dd_after_graph [OF d g(2,3)]
  define s1 where "s1 = put_tls (s\<lparr>DD_dd := (DD_dd s)\<lparr>dd_g := g\<rparr>\<rparr>) t (tls_of s t)"
  have same: "current_epoch ((DD_dd s)\<lparr>dd_g := g\<rparr>) = current_epoch (DD_dd s)" "dd_data ((DD_dd s)\<lparr>dd_g := g\<rparr>) = dd_data (DD_dd s)" by simp_all
  note s1 = put_dd_step [OF s ag(1) same(1) ag(2) same(2), of t, folded s1_def]
  have G: "lock_graph elems s1 = E" using ag(3) s1(7) by (simp add: E_def)
  show ?thesis
  proof (cases "\<exists>h\<in>H. (c, h) \<in> E\<^sup>*")
    case False
    then show ?thesis using g(1) s1 G by (simp add: Let_def flip: s1_def)
  next
    case True
    note v1 = sys_invD(1,2) [OF s1(1)]
    have m1: "current B s1 m" using m s1(3) by simp
    have i1: "ensureCurrentEpoch B (DD_dd s1) (tls_of s1 t) = tls_of s1 t" "elems (tls_bv (tls_of s1 t)) = H" "index_of B s1 m = c"
      using idem H s1(4,5,7) by (simp_all add: ensureCurrentEpoch_def c_def)
    have live: "c \<in> live B elems (DD_dd s1)" "st \<Longrightarrow> H \<subseteq> live B elems (DD_dd s1)"
      using sys_invD(7) [OF s1(1) m1] held_live [OF s1(1), of t] i1(3) s1(2) by (simp_all add: H_def)
    obtain n2 d2 where d2: "dd_addEdges B (DD_dd s1) (tls_of s1 t) (id_of s1 m) unwind tid added = Some (n2, d2, tls_of s1 t)"
      "dd_inv st B shape valid elems d2" "dd_graph elems d2 = E \<union> H \<times> {c}" "live B elems d2 = live B elems (DD_dd s1)"
      "current_epoch d2 = current_epoch (DD_dd s1)" "dd_data d2 = dd_data (DD_dd s1)"
      using dd_addEdges_correct [OF v1(1) v1(2) [of t] k current_index [OF s1(1) m1], of unwind tid added] live
      unfolding i1 G by blast
    define s2 where "s2 = put_tls (s1\<lparr>DD_dd := d2\<rparr>) t (tls_of s1 t)"
    note s2 = put_dd_step [OF s1(1) d2(2,5,4,6), of t, folded s2_def]
    have m2: "current B s2 m" "tls_epoch (tls_of s2 t) = current_epoch (DD_dd s2)" "index_of B s2 m \<notin> held elems s2 t"
      using m1 s2 s1 t c d2(5) by (simp_all add: H_def c_def)
    have s2': "s2 = put_tls (s1\<lparr>DD_dd := d2\<rparr>) t (tls_of s t)" by (simp add: s2_def s1(5))
    obtain s' where s': "ReportDeadlock B s2 t m path = Some s'" "sys_inv st B shape valid elems s'" "lock_graph elems s' = lock_graph elems s2"
      "held elems s' = held elems s2" "current B s' = current B s2" "index_of B s' = index_of B s2"
      "report_pending (DD_threads s' t) \<or> (\<forall>j<length path. \<forall>h\<in>held elems s2 t. (index_of B s2 m, h) \<notin> lock_graph elems s2 ^^ j)"
      using ReportDeadlock_correct [OF s2(1) k(1) m2, of path] by blast
    show ?thesis
      using g(1) True d2(1) s'(1) s1(5-7) by (simp add: Let_def flip: s1_def s2') (use s' d2(3) s1 s2 in \<open>simp add: c_def H_def\<close>)
  qed
qed

lemma MutexBeforeLock_correct:
  assumes s: "sys_inv st B shape valid elems s" and k: "0 < kSize B" "kSize B \<le> 2 ^ 16"
  shows "\<exists>s'. MutexBeforeLock B s t m unwind tid added path = Some s' \<and> sys_inv st B shape valid elems s' \<and>
    (no_cycle_found s t m s' \<or> cycle_found s t m (length path) s')"
proof (cases "elems (tls_bv (tls_of s t)) = {}")
  case True
  then have "tls_empty B (tls_of s t)" using empty [of "tls_bv (tls_of s t)"] sys_invD(2) [OF s, of t] by (simp add: tls_empty_def tls_valid_def)
  then show ?thesis using s True by (simp add: MutexBeforeLock_def no_cycle_found_def held_def)
next
  case False
  then have ne: "\<not> tls_empty B (tls_of s t)" using empty [of "tls_bv (tls_of s t)"] sys_invD(2) [OF s, of t] by (simp add: tls_empty_def tls_valid_def)
  note hasAll = hasAllEdges_correct [OF sys_invD(1) [OF s] sys_invD(2) [OF s, of t] k(1), of "id_of s m"]
  show ?thesis
  proof (cases "hasAllEdges B (DD_dd s) (tls_of s t) (id_of s m) = Some True")
    case True
    then have "current B s m" "held elems s t \<times> {index_of B s m} \<subseteq> lock_graph elems s"
      using hasAll by (auto simp: current_def nodeBelongsToCurrentEpoch_def nodeToEpoch_def held_def index_of_def)
    then have "no_cycle_found s t m s" by (simp add: no_cycle_found_def)
    then show ?thesis using ne True s by (simp add: MutexBeforeLock_def)
  next
    case False
    then have h: "hasAllEdges B (DD_dd s) (tls_of s t) (id_of s m) = Some False" using hasAll by auto
    obtain s1 where s1: "MutexEnsureID B s t m = Some s1" "sys_inv st B shape valid elems s1" "current B s1 m"
      "tls_epoch (tls_of s1 t) = current_epoch (DD_dd s1)" "elems (tls_bv (tls_of s1 t)) = held elems s1 t"
      "lock_graph elems s1 \<subseteq> lock_graph elems s" "\<And>t'. report_pending (DD_threads s1 t') = report_pending (DD_threads s t')"
      by (rule MutexEnsureID_correct [OF s k(1), of t m], rule that)
    let ?c = "index_of B s1 m" and ?H = "held elems s1 t" and ?E = "lock_graph elems s1"
    note d1 = sys_invD(1) [OF s1(2)] and t1 = sys_invD(2) [OF s1(2), of t] and n1 = current_index [OF s1(2,3)]
    have idem: "ensureCurrentEpoch B (DD_dd s1) (tls_of s1 t) = tls_of s1 t"
      using s1(4) by (simp add: ensureCurrentEpoch_def tls_ensureCurrentEpoch_def)
    have held1: "isHeld B (DD_dd s1) (tls_of s1 t) (id_of s1 m) = Some (?c \<in> ?H)"
      using isHeld_correct [OF t1 s1(4) n1 k(1)] by (simp add: s1(5))
    show ?thesis
    proof (cases "?c \<in> ?H")
      case True
      then have "no_cycle_found s t m s1" using s1 by (simp add: no_cycle_found_def)
      then show ?thesis using ne h s1(1,2) held1 True by (simp add: MutexBeforeLock_def)
    next
      case notheld: False
      obtain s' where s': "do {
          (r, d, tls) \<leftarrow> onLockBefore B (DD_dd s1) (tls_of s1 t) (id_of s1 m);
          let s = put_tls (s1\<lparr>DD_dd := d\<rparr>) t tls;
          if r then do {
            (_, d, tls) \<leftarrow> dd_addEdges B (DD_dd s) (tls_of s t) (id_of s m) unwind tid added;
            ReportDeadlock B (put_tls (s\<lparr>DD_dd := d\<rparr>) t tls) t m path }
          else Some s } = Some s'" "sys_inv st B shape valid elems s'"
        "held elems s' = held elems s1" "current B s' = current B s1" "index_of B s' = index_of B s1"
        and g: "if \<exists>h\<in>?H. (?c, h) \<in> ?E\<^sup>*
         then lock_graph elems s' = ?E \<union> ?H \<times> {?c} \<and> (report_pending (DD_threads s' t) \<or> (\<forall>j<length path. \<forall>h\<in>?H. (?c, h) \<notin> (?E \<union> ?H \<times> {?c}) ^^ j))
         else lock_graph elems s' = ?E \<and> (\<forall>u. report_pending (DD_threads s' u) = report_pending (DD_threads s1 u))"
        using before_lock_search [OF s1(2) k s1(3,4) notheld, of unwind tid added path] by blast
      have "no_cycle_found s t m s' \<or> cycle_found s t m (length path) s'"
      proof (cases "\<exists>h\<in>?H. (?c, h) \<in> ?E\<^sup>*")
        case True
        then have "cycle_found s t m (length path) s'"
          unfolding cycle_found_def using g s'(3-5) s1(3,6) notheld by auto
        then show ?thesis ..
      next
        case False
        then have "no_cycle_found s t m s'" unfolding no_cycle_found_def using g s'(3-5) s1(3,6,7) by simp
        then show ?thesis ..
      qed
      moreover have "MutexBeforeLock B s t m unwind tid added path = Some s'"
        using ne h s1(1) held1 notheld s'(1) by (simp add: MutexBeforeLock_def)
      ultimately show ?thesis using s'(2) by blast
    qed
  qed
qed

lemma addLock_cases:
  assumes d: "tls_valid valid elems d" and l: "l < kSize B" "kSize B \<le> 2 ^ 32" and e: "e = tls_epoch d"
  shows "case tls_addLock B d l e stk of None \<Rightarrow> \<not> (n_all_locks d < 64 \<and> n_recursive_locks d < 64)
    | Some (b, d') \<Rightarrow> tls_valid valid elems d' \<and> tls_epoch d' = e \<and> elems (tls_bv d') = insert l (elems (tls_bv d))"
proof (cases "tls_room elems d l")
  case True
  then show ?thesis using tls_addLock_correct(2) [OF d l e [symmetric] True, of stk] by auto
next
  case False
  then show ?thesis using tls_addLock_correct(1) [OF d l e [symmetric] False, of stk] by (auto simp: tls_room_def split: if_splits)
qed

lemma add_lock_valid:
  assumes s: "sys_inv st B shape valid elems s" and m: "current B s m"
    and x: "tls_valid valid elems x" "tls_epoch x = current_epoch (DD_dd s)" "elems (tls_bv x) = insert (index_of B s m) (held elems s t)"
  shows "sys_inv st B shape valid elems (put_tls s t x)" "held elems (put_tls s t x) t = insert (index_of B s m) (held elems s t)"
  using put_tls_valid [OF s x(1)] x(2,3) sys_invD(4) [OF s, of t] m by auto

text \<open>The rest of \<open>MutexAfterLock\<close> once the mutex has a node: it aborts only on a full table or a relocked exclusive lock.\<close>

lemma after_lock_slow:
  assumes s: "sys_inv st B shape valid elems s" and k: "0 < kSize B" "kSize B \<le> 2 ^ 16" and m: "current B s m"
    and t: "tls_epoch (tls_of s t) = current_epoch (DD_dd s)"
  defines "H \<equiv> held elems s t" and "c \<equiv> index_of B s m" and "E \<equiv> lock_graph elems s"
  shows "case do {
      (if wlock then do { h \<leftarrow> isHeld B (DD_dd s) (tls_of s t) (id_of s m); CHECK (\<not> h) } else Some ());
      s \<leftarrow> (if \<not> trylock then do {
               (_, d, tls) \<leftarrow> dd_addEdges B (DD_dd s) (tls_of s t) (id_of s m) stk1 tid added;
               Some (put_tls (s\<lparr>DD_dd := d\<rparr>) t tls) }
             else Some s);
      tls \<leftarrow> onLockAfter B (DD_dd s) (tls_of s t) (id_of s m) stk;
      Some (put_tls s t tls) } of
    None \<Rightarrow> \<not> (n_all_locks (tls_of s t) < 64 \<and> n_recursive_locks (tls_of s t) < 64 \<and> (wlock \<longrightarrow> c \<notin> H))
  | Some s' \<Rightarrow> sys_inv st B shape valid elems s' \<and> held elems s' t = insert c H \<and> lock_graph elems s' = E \<union> (if trylock then {} else H \<times> {c}) \<and>
      current B s' = current B s \<and> index_of B s' = index_of B s \<and> (wlock \<longrightarrow> c \<notin> H) \<and>
      (\<forall>u. report_pending (DD_threads s' u) = report_pending (DD_threads s u))"
proof -
  note d = sys_invD(1) [OF s] and tv = sys_invD(2) [OF s, of t] and n = current_index [OF s m]
  have idem: "ensureCurrentEpoch B (DD_dd s) (tls_of s t) = tls_of s t" and H: "elems (tls_bv (tls_of s t)) = H"
    using t by (simp_all add: ensureCurrentEpoch_def tls_ensureCurrentEpoch_def H_def held_def)
  have live: "c \<in> live B elems (DD_dd s)" "st \<Longrightarrow> H \<subseteq> live B elems (DD_dd s)"
    using sys_invD(7) [OF s m] held_live [OF s, of t] by (simp_all add: H_def c_def)
  have h: "isHeld B (DD_dd s) (tls_of s t) (id_of s m) = Some (c \<in> H)"
    using isHeld_correct [OF tv t n k(1)] by (simp add: H c_def)
  obtain s1 where s1: "(if \<not> trylock then do {
        (_, d, tls) \<leftarrow> dd_addEdges B (DD_dd s) (tls_of s t) (id_of s m) stk1 tid added;
        Some (put_tls (s\<lparr>DD_dd := d\<rparr>) t tls) } else Some s) = Some s1"
    and v: "sys_inv st B shape valid elems s1" "held elems s1 = held elems s" "current B s1 = current B s" "index_of B s1 = index_of B s"
      "tls_of s1 = tls_of s" "id_of s1 = id_of s" "current_epoch (DD_dd s1) = current_epoch (DD_dd s)"
      "lock_graph elems s1 = E \<union> (if trylock then {} else H \<times> {c})" "\<And>u. report_pending (DD_threads s1 u) = report_pending (DD_threads s u)"
  proof (cases trylock)
    case True
    then show ?thesis using s that [of s] by (simp add: E_def)
  next
    case False
    obtain n2 d2 where d2: "dd_addEdges B (DD_dd s) (tls_of s t) (id_of s m) stk1 tid added = Some (n2, d2, tls_of s t)"
      "dd_inv st B shape valid elems d2" "dd_graph elems d2 = E \<union> H \<times> {c}" "live B elems d2 = live B elems (DD_dd s)"
      "current_epoch d2 = current_epoch (DD_dd s)" "dd_data d2 = dd_data (DD_dd s)"
      using dd_addEdges_correct [OF d tv k n, of stk1 tid added] live unfolding idem H c_def E_def by blast
    note s2 = put_dd_step [OF s d2(2,5,4,6), of t]
    show ?thesis by (rule that [OF _ s2(1-6)]) (use False d2 s2(7,8) in simp_all)
  qed
  have m1: "current B s1 m" "tls_epoch (tls_of s1 t) = current_epoch (DD_dd s1)" "index_of B s1 m = c" using m v t by (simp_all add: c_def)
  have c: "c < kSize B" using live(1) by (simp add: live_def)
  have after: "onLockAfter B (DD_dd s1) (tls_of s1 t) (id_of s1 m) stk = map_option snd (tls_addLock B (tls_of s t) c (tls_epoch (tls_of s t)) stk)"
    using current_index [OF v(1) m1(1)] m1(2,3) v(5) t
    by (simp add: onLockAfter_def ensureCurrentEpoch_def tls_ensureCurrentEpoch_def Let_def map_option_case split: option.split)
  have k2: "kSize B \<le> 2 ^ 32" using k(2) by simp
  note add = addLock_cases [OF tv c k2 refl, of stk]
  show ?thesis
  proof (cases "tls_addLock B (tls_of s t) c (tls_epoch (tls_of s t)) stk")
    case None
    then show ?thesis using add h after s1 by auto
  next
    case (Some r)
    obtain b x where r: "r = (b, x)" by fastforce
    have x: "tls_valid valid elems x" "tls_epoch x = current_epoch (DD_dd s1)" "elems (tls_bv x) = insert (index_of B s1 m) (held elems s1 t)"
      using add Some r t v(2,4,7) H by (simp_all add: H_def c_def)
    note fin = add_lock_valid [OF v(1) m1(1) x]
    have after: "onLockAfter B (DD_dd s1) (tls_of s1 t) (id_of s1 m) stk = Some x" using after Some r by simp
    have held: "held elems (put_tls s1 t x) t = insert c H" using fin(2) m1(3) v(2) by (simp only: H_def)
    show ?thesis
    proof (cases "wlock \<and> c \<in> H")
      case True
      then show ?thesis using h by simp
    next
      case False
      then have "(if wlock then do { h \<leftarrow> isHeld B (DD_dd s) (tls_of s t) (id_of s m); CHECK (\<not> h) } else Some ()) = Some ()" using h by simp
      then show ?thesis using False fin(1) held v(3,4,8,9) unfolding s1 by (simp add: after del: put_tls_simps(3))
    qed
  qed
qed

text \<open>
  \<open>MutexAfterLock\<close> records the lock as held, with its edges unless it was a \<open>try\<close>; a thread that has slept through
  the end of an epoch records its first lock in the old epoch.
\<close>

definition acquired :: "'bv DD \<Rightarrow> nat \<Rightarrow> nat \<Rightarrow> bool \<Rightarrow> bool \<Rightarrow> 'bv DD \<Rightarrow> bool" where
  "acquired s t m wlock trylock s' \<longleftrightarrow> (\<forall>u. report_pending (DD_threads s' u) = report_pending (DD_threads s u)) \<and>
    (\<not> current B s m \<and> held elems s' t = {} \<and> DD_dd s' = DD_dd s \<or>
     current B s' m \<and> (\<exists>H E. (H = held elems s t \<or> H = {}) \<and> E \<subseteq> lock_graph elems s \<and>
       held elems s' t = insert (index_of B s' m) H \<and>
       (current B s m \<longrightarrow> H = held elems s t \<and> E = lock_graph elems s \<and> index_of B s' m = index_of B s m) \<and>
       (lock_graph elems s' = E \<and> (trylock \<or> H \<times> {index_of B s' m} \<subseteq> E) \<or>
        lock_graph elems s' = E \<union> H \<times> {index_of B s' m} \<and> (wlock \<longrightarrow> index_of B s' m \<notin> H))))"

lemma MutexAfterLock_correct:
  assumes s: "sys_inv st B shape valid elems s" and k: "0 < kSize B" "kSize B \<le> 2 ^ 16"
  shows "case MutexAfterLock B s t m wlock trylock unwind tid added of
      None \<Rightarrow> \<not> (n_all_locks (tls_of s t) < 64 \<and> n_recursive_locks (tls_of s t) < 64 \<and> 
        (wlock \<longrightarrow> (if current B s m then index_of B s m \<notin> held elems s t else held elems s t \<subseteq> live B elems (DD_dd s))))
    | Some s' \<Rightarrow> sys_inv st B shape valid elems s' \<and> acquired s t m wlock trylock s'"
proof -
  let ?x = "tls_of s t" and ?i = "id_of s m" and ?c = "index_of B s m"
  define stk where "stk = (if second_deadlock_stack s then unwind else 0)"
  note tv = sys_invD(2) [OF s, of t] and d = sys_invD(1) [OF s]
  have c: "?c < kSize B" "nodeToIndexUnchecked B ?i = ?c" and k2: "kSize B \<le> 2 ^ 32"
    using k by (simp_all add: index_of_def nodeToIndexUnchecked_def)
  have same [simp]: "put_tls s t ?x = s" by (simp add: put_tls_def put_thread_def tls_of_def)
  have all: "hasAllEdges B (DD_dd s) ?x ?i = Some (?i \<noteq> 0 \<and> tls_epoch ?x = current_epoch (DD_dd s) \<and> tls_epoch ?x = nodeToEpoch B ?i \<and>
      elems (tls_bv ?x) \<times> {?c} \<subseteq> lock_graph elems s)"
    using hasAllEdges_correct [OF d tv k(1), of ?i] by (simp add: index_of_def)
  have quick: "sys_inv st B shape valid elems (put_tls s t y) \<and> acquired s t m wlock trylock (put_tls s t y)"
    if a: "tls_addLock B ?x ?c (nodeToEpoch B ?i) stk = Some (b, y)" and e: "tls_epoch ?x = nodeToEpoch B ?i" "tls_epoch ?x \<noteq> 0"
      and H: "held elems s t \<times> {?c} \<subseteq> lock_graph elems s" and E: "tls_epoch ?x = current_epoch (DD_dd s) \<or> elems (tls_bv ?x) = {}" for b y
  proof -
    have y: "tls_valid valid elems y" "tls_epoch y = tls_epoch ?x" "elems (tls_bv y) = insert ?c (elems (tls_bv ?x))"
      using addLock_cases [OF tv c(1) k2 refl, of stk] a e(1) by auto
    show ?thesis
    proof (cases "tls_epoch ?x = current_epoch (DD_dd s)")
      case True
      then have m: "current B s m" using e by (cases "?i = 0") (auto simp: current_def nodeBelongsToCurrentEpoch_def nodeToEpoch_def)
      have "elems (tls_bv y) = insert ?c (held elems s t)" using y(3) True by (simp add: held_def)
      note v = add_lock_valid [OF s m y(1) y(2) [unfolded True] this]
      show ?thesis using v m H by (simp add: acquired_def)
    next
      case False
      then have m: "\<not> current B s m" using e by (simp add: current_def nodeBelongsToCurrentEpoch_def nodeToEpoch_def)
      show ?thesis using put_tls_valid [OF s y(1)] y(2) False sys_invD(3) [OF s, of t] m by (simp add: acquired_def)
    qed
  qed
  have full: "n_all_locks ?x < 64 \<and> n_recursive_locks ?x < 64 \<Longrightarrow> tls_addLock B ?x ?c (tls_epoch ?x) stk \<noteq> None"
    using addLock_cases [OF tv c(1) k2 refl, of stk] by (auto split: option.splits)
  show ?thesis
  proof (cases "tls_empty B ?x \<and> tls_epoch ?x \<noteq> 0 \<and> tls_epoch ?x = nodeToEpoch B ?i")
    case True
    then have e: "elems (tls_bv ?x) = {}" using empty [of "tls_bv ?x"] tv by (simp add: tls_empty_def tls_valid_def)
    then have "n_all_locks ?x = 0" "n_recursive_locks ?x = 0"
      using tv by (auto simp: tls_valid_def tls_held_def simp flip: length_0_conv)
    then obtain b y where y: "tls_addLock B ?x ?c (nodeToEpoch B ?i) stk = Some (b, y)" using full True by auto
    have "MutexAfterLock B s t m wlock trylock unwind tid added = Some (put_tls s t y)"
      using True y c(2) by (simp add: MutexAfterLock_def onFirstLock_def flip: stk_def)
    then show ?thesis using quick [OF y] True e by (simp add: held_def)
  next
    case notfirst: False
    then have first: "onFirstLock B ?x ?i stk = Some (False, ?x)" by (auto simp: onFirstLock_def)
    show ?thesis
    proof (cases "hasAllEdges B (DD_dd s) ?x ?i = Some True")
      case True
      then have e: "tls_epoch ?x = nodeToEpoch B ?i" "tls_epoch ?x = current_epoch (DD_dd s)" "held elems s t \<times> {?c} \<subseteq> lock_graph elems s" "?i \<noteq> 0"
        using all by (auto simp: held_def)
      then have e4: "tls_epoch ?x \<noteq> 0"
        using sys_invD(5) [OF s, of m] k div_greater_zero_iff [of ?i "kSize B"] by (simp add: nodeToEpoch_def)
      have "MutexAfterLock B s t m wlock trylock unwind tid added =
          map_option (\<lambda>r. put_tls s t (snd r)) (tls_addLock B ?x ?c (nodeToEpoch B ?i) stk)"
        using True first c(2) by (simp add: MutexAfterLock_def onLockFast_def map_option_case Let_def split: option.split flip: stk_def)
      then show ?thesis using quick [OF _ e(1) e4 e(3)] e(1,2) full
        by (cases "tls_addLock B ?x ?c (nodeToEpoch B ?i) stk") auto
    next
      case False
      then have fast: "onLockFast B (DD_dd s) ?x ?i stk = Some (False, ?x)" using all by (auto simp: onLockFast_def)
      obtain s1 where s1: "MutexEnsureID B s t m = Some s1" "sys_inv st B shape valid elems s1" "current B s1 m"
        "tls_epoch (tls_of s1 t) = current_epoch (DD_dd s1)" "lock_graph elems s1 \<subseteq> lock_graph elems s"
        "held elems s1 t = held elems s t \<or> held elems s1 t = {}"
        "\<And>t'. report_pending (DD_threads s1 t') = report_pending (DD_threads s t')"
        "\<not> current B s m \<Longrightarrow> held elems s t \<subseteq> live B elems (DD_dd s) \<Longrightarrow> index_of B s1 m \<notin> held elems s1 t"
        "n_all_locks (tls_of s1 t) \<le> n_all_locks ?x" "n_recursive_locks (tls_of s1 t) \<le> n_recursive_locks ?x"
        "current B s m \<Longrightarrow> DD_dd s1 = DD_dd s \<and> index_of B s1 m = ?c \<and> held elems s1 t = held elems s t"
        by (rule MutexEnsureID_correct [OF s k(1), of t m], rule that)
      let ?H = "held elems s1 t"
      note slow = after_lock_slow [OF s1(2) k s1(3,4), of wlock trylock "if stk \<noteq> 0 then stk else unwind" tid added stk]
      show ?thesis
      proof (cases "MutexAfterLock B s t m wlock trylock unwind tid added")
        case None
        then have "\<not> (n_all_locks (tls_of s1 t) < 64 \<and> n_recursive_locks (tls_of s1 t) < 64 \<and> (wlock \<longrightarrow> index_of B s1 m \<notin> ?H))"
          using slow first fast s1(1) by (simp add: MutexAfterLock_def flip: stk_def)
        then show ?thesis using None s1(8-11) by (cases "current B s m") auto
      next
        case (Some s')
        then have s': "sys_inv st B shape valid elems s'" "held elems s' t = insert (index_of B s1 m) ?H"
          "lock_graph elems s' = lock_graph elems s1 \<union> (if trylock then {} else ?H \<times> {index_of B s1 m})"
          "current B s' m" "index_of B s' m = index_of B s1 m" "wlock \<longrightarrow> index_of B s1 m \<notin> ?H"
          "\<And>u. report_pending (DD_threads s' u) = report_pending (DD_threads s1 u)"
          using slow first fast s1(1,3) by (simp_all add: MutexAfterLock_def flip: stk_def)
        have a: "lock_graph elems s' = lock_graph elems s1 \<and> (trylock \<or> ?H \<times> {index_of B s' m} \<subseteq> lock_graph elems s1) \<or>
            lock_graph elems s' = lock_graph elems s1 \<union> ?H \<times> {index_of B s' m} \<and> (wlock \<longrightarrow> index_of B s' m \<notin> ?H)"
          using s'(3,5,6) by (cases trylock) simp_all
        have b: "current B s m \<longrightarrow> ?H = held elems s t \<and> lock_graph elems s1 = lock_graph elems s \<and> index_of B s' m = ?c"
          using s1(11) s'(5) by simp
        have "acquired s t m wlock trylock s'"
          unfolding acquired_def
          by (rule conjI, use s1(7) s'(7) in simp, rule disjI2, intro conjI exI [of _ ?H] exI [of _ "lock_graph elems s1"])
            (use a b s1(5-6) s'(2,4,5) in simp_all)
        then show ?thesis using Some s'(1) by simp
      qed
    qed
  qed
qed

end

end
