(* ===== verification/San_Events.thy ===== *)
theory San_Events
  imports San_DD
begin

text \<open>
  The mutex events of \<open>sanitizer_deadlock_detector1.cpp\<close> as a state machine: every handler keeps the invariant
  of the detector, whatever the order of the events, and the acquisition of a lock is checked for deadlocks.
\<close>

section \<open>The remaining handlers\<close>

definition unheld :: "('bv, 'it) BV \<Rightarrow> ('bv \<Rightarrow> nat set) \<Rightarrow> 'bv DD \<Rightarrow> nat \<Rightarrow> bool" where
  "unheld B elems s m \<longleftrightarrow> (\<forall>t. current B s m \<longrightarrow> index_of B s m \<notin> held elems s t)"

lemma put_id_simps:
  "held elems (put_id s m i) = held elems s" "m' \<noteq> m \<Longrightarrow> current B (put_id s m i) m' = current B s m'"
  "m' \<noteq> m \<Longrightarrow> index_of B (put_id s m i) m' = index_of B s m'" "\<not> current B (put_id s m 0) m"
  by (simp_all add: held_def current_def index_of_def fun_eq_iff nodeBelongsToCurrentEpoch_def)

context bit_vector
begin

lemma tls_locks_elems: "tls_valid valid elems d \<Longrightarrow> set_mset (tls_locks elems d) = elems (tls_bv d)"
  by (auto simp: tls_valid_def tls_locks_def)

lemma MutexBeforeUnlock_correct:
  assumes s: "sys_inv st B shape valid elems s" and k: "0 < kSize B" "kSize B \<le> 2 ^ 16"
  shows "\<exists>s'. MutexBeforeUnlock B s t m = Some s' \<and> sys_inv st B shape valid elems s' \<and> DD_dd s' = DD_dd s \<and>
    held elems s' t \<subseteq> held elems s t \<and> tls_locks elems (tls_of s' t) =
      (if tls_epoch (tls_of s t) = nodeToEpoch B (id_of s m) then tls_locks elems (tls_of s t) - {#index_of B s m#} else tls_locks elems (tls_of s t)) \<and>
    (\<forall>u. u \<noteq> t \<longrightarrow> DD_threads s' u = DD_threads s u) \<and> (\<forall>u. report_pending (DD_threads s' u) = report_pending (DD_threads s u))"
proof -
  have k2: "kSize B \<le> 2 ^ 32" using k(2) by simp
  obtain x where x: "onUnlock B (tls_of s t) (id_of s m) = Some x" "tls_valid valid elems x" "tls_epoch x = tls_epoch (tls_of s t)"
    "tls_locks elems x = (if tls_epoch (tls_of s t) = nodeToEpoch B (id_of s m) then tls_locks elems (tls_of s t) - {#index_of B s m#} else tls_locks elems (tls_of s t))"
    using onUnlock_correct [OF sys_invD(2) [OF s, of t] k(1) k2, of "id_of s m"] by (auto simp: index_of_def)
  have sub: "elems (tls_bv x) \<subseteq> elems (tls_bv (tls_of s t))"
    using x(4) tls_locks_elems [OF x(2)] tls_locks_elems [OF sys_invD(2) [OF s, of t]] by (metis in_diffD order_refl subsetI)
  then have "held elems (put_tls s t x) t \<subseteq> held elems s t" using x(3) by (simp add: held_def)
  moreover have "sys_inv st B shape valid elems (put_tls s t x)"
    by (rule put_tls_valid [OF s x(2)]) (use x(3) sub sys_invD(3,4) [OF s, of t] in \<open>auto simp: held_def\<close>)
  moreover have "\<forall>u. u \<noteq> t \<longrightarrow> DD_threads (put_tls s t x) u = DD_threads s u" by (simp add: put_tls_def)
  ultimately show ?thesis using x(1,4) by (simp add: MutexBeforeUnlock_def)
qed

lemma forget_id_valid:
  assumes s: "sys_inv st B shape valid elems s" and m: "st \<Longrightarrow> unheld B elems s m"
    and d: "dd_inv st B shape valid elems d" "current_epoch d = current_epoch (DD_dd s)" "dd_data d = dd_data (DD_dd s)"
      "live B elems d = live B elems (DD_dd s) \<or> current B s m \<and> live B elems d = live B elems (DD_dd s) - {index_of B s m}"
  shows "sys_inv st B shape valid elems (put_id (s\<lparr>DD_dd := d\<rparr>) m 0)"
proof -
  let ?s = "put_id (s\<lparr>DD_dd := d\<rparr>) m 0"
  note same = put_dd_same [OF d(2)]
  have o: "current B ?s m' = current B s m'" "index_of B ?s m' = index_of B s m'" if "m' \<noteq> m" for m'
    using that by (simp_all add: put_id_simps same)
  have h: "held elems ?s = held elems s" by (simp add: put_id_simps same)
  show ?thesis
    unfolding sys_inv_def
  proof (intro conjI allI impI)
    fix t
    assume st
    show "held elems ?s t \<subseteq> index_of B ?s ` {m. current B ?s m}"
    proof
      fix i
      assume i: "i \<in> held elems ?s t"
      then obtain m' where m': "i = index_of B s m'" "current B s m'" using sys_invD(4) [OF s \<open>st\<close>, of t] h by auto
      then have "m' \<noteq> m" using i m [OF \<open>st\<close>] h by (auto simp: unheld_def)
      then show "i \<in> index_of B ?s ` {m. current B ?s m}" using m' o [of m'] by (auto intro!: image_eqI [of _ _ m'])
    qed
  next
    fix m'
    assume c: "current B ?s m'"
    then have "m' \<noteq> m" using put_id_simps(4) by blast
    then have c': "current B s m'" and i: "index_of B ?s m' = index_of B s m'" using c o by simp_all
    have "index_of B s m' \<noteq> index_of B s m" if "current B s m"
      using sys_invD(8) [OF s c'] sys_invD(8) [OF s that] \<open>m' \<noteq> m\<close> by metis
    then show "index_of B ?s m' \<in> live B elems (DD_dd ?s)" using sys_invD(7) [OF s c'] d(4) unfolding i by auto
    show "dd_data (DD_dd ?s) ! index_of B ?s m' = m'" using sys_invD(8) [OF s c'] d(3) unfolding i by simp
  qed (use s d in \<open>auto simp: sys_inv_def nodeToEpoch_def\<close>)
qed

lemma MutexDestroy_correct:
  assumes s: "sys_inv st B shape valid elems s" and k: "0 < kSize B" and m: "st \<Longrightarrow> unheld B elems s m"
  shows "\<exists>s'. MutexDestroy B s m = Some s' \<and> sys_inv st B shape valid elems s' \<and> held elems s' = held elems s \<and> \<not> current B s' m \<and>
    lock_graph elems s' = {e \<in> lock_graph elems s. \<not> (current B s m \<and> fst e = index_of B s m)} \<and> DD_threads s' = DD_threads s"
proof (cases "current B s m")
  case True
  then have i: "id_of s m \<noteq> 0" by (simp add: current_def nodeBelongsToCurrentEpoch_def)
  obtain d where d: "removeNode B (DD_dd s) (id_of s m) = Some d" "dd_inv st B shape valid elems d" "live B elems d = live B elems (DD_dd s) - {index_of B s m}"
    "current_epoch d = current_epoch (DD_dd s)" "dd_data d = dd_data (DD_dd s)" "dd_graph elems d = {e \<in> lock_graph elems s. fst e \<noteq> index_of B s m}"
    using removeNode_correct [OF sys_invD(1) [OF s] k current_index [OF s True] sys_invD(7) [OF s True]] by blast
  have "MutexDestroy B s m = Some (put_id (s\<lparr>DD_dd := d\<rparr>) m 0)" using i True d(1) by (simp add: MutexDestroy_def current_def)
  then show ?thesis
    using forget_id_valid [OF s m d(2,4,5)] True d(3,6) by (simp add: put_id_simps put_dd_same [OF d(4)])
next
  case False
  have v: "sys_inv st B shape valid elems (put_id s m 0)" using forget_id_valid [OF s m sys_invD(1) [OF s] refl refl] by simp
  show ?thesis
  proof (cases "id_of s m = 0")
    case True
    then show ?thesis using s False by (simp add: MutexDestroy_def)
  next
    case i: False
    then have "MutexDestroy B s m = Some (put_id s m 0)" using False by (simp add: MutexDestroy_def current_def)
    then show ?thesis using v False by (simp add: put_id_simps)
  qed
qed

lemma MutexInit_correct:
  assumes s: "sys_inv st B shape valid elems s" and m: "st \<Longrightarrow> unheld B elems s m"
  shows "sys_inv st B shape valid elems (MutexInit s m unwind)" "lock_graph elems (MutexInit s m unwind) = lock_graph elems s"
    "held elems (MutexInit s m unwind) = held elems s"
proof -
  let ?s = "put_id s m 0" and ?s' = "MutexInit s m unwind"
  have e: "DD_dd ?s' = DD_dd ?s" "id_of ?s' = id_of ?s" "tls_of ?s' = tls_of ?s" "DD_threads ?s' = DD_threads ?s"
    by (auto simp: MutexInit_def id_of_def put_id_def tls_of_def)
  then have f: "held elems ?s' = held elems ?s" "current B ?s' = current B ?s" "index_of B ?s' = index_of B ?s"
    by (simp_all add: held_def current_def index_of_def fun_eq_iff)
  have "sys_inv st B shape valid elems ?s" using forget_id_valid [OF s m sys_invD(1) [OF s] refl refl] by simp
  then show "sys_inv st B shape valid elems ?s'" by (simp add: sys_inv_def e f)
  show "lock_graph elems ?s' = lock_graph elems s" "held elems ?s' = held elems s" by (simp_all add: e f put_id_simps)
qed

lemma CreateLogicalThread_correct:
  assumes s: "sys_inv st B shape valid elems s"
  shows "sys_inv st B shape valid elems (CreateLogicalThread B s t ctx)" "held elems (CreateLogicalThread B s t ctx) t = {}"
    "lock_graph elems (CreateLogicalThread B s t ctx) = lock_graph elems s"
proof -
  let ?x = "tls_clear B (tls_of s t)" and ?s = "CreateLogicalThread B s t ctx"
  note tv = sys_invD(2) [OF s, of t]
  have x: "tls_valid valid elems ?x" "tls_locks elems ?x = {#}" "tls_epoch ?x = 0"
    using tls_clear_valid [of "tls_of s t"] tv valid_shape by (auto simp: tls_valid_def tls_clear_def)
  have e: "elems (tls_bv ?x) = {}" using tls_locks_elems [OF x(1)] x(2) by simp
  have f: "DD_dd ?s = DD_dd s" "id_of ?s = id_of s" "tls_of ?s = (tls_of s)(t := ?x)" "current B ?s = current B s" "index_of B ?s = index_of B s"
    by (simp_all add: CreateLogicalThread_def tls_of_def fun_eq_iff)
  then have h: "held elems ?s = (held elems s)(t := {})" by (simp add: held_def fun_eq_iff e)
  then show "held elems ?s t = {}" "lock_graph elems ?s = lock_graph elems s" by (simp_all add: f)
  have "length (rep_loop (lt_rep (DD_threads ?s u))) = 20" for u using s by (simp add: sys_inv_def CreateLogicalThread_def)
  then show "sys_inv st B shape valid elems ?s" using s x by (simp add: sys_inv_def f h)
qed

lemma GetReport_correct:
  assumes s: "sys_inv st B shape valid elems s"
  shows "sys_inv st B shape valid elems (snd (GetReport s t))" "\<not> report_pending (DD_threads (snd (GetReport s t)) t)"
    "(fst (GetReport s t) \<noteq> None) = report_pending (DD_threads s t)" "lock_graph elems (snd (GetReport s t)) = lock_graph elems s"
    "held elems (snd (GetReport s t)) = held elems s"
  using put_report_valid [OF s, of "(DD_threads s t)\<lparr>report_pending := False\<rparr>" t] s
  by (simp_all add: GetReport_def tls_of_def sys_inv_def)

text \<open>The detector starts from zeroed mutexes and cleared threads.\<close>

lemma DD_init_correct:
  assumes d: "dd_shape B shape (DD_dd s)" and t: "\<And>t. tls_valid valid elems (tls_of s t) \<and> tls_epoch (tls_of s t) = 0 \<and> tls_locks elems (tls_of s t) = {#}"
    and m: "\<And>m. id_of s m = 0" and r: "\<And>t. length (rep_loop (lt_rep (DD_threads s t))) = 20"
  shows "sys_inv st B shape valid elems (DD_init B s flag)" "lock_graph elems (DD_init B s flag) = {}"
proof -
  let ?s = "DD_init B s flag"
  have f: "DD_dd ?s = dd_clear B (DD_dd s)" "tls_of ?s = tls_of s" "id_of ?s = id_of s" "DD_threads ?s = DD_threads s"
    by (auto simp: DD_init_def tls_of_def id_of_def)
  note c = clear_dd [OF d]
  have "elems (tls_bv (tls_of s t)) = {}" for t using t [of t] tls_locks_elems by fastforce
  then have h: "held elems ?s t = {}" for t by (simp add: held_def f)
  have "\<not> current B ?s m" for m using m by (simp add: current_def f nodeBelongsToCurrentEpoch_def)
  then show "sys_inv st B shape valid elems ?s" using c t m r h by (simp add: sys_inv_def f nodeToEpoch_def)
  show "lock_graph elems ?s = {}" using c by (simp add: f)
qed

end

section \<open>The events in any order\<close>

text \<open>
  The threads of a program call the handlers in any order and with any interleaving of whole handlers; they may also
  destroy or reinitialise a mutex that a thread holds, as the mutex interceptors of ThreadSanitizer do on a locked mutex.
\<close>

inductive event :: "('bv, 'it) BV \<Rightarrow> 'bv DD \<Rightarrow> 'bv DD \<Rightarrow> bool" for B where
  create: "event B s (CreateLogicalThread B s t ctx)"
| init: "event B s (MutexInit s m unwind)"
| before_lock: "MutexBeforeLock B s t m unwind tid added path = Some s' \<Longrightarrow> event B s s'"
| after_lock: "MutexAfterLock B s t m wlock trylock unwind tid added = Some s' \<Longrightarrow> event B s s'"
| before_unlock: "MutexBeforeUnlock B s t m = Some s' \<Longrightarrow> event B s s'"
| destroy: "MutexDestroy B s m = Some s' \<Longrightarrow> event B s s'"
| get_report: "event B s (snd (GetReport s t))"

text \<open>A careful program does not destroy or reinitialise a mutex that a thread holds: no event clears the node of one.\<close>

definition careful :: "('bv, 'it) BV \<Rightarrow> ('bv \<Rightarrow> nat set) \<Rightarrow> 'bv DD \<Rightarrow> 'bv DD \<Rightarrow> bool" where
  "careful B elems s s' \<longleftrightarrow> event B s s' \<and> (\<forall>m. id_of s m \<noteq> 0 \<and> id_of s' m = 0 \<longrightarrow> unheld B elems s m)"

lemma unheld_if: "(id_of s m \<noteq> 0 \<Longrightarrow> unheld B elems s m) \<Longrightarrow> unheld B elems s m"
  by (cases "id_of s m = 0") (auto simp: unheld_def current_def nodeBelongsToCurrentEpoch_def)

lemma MutexDestroy_id: "MutexDestroy B s m = Some s' \<Longrightarrow> id_of s' m = 0"
  by (auto simp: MutexDestroy_def id_of_def put_id_def split: if_splits option.splits bind_splits)

lemma MutexInit_id: "id_of (MutexInit s m unwind) m = 0"
  by (simp add: MutexInit_def id_of_def)

context bit_vector
begin

lemma event_valid:
  assumes e: "event B s s'" and s: "sys_inv st B shape valid elems s" and k: "0 < kSize B" "kSize B \<le> 2 ^ 16"
    and c: "st \<Longrightarrow> careful B elems s s'"
  shows "sys_inv st B shape valid elems s'"
proof -
  have u: "unheld B elems s m" if st "id_of s' m = 0" for m
    by (rule unheld_if) (use c [OF \<open>st\<close>] that(2) in \<open>simp add: careful_def\<close>)
  from e show ?thesis
  proof cases
    case (init m unwind)
    show ?thesis unfolding init by (rule MutexInit_correct(1) [OF s]) (use u init MutexInit_id in blast)
  next
    case (before_lock t m unwind tid added path)
    then show ?thesis using MutexBeforeLock_correct [OF s k, of t m unwind tid added path] by auto
  next
    case (after_lock t m wlock trylock unwind tid added)
    then show ?thesis using MutexAfterLock_correct [OF s k, of t wlock m trylock unwind tid added] by auto
  next
    case (before_unlock t m)
    then show ?thesis using MutexBeforeUnlock_correct [OF s k, of t m] by auto
  next
    case (destroy m)
    then have "st \<Longrightarrow> unheld B elems s m" using u MutexDestroy_id by blast
    from MutexDestroy_correct [OF s k(1) this] show ?thesis using destroy by simp
  qed (use s in \<open>simp_all add: CreateLogicalThread_correct GetReport_correct\<close>)
qed

lemma events_valid:
  assumes "(event B)\<^sup>*\<^sup>* s s'" "sys_safe B shape valid elems s" "0 < kSize B" "kSize B \<le> 2 ^ 16"
  shows "sys_safe B shape valid elems s'"
  using assms by (induction rule: rtranclp_induct) (auto intro: event_valid)

lemma careful_valid:
  assumes "(careful B elems)\<^sup>*\<^sup>* s s'" "sys_valid B shape valid elems s" "0 < kSize B" "kSize B \<le> 2 ^ 16"
  shows "sys_valid B shape valid elems s'"
  using assms by (induction rule: rtranclp_induct) (auto intro: event_valid simp: careful_def)

section \<open>Acquiring a lock\<close>

text \<open>An exclusive lock, checked by \<open>MutexBeforeLock\<close> and then taken, closes a cycle exactly when the check finds it.\<close>

lemma lock_correct:
  assumes s: "sys_inv st B shape valid elems s" and k: "0 < kSize B" "kSize B \<le> 2 ^ 16" and a: "acyclic (lock_graph elems s)"
    and b: "MutexBeforeLock B s t m unwind tid added path = Some s1" and l: "MutexAfterLock B s1 t m True trylock unwind' tid' added' = Some s2"
  shows "acyclic (lock_graph elems s2) \<and> report_pending (DD_threads s2 t) = report_pending (DD_threads s t) \<or>
    \<not> acyclic (lock_graph elems s2) \<and>
      (report_pending (DD_threads s2 t) \<or> (\<forall>j<length path. \<forall>h\<in>held elems s1 t. (index_of B s1 m, h) \<notin> lock_graph elems s1 ^^ j))"
proof -
  have s1: "sys_inv st B shape valid elems s1" and c: "no_cycle_found s t m s1 \<or> cycle_found s t m (length path) s1"
    using MutexBeforeLock_correct [OF s k, of t m unwind tid added path] b by auto
  have q: "acquired s1 t m True trylock s2" using MutexAfterLock_correct [OF s1 k, of t True m trylock unwind' tid' added'] l by auto
  from c show ?thesis
  proof
    assume f: "cycle_found s t m (length path) s1"
    then obtain E h where E: "h \<in> held elems s1 t" "(index_of B s1 m, h) \<in> E\<^sup>*" "lock_graph elems s1 = E \<union> held elems s1 t \<times> {index_of B s1 m}"
      and cur: "current B s1 m" unfolding cycle_found_def by blast
    then have "\<not> acyclic (lock_graph elems s1)" using acyclic_new_edges [of E "held elems s1 t"] by auto
    moreover have "lock_graph elems s1 \<subseteq> lock_graph elems s2" using q cur unfolding acquired_def by auto
    ultimately have "\<not> acyclic (lock_graph elems s2)" using acyclic_subset by blast
    then show ?thesis using f q by (auto simp: cycle_found_def acquired_def)
  next
    assume f: "no_cycle_found s t m s1"
    then have a1: "acyclic (lock_graph elems s1)" using a acyclic_subset by (auto simp: no_cycle_found_def)
    have "acyclic (lock_graph elems s2)"
    proof (cases "lock_graph elems s2 \<subseteq> lock_graph elems s1")
      case True
      then show ?thesis using a1 acyclic_subset by blast
    next
      case False
      define c where "c = index_of B s2 m"
      have ne: "DD_dd s2 \<noteq> DD_dd s1" using False by auto
      obtain H E where E: "E \<subseteq> lock_graph elems s1" "H = held elems s1 t \<or> H = {}"
        and i: "current B s1 m \<longrightarrow> H = held elems s1 t \<and> E = lock_graph elems s1 \<and> c = index_of B s1 m"
        and G: "lock_graph elems s2 = E \<and> (trylock \<or> H \<times> {c} \<subseteq> E) \<or> lock_graph elems s2 = E \<union> H \<times> {c} \<and> (True \<longrightarrow> c \<notin> H)"
        using q ne unfolding acquired_def c_def by blast
      have H: "E \<subseteq> lock_graph elems s1" "lock_graph elems s2 = E \<union> H \<times> {c}" "c \<notin> H" using E G False by blast+
      then have "H \<noteq> {}" using False by blast
      then have cur: "current B s1 m" "held elems s1 t \<noteq> {}" using f E(2) unfolding no_cycle_found_def by auto
      then have j: "H = held elems s1 t" "E = lock_graph elems s1" "c = index_of B s1 m" using i by simp_all
      have "\<not> H \<times> {c} \<subseteq> lock_graph elems s1" using \<open>\<not> lock_graph elems s2 \<subseteq> lock_graph elems s1\<close> H(1) unfolding H(2) by simp
      then have "(c, h) \<notin> E\<^sup>*" if "h \<in> H" for h using f that H(3) cur(2) unfolding no_cycle_found_def j by blast
      then show ?thesis using H(2) acyclic_new_edges [of E H c] acyclic_subset [OF a1 H(1)] by simp
    qed
    then show ?thesis using f q by (auto simp: no_cycle_found_def acquired_def)
  qed
qed

text \<open>
  A shared lock that the thread holds already is let through without a check, and \<open>MutexAfterLock\<close> then adds the edges
  from every held lock to it: a lock taken under it closes a cycle that is not reported.
\<close>

lemma recursive_rlock:
  assumes s: "sys_inv st B shape valid elems s" and k: "0 < kSize B" "kSize B \<le> 2 ^ 16" and a: "acyclic (lock_graph elems s)"
    and m: "current B s m" "index_of B s m \<in> held elems s t" and h: "h \<in> held elems s t" "(index_of B s m, h) \<in> lock_graph elems s"
    and b: "MutexBeforeLock B s t m unwind tid added path = Some s1" and l: "MutexAfterLock B s1 t m False False unwind' tid' added' = Some s2"
  shows "\<not> acyclic (lock_graph elems s2) \<and> (\<forall>u. report_pending (DD_threads s2 u) = report_pending (DD_threads s u))"
proof -
  let ?c = "index_of B s m"
  have nh: "(h, ?c) \<notin> lock_graph elems s" using a h(2) by (meson acyclic_def trancl.r_into_trancl trancl_trans)
  have e: "tls_epoch (tls_of s t) = current_epoch (DD_dd s)" "elems (tls_bv (tls_of s t)) = held elems s t" using h(1) by (auto simp: held_def split: if_splits)
  have "hasAllEdges B (DD_dd s) (tls_of s t) (id_of s m) = Some False"
    using hasAllEdges_correct [OF sys_invD(1) [OF s] sys_invD(2) [OF s, of t] k(1), of "id_of s m"] nh h(1) e(2) by (auto simp: index_of_def)
  moreover have "\<not> tls_empty B (tls_of s t)"
    using empty [of "tls_bv (tls_of s t)"] sys_invD(2) [OF s, of t] e(2) h(1) by (auto simp: tls_empty_def tls_valid_def)
  moreover have "MutexEnsureID B s t m = Some s"
    using m(1) e(1) by (simp add: MutexEnsureID_def current_def ensureCurrentEpoch_def tls_ensureCurrentEpoch_def put_tls_def put_thread_def tls_of_def)
  moreover have "isHeld B (DD_dd s) (tls_of s t) (id_of s m) = Some True"
    using isHeld_correct [OF sys_invD(2) [OF s, of t] e(1) current_index [OF s m(1)] k(1)] m(2) e(2) by simp
  ultimately have "s1 = s" using b by (simp add: MutexBeforeLock_def)
  then have q: "acquired s t m False False s2" using MutexAfterLock_correct [OF s k, of t False m False unwind' tid' added'] l by auto
  then have "lock_graph elems s \<subseteq> lock_graph elems s2" "held elems s t \<times> {?c} \<subseteq> lock_graph elems s2" using m(1) by (auto simp: acquired_def)
  then have "(?c, ?c) \<in> (lock_graph elems s2)\<^sup>+" using h by (meson SigmaI insertI1 subsetD trancl.r_into_trancl trancl_trans)
  then show ?thesis using q by (auto simp: acyclic_def acquired_def)
qed

end

end
