(* ===== verification/San_DDBV.thy ===== *)
theory San_DDBV
  imports San_Events
begin

text \<open>
  The detector at the bit vector it is built with: \<open>DDBV\<close> is \<open>TwoLevelBitVector<>\<close>, of 4096 nodes, and
  \<open>DDetector::Create\<close> constructs the detector in zeroed pages. The contracts of the handlers hold for
  every state that their events reach from there.
\<close>

definition DDBV :: "(64 word TwoLevelBitVector, 64 word tbv_iterator) BV" where
  "DDBV = TwoLevelBitVector_ops 1"

text \<open>The zeroed memory that \<open>MmapOrDie\<close> returns, with threads and mutexes that are not in use yet.\<close>

definition zero_bv :: "nat \<Rightarrow> 'a::len word TwoLevelBitVector" where
  "zero_bv L = \<lparr>l1 = replicate L 0, l2 = replicate L (replicate LENGTH('a) 0)\<rparr>"

definition zero_tls :: "nat \<Rightarrow> 'a::len word TwoLevelBitVector DeadlockDetectorTLS" where
  "zero_tls L = \<lparr>tls_bv = zero_bv L, tls_epoch = 0, recursive_locks = replicate 64 0, n_recursive_locks = 0,
     all_locks_with_contexts = replicate 64 \<lparr>lc_lock = 0, lc_stk = 0\<rparr>, n_all_locks = 0\<rparr>"

definition zero_memory :: "nat \<Rightarrow> 'a::len word TwoLevelBitVector DD" where
  "zero_memory L = (let n = LENGTH('a) * LENGTH('a) * L in \<lparr>
     DD_dd = \<lparr>current_epoch = 0, available_nodes = zero_bv L, recycled_nodes = zero_bv L, tmp_bv = zero_bv L,
       dd_g = \<lparr>g_v = replicate n (zero_bv L), g_t1 = zero_bv L, g_t2 = zero_bv L\<rparr>, dd_data = replicate n 0,
       dd_edges = replicate (n * 32) \<lparr>e_from = 0, e_to = 0, stk_from = 0, stk_to = 0, unique_tid = 0\<rparr>, n_edges = 0\<rparr>,
     second_deadlock_stack = False,
     DD_threads = (\<lambda>_. \<lparr>lt_ctx = 0, lt_dd = zero_tls L,
       lt_rep = \<lparr>rep_n = 0, rep_loop = replicate 20 \<lparr>thr_ctx = 0, mtx_ctx0 = 0, mtx_ctx1 = 0, le_stk0 = 0, le_stk1 = 0\<rparr>\<rparr>, report_pending = False\<rparr>),
     DD_mutexes = (\<lambda>_. \<lparr>m_id = 0, m_stk = 0, m_ctx = 0\<rparr>)\<rparr>)"

definition DDetector_Create :: "bool \<Rightarrow> 64 word TwoLevelBitVector DD" where
  "DDetector_Create flag = DD_init DDBV (zero_memory 1) flag"

text \<open>The sets that the vectors stand for, the locks a thread holds, the graph of acquisitions and the invariant.\<close>

abbreviation locks :: "64 word TwoLevelBitVector DD \<Rightarrow> nat \<Rightarrow> nat set" where
  "locks \<equiv> held (tbv_elems 1)"

abbreviation acquisitions :: "64 word TwoLevelBitVector DD \<Rightarrow> (nat \<times> nat) set" where
  "acquisitions \<equiv> lock_graph (tbv_elems 1)"

abbreviation detector_ok :: "64 word TwoLevelBitVector DD \<Rightarrow> bool" where
  "detector_ok \<equiv> sys_valid DDBV (tbv_shape 1) (tbv_valid 1) (tbv_elems 1)"

abbreviation detector_safe :: "64 word TwoLevelBitVector DD \<Rightarrow> bool" where
  "detector_safe \<equiv> sys_safe DDBV (tbv_shape 1) (tbv_valid 1) (tbv_elems 1)"

abbreviation reachable :: "64 word TwoLevelBitVector DD \<Rightarrow> bool" where
  "reachable s \<equiv> (\<exists>flag. (event DDBV)\<^sup>*\<^sup>* (DDetector_Create flag) s)"

interpretation ddbv: bit_vector DDBV "tbv_shape 1" "tbv_valid 1" "tbv_elems 1" "tbv_it_valid 1" "tbv_rest 1"
  unfolding DDBV_def by (rule tbv.bit_vector_axioms)

lemma kSize_DDBV: "kSize DDBV = 4096" "0 < kSize DDBV" "kSize DDBV \<le> 2 ^ 16"
  by (simp_all add: DDBV_def TwoLevelBitVector_ops_def)

lemma zero_bv_shape: "tbv_shape L (zero_bv L)"
  unfolding tbv_shape_def zero_bv_def by (simp add: set_replicate_conv_if)

lemma zero_bv_valid: "tbv_valid L (zero_bv L :: 'a::len word TwoLevelBitVector)" "tbv_elems L (zero_bv L :: 'a word TwoLevelBitVector) = {}"
proof -
  let ?z = "zero_bv L :: 'a word TwoLevelBitVector"
  have z: "bits (l1 ?z ! i0) = {}" if "i0 < L" for i0 using that by (simp add: zero_bv_def)
  then show "tbv_valid L ?z" using zero_bv_shape unfolding tbv_valid_def by blast
  have "idx div (n * n) < L" if "idx < n * n * L" for idx n :: nat using that by (simp add: less_mult_imp_div_less mult.commute)
  then have "i \<notin> tbv_elems L ?z" for i using z unfolding tbv_elems_def eff_def by simp
  then show "tbv_elems L ?z = {}" by blast
qed

lemma zero_memory_ok:
  fixes L :: nat and flag :: bool
  defines "s \<equiv> DD_init (TwoLevelBitVector_ops L) (zero_memory L :: 'a::len word TwoLevelBitVector DD) flag"
  shows "sys_valid (TwoLevelBitVector_ops L) (tbv_shape L) (tbv_valid L) (tbv_elems L) s" "lock_graph (tbv_elems L) s = {}"
proof -
  let ?s = "zero_memory L :: 'a word TwoLevelBitVector DD"
  have d: "dd_shape (TwoLevelBitVector_ops L) (tbv_shape L) (DD_dd ?s)"
    by (simp add: dd_shape_def bvg_shape_def TwoLevelBitVector_ops_def zero_memory_def Let_def zero_bv_shape)
  have t: "tls_valid (tbv_valid L) (tbv_elems L) (tls_of ?s t) \<and> tls_epoch (tls_of ?s t) = 0 \<and> tls_locks (tbv_elems L) (tls_of ?s t) = {#}" for t
    by (simp add: tls_valid_def tls_locks_def tls_held_def zero_tls_def zero_bv_valid zero_memory_def Let_def tls_of_def)
  have m: "id_of ?s m = 0" "length (rep_loop (lt_rep (DD_threads ?s t))) = 20" for m t
    by (simp_all add: id_of_def zero_memory_def Let_def)
  show "sys_valid (TwoLevelBitVector_ops L) (tbv_shape L) (tbv_valid L) (tbv_elems L) s" "lock_graph (tbv_elems L) s = {}"
    unfolding s_def by (rule tbv.DD_init_correct [OF d t m])+
qed

lemma DDetector_Create_ok: "detector_ok (DDetector_Create flag)" "acquisitions (DDetector_Create flag) = {}"
  unfolding DDetector_Create_def DDBV_def by (rule zero_memory_ok)+

lemma reachable_safe: "reachable s \<Longrightarrow> detector_safe s"
  using ddbv.events_valid [OF _ ddbv.sys_inv_safe [OF DDetector_Create_ok(1)] kSize_DDBV(2,3)] by blast

text \<open>In the new detector no mutex has a node and no thread a lock, so that a first lock can be taken.\<close>

lemma Create_state: "tls_of (DDetector_Create flag) t = zero_tls 1" "id_of (DDetector_Create flag) m = 0"
  by (simp_all add: DDetector_Create_def DD_init_def tls_of_def id_of_def zero_memory_def Let_def)

lemma Create_unlocked: "locks (DDetector_Create flag) t = {}" "n_all_locks (tls_of (DDetector_Create flag) t) = 0"
  "n_recursive_locks (tls_of (DDetector_Create flag) t) = 0" "\<not> current DDBV (DDetector_Create flag) m"
proof -
  show "locks (DDetector_Create flag) t = {}" by (simp add: held_def Create_state(1)) (simp add: zero_tls_def zero_bv_valid)
qed (simp_all add: Create_state current_def nodeBelongsToCurrentEpoch_def zero_tls_def)

lemma first_lock: "\<exists>s'. MutexAfterLock DDBV (DDetector_Create flag) t m wlock trylock unwind tid added = Some s'"
  using ddbv.MutexAfterLock_correct [OF DDetector_Create_ok(1) kSize_DDBV(2,3), of flag t wlock m trylock unwind tid added] Create_unlocked [of flag t]
  by (cases "MutexAfterLock DDBV (DDetector_Create flag) t m wlock trylock unwind tid added") (auto simp: Create_unlocked(4))

section \<open>A small instance\<close>

text \<open>
  One thread has taken a shared and then an exclusive lock, in a detector with two-bit words and so four nodes.
\<close>

abbreviation small_bv :: "(2 word TwoLevelBitVector, 2 word tbv_iterator) BV" where
  "small_bv \<equiv> TwoLevelBitVector_ops 1"

definition one_lock :: "2 word TwoLevelBitVector DD" where
  "one_lock = the (MutexAfterLock small_bv (DD_init small_bv (zero_memory 1) False) 0 0 False False 0 0 (replicate 40 0))"

definition two_locks :: "2 word TwoLevelBitVector DD" where
  "two_locks = the (MutexAfterLock small_bv one_lock 0 1 True False 0 0 (replicate 40 0))"

lemma small_bv_size: "0 < kSize small_bv" "kSize small_bv \<le> 2 ^ 16"
  by (simp_all add: TwoLevelBitVector_ops_def)

lemma lock_taken:
  assumes "sys_valid small_bv (tbv_shape 1) (tbv_valid 1) (tbv_elems 1) s" "\<not> Option.is_none (MutexAfterLock small_bv s t m wlock trylock unwind tid added)"
  shows "sys_valid small_bv (tbv_shape 1) (tbv_valid 1) (tbv_elems 1) (the (MutexAfterLock small_bv s t m wlock trylock unwind tid added))"
  using tbv.MutexAfterLock_correct [OF assms(1) small_bv_size, of t wlock m trylock unwind tid added] assms(2)
  by (auto simp: Option.is_none_def split: option.splits)

lemma two_locks_ok: "sys_valid small_bv (tbv_shape 1) (tbv_valid 1) (tbv_elems 1) two_locks"
proof -
  have "\<not> Option.is_none (MutexAfterLock small_bv (DD_init small_bv (zero_memory 1) False) 0 0 False False 0 0 (replicate 40 0))"
    "\<not> Option.is_none (MutexAfterLock small_bv one_lock 0 1 True False 0 0 (replicate 40 0))" by code_simp+
  then show ?thesis unfolding two_locks_def one_lock_def using zero_memory_ok(1) by (intro lock_taken)
qed

lemma two_locks_state:
  "g_v (dd_g (DD_dd two_locks)) = [\<lparr>l1 = [1], l2 = [[2, 0]]\<rparr>, zero_bv 1, zero_bv 1, zero_bv 1]"
  "tls_bv (tls_of two_locks 0) = \<lparr>l1 = [1], l2 = [[3, 0]]\<rparr>" "tls_epoch (tls_of two_locks 0) = current_epoch (DD_dd two_locks)"
  "current small_bv two_locks 0" "index_of small_bv two_locks 0 = 0"
  by code_simp+

text \<open>The sets of the specification, computed.\<close>

lemma bits_code [code]: "bits (w :: 'a::len word) = set (filter (bit w) [0..<LENGTH('a)])"
  using bits_bound [of w] by (auto simp: bits_def)

lemma tbv_elems_code [code]:
  "tbv_elems L (bv :: 'a::len word TwoLevelBitVector) = set (filter (\<lambda>i. i mod LENGTH('a) \<in>
     bits (eff bv (i div (LENGTH('a) * LENGTH('a))) (i div LENGTH('a) mod LENGTH('a)))) [0..<LENGTH('a) * LENGTH('a) * L])"
  by (auto simp: tbv_elems_def)

lemma edges_code [code]: "edges elems v = (\<Union>i\<in>set [0..<length v]. Pair i ` elems (v ! i))"
  by (auto simp: edges_def)

lemma two_locks_edges: "lock_graph (tbv_elems 1) two_locks = {(0, 1)}" "held (tbv_elems 1) two_locks 0 = {0, 1}"
  by code_simp+

text \<open>
  A thread that holds a destroyed mutex keeps adding edges from its recycled node, and \<open>newNode\<close> removes only the edges to
  recycled nodes: here mutex 0 is destroyed while thread 0 holds it and takes three more locks, and mutex 4, which thread 1
  locks first of all, gets the node together with edges to those locks. This is why only careful programs keep the strict invariant.
\<close>

definition small_lock :: "2 word TwoLevelBitVector DD \<Rightarrow> nat \<Rightarrow> nat \<Rightarrow> 2 word TwoLevelBitVector DD" where
  "small_lock s t m = the (MutexAfterLock small_bv s t m True False 0 0 (replicate 40 0))"

definition held_destroyed :: "2 word TwoLevelBitVector DD" where
  "held_destroyed =
    (let s = the (MutexDestroy small_bv (small_lock (DD_init small_bv (zero_memory 1) False) 0 0) 0)
     in small_lock (small_lock (small_lock (small_lock s 0 1) 0 2) 0 3) 1 4)"

lemma stale_edges: "index_of small_bv held_destroyed 4 = 0 \<and> {(0, 1), (0, 2), (0, 3)} \<subseteq> lock_graph (tbv_elems 1) held_destroyed \<and>
    held (tbv_elems 1) held_destroyed 1 = {0}"
  by code_simp

end
