(* ===== verification/San_Libc.thy ===== *)
theory San_Libc
  imports San_Prelude "HOL-Library.Sublist"
begin

text \<open>
  \<open>sanitizer_libc.cpp\<close>: the memory and string routines of the runtime. Memory is a function from addresses
  to bytes. Pointers are natural numbers: a pointer into an object never wraps around. \<open>char\<close> is signed, as on the
  targets of the runtime, and the null pointer of a failed search is \<open>None\<close>. A loop that stops only
  at a terminator is a partial function, whose value is \<open>None\<close> when there is no terminator.
\<close>

unbundle bit_operations_syntax

type_synonym mem = "nat \<Rightarrow> 8 word"

section \<open>Memory\<close>

fun internal_memchr :: "mem \<Rightarrow> nat \<Rightarrow> 32 word \<Rightarrow> nat \<Rightarrow> nat option" where
  "internal_memchr m t c 0 = None"
| "internal_memchr m t c (Suc n) = (if scast (m t) = c then Some t else internal_memchr m (t + 1) c n)"

fun memrchr_loop :: "mem \<Rightarrow> nat \<Rightarrow> 32 word \<Rightarrow> nat \<Rightarrow> nat option \<Rightarrow> nat option" where
  "memrchr_loop m t c 0 res = res"
| "memrchr_loop m t c (Suc n) res = memrchr_loop m (t + 1) c n (if scast (m t) = c then Some t else res)"

definition internal_memrchr :: "mem \<Rightarrow> nat \<Rightarrow> 32 word \<Rightarrow> nat \<Rightarrow> nat option" where
  "internal_memrchr m s c n = memrchr_loop m s c n None"

fun internal_memcmp :: "mem \<Rightarrow> nat \<Rightarrow> nat \<Rightarrow> nat \<Rightarrow> int" where
  "internal_memcmp m t1 t2 0 = 0"
| "internal_memcmp m t1 t2 (Suc n) =
    (if m t1 \<noteq> m t2 then (if m t1 <s m t2 then -1 else 1) else internal_memcmp m (t1 + 1) (t2 + 1) n)"

definition copy_byte :: "nat \<Rightarrow> nat \<Rightarrow> nat \<Rightarrow> mem \<Rightarrow> mem" where
  "copy_byte d s i m = m(d + i := m (s + i))"

definition internal_memcpy :: "mem \<Rightarrow> nat \<Rightarrow> nat \<Rightarrow> nat \<Rightarrow> mem" where
  "internal_memcpy m d s n = fold (copy_byte d s) [0..<n] m"

definition internal_memmove :: "mem \<Rightarrow> nat \<Rightarrow> nat \<Rightarrow> nat \<Rightarrow> mem option" where
  "internal_memmove m d s n = do {
     CHECK (n < 2 ^ 63);
     Some (if d < s then fold (copy_byte d s) [0..<n] m
       else if d > s \<and> n > 0 then fold (copy_byte d s) (rev [0..<n]) m
       else m) }"

text \<open>A little-endian store of a 64-bit word, and the load that reads it.\<close>

definition store64 :: "nat \<Rightarrow> 64 word \<Rightarrow> mem \<Rightarrow> mem" where
  "store64 p v m = fold (\<lambda>k m. m(p + k := ucast (drop_bit (8 * k) v))) [0..<8] m"

definition load64 :: "mem \<Rightarrow> nat \<Rightarrow> 64 word" where
  "load64 m p = fold (\<lambda>k v. v OR push_bit (8 * k) (ucast (m (p + k)))) [0..<8] 0"

definition internal_memset :: "mem \<Rightarrow> nat \<Rightarrow> 32 word \<Rightarrow> nat \<Rightarrow> mem" where
  "internal_memset m s c n =
    (if s mod 16 = 0 \<and> n mod 16 = 0 then
       let v = scast c;
           v = v OR push_bit 8 v;
           v = v OR push_bit 16 v;
           v = v OR push_bit 32 v
       in fold (\<lambda>j m. store64 (s + 16 * j) v (store64 (s + 16 * j + 8) v m)) [0..<n div 16] m
     else fold (\<lambda>i m. m(s + i := ucast c)) [0..<n] m)"

section \<open>Strings\<close>

partial_function (option) strlen_loop :: "mem \<Rightarrow> nat \<Rightarrow> nat \<Rightarrow> nat option" where
  "strlen_loop m s i = (if m (s + i) \<noteq> 0 then strlen_loop m s (i + 1) else Some i)"

definition internal_strlen :: "mem \<Rightarrow> nat \<Rightarrow> nat option" where
  "internal_strlen m s = strlen_loop m s 0"

partial_function (option) internal_strchr :: "mem \<Rightarrow> nat \<Rightarrow> 32 word \<Rightarrow> nat option option" where
  "internal_strchr m s c = (if m s = ucast c then Some (Some s) else if m s = 0 then Some None else internal_strchr m (s + 1) c)"

definition internal_strchrnul :: "mem \<Rightarrow> nat \<Rightarrow> 32 word \<Rightarrow> nat option" where
  "internal_strchrnul m s c = do {
     res \<leftarrow> internal_strchr m s c;
     case res of Some r \<Rightarrow> Some r | None \<Rightarrow> do { l \<leftarrow> internal_strlen m s; Some (s + l) } }"

partial_function (option) strcspn_loop :: "mem \<Rightarrow> nat \<Rightarrow> nat \<Rightarrow> nat \<Rightarrow> nat option" where
  "strcspn_loop m s reject i =
    (if m (s + i) \<noteq> 0 then do {
       r \<leftarrow> internal_strchr m reject (scast (m (s + i)));
       if r \<noteq> None then Some i else strcspn_loop m s reject (i + 1) }
     else Some i)"

definition internal_strcspn :: "mem \<Rightarrow> nat \<Rightarrow> nat \<Rightarrow> nat option" where
  "internal_strcspn m s reject = strcspn_loop m s reject 0"

text \<open>\<open>s2\<close> is the block that \<open>InternalAlloc\<close> returns.\<close>

definition internal_strdup :: "mem \<Rightarrow> nat \<Rightarrow> nat \<Rightarrow> mem option" where
  "internal_strdup m s s2 = do {
     len \<leftarrow> internal_strlen m s;
     let m = internal_memcpy m s2 s len;
     Some (m(s2 + len := 0)) }"

partial_function (option) internal_strcmp :: "mem \<Rightarrow> nat \<Rightarrow> nat \<Rightarrow> int option" where
  "internal_strcmp m s1 s2 =
    (let c1 = scast (m s1) :: 32 word; c2 = scast (m s2) in
     if c1 \<noteq> c2 then Some (if c1 < c2 then -1 else 1)
     else if c1 = 0 then Some 0
     else internal_strcmp m (s1 + 1) (s2 + 1))"

fun internal_strncmp :: "mem \<Rightarrow> nat \<Rightarrow> nat \<Rightarrow> nat \<Rightarrow> int" where
  "internal_strncmp m s1 s2 0 = 0"
| "internal_strncmp m s1 s2 (Suc n) =
    (let c1 = scast (m s1) :: 32 word; c2 = scast (m s2) in
     if c1 \<noteq> c2 then (if c1 < c2 then -1 else 1)
     else if c1 = 0 then 0
     else internal_strncmp m (s1 + 1) (s2 + 1) n)"

partial_function (option) strrchr_loop :: "mem \<Rightarrow> nat \<Rightarrow> 32 word \<Rightarrow> nat \<Rightarrow> nat option \<Rightarrow> nat option option" where
  "strrchr_loop m s c i res =
    (if m (s + i) \<noteq> 0 then strrchr_loop m s c (i + 1) (if scast (m (s + i)) = c then Some (s + i) else res) else Some res)"

definition internal_strrchr :: "mem \<Rightarrow> nat \<Rightarrow> 32 word \<Rightarrow> nat option option" where
  "internal_strrchr m s c = strrchr_loop m s c 0 None"

fun strnlen_loop :: "mem \<Rightarrow> nat \<Rightarrow> nat \<Rightarrow> nat \<Rightarrow> nat" where
  "strnlen_loop m s 0 i = i"
| "strnlen_loop m s (Suc k) i = (if m (s + i) \<noteq> 0 then strnlen_loop m s k (i + 1) else i)"

definition internal_strnlen :: "mem \<Rightarrow> nat \<Rightarrow> nat \<Rightarrow> nat" where
  "internal_strnlen m s maxlen = strnlen_loop m s maxlen 0"

definition internal_strlcat :: "mem \<Rightarrow> nat \<Rightarrow> nat \<Rightarrow> nat \<Rightarrow> (nat \<times> mem) option" where
  "internal_strlcat m dst src maxlen = do {
     srclen \<leftarrow> internal_strlen m src;
     let dstlen = internal_strnlen m dst maxlen;
     if dstlen = maxlen then Some (maxlen + srclen, m)
     else do {
       m \<leftarrow> (if srclen < maxlen - dstlen then internal_memmove m (dst + dstlen) src (srclen + 1)
              else do { m \<leftarrow> internal_memmove m (dst + dstlen) src (maxlen - dstlen - 1); Some (m(dst + maxlen - 1 := 0)) });
       Some (dstlen + srclen, m) } }"

text \<open>The copying loop of \<open>strncat\<close> and \<open>strncpy\<close>: at most \<open>k\<close> more bytes from \<open>src + i\<close> to \<open>dst + i\<close>.\<close>

fun strncpy_loop :: "mem \<Rightarrow> nat \<Rightarrow> nat \<Rightarrow> nat \<Rightarrow> nat \<Rightarrow> nat \<times> mem" where
  "strncpy_loop m dst src 0 i = (i, m)"
| "strncpy_loop m dst src (Suc k) i =
    (if m (src + i) \<noteq> 0 then strncpy_loop (copy_byte dst src i m) dst src k (i + 1) else (i, m))"

definition internal_strncat :: "mem \<Rightarrow> nat \<Rightarrow> nat \<Rightarrow> nat \<Rightarrow> mem option" where
  "internal_strncat m dst src n = do {
     len \<leftarrow> internal_strlen m dst;
     let (i, m) = strncpy_loop m (dst + len) src n 0;
     Some (m(dst + len + i := 0)) }"

definition internal_strlcpy :: "mem \<Rightarrow> nat \<Rightarrow> nat \<Rightarrow> nat \<Rightarrow> (nat \<times> mem) option" where
  "internal_strlcpy m dst src maxlen = do {
     srclen \<leftarrow> internal_strlen m src;
     m \<leftarrow> (if srclen < maxlen then internal_memmove m dst src (srclen + 1)
            else if maxlen \<noteq> 0 then do { m \<leftarrow> internal_memmove m dst src (maxlen - 1); Some (m(dst + maxlen - 1 := 0)) }
            else Some m);
     Some (srclen, m) }"

definition internal_strncpy :: "mem \<Rightarrow> nat \<Rightarrow> nat \<Rightarrow> nat \<Rightarrow> mem" where
  "internal_strncpy m dst src n = (let (i, m) = strncpy_loop m dst src n 0 in internal_memset m (dst + i) 0 (n - i))"

text \<open>The rounds of \<open>internal_strstr\<close> from position \<open>pos\<close> on.\<close>

fun strstr_loop :: "mem \<Rightarrow> nat \<Rightarrow> nat \<Rightarrow> nat \<Rightarrow> nat list \<Rightarrow> nat option" where
  "strstr_loop m haystack needle len2 [] = None"
| "strstr_loop m haystack needle len2 (pos # ps) =
    (if internal_memcmp m (haystack + pos) needle len2 = 0 then Some (haystack + pos) else strstr_loop m haystack needle len2 ps)"

definition internal_strstr :: "mem \<Rightarrow> nat \<Rightarrow> nat \<Rightarrow> nat option option" where
  "internal_strstr m haystack needle = do {
     len1 \<leftarrow> internal_strlen m haystack;
     len2 \<leftarrow> internal_strlen m needle;
     if len1 < len2 then Some None
     else Some (strstr_loop m haystack needle len2 [0..<len1 - len2 + 1]) }"

declare strlen_loop.simps [code] internal_strchr.simps [code] strcspn_loop.simps [code] internal_strcmp.simps [code] strrchr_loop.simps [code]

section \<open>Copying and filling\<close>

definition copied :: "mem \<Rightarrow> nat \<Rightarrow> nat \<Rightarrow> nat \<Rightarrow> mem" where
  "copied m d s n = (\<lambda>a. if d \<le> a \<and> a < d + n then m (s + (a - d)) else m a)"

definition filled :: "mem \<Rightarrow> nat \<Rightarrow> 8 word \<Rightarrow> nat \<Rightarrow> mem" where
  "filled m s b n = (\<lambda>a. if s \<le> a \<and> a < s + n then b else m a)"

lemma copy_up: "(\<And>i j. i < j \<Longrightarrow> j < n \<Longrightarrow> d + i \<noteq> s + j) \<Longrightarrow> fold (copy_byte d s) [0..<n] m = copied m d s n"
proof (induction n)
  case (Suc n)
  then have IH: "fold (copy_byte d s) [0..<n] m = copied m d s n" by simp
  have "\<not> (d \<le> s + n \<and> s + n < d + n)"
  proof
    assume a: "d \<le> s + n \<and> s + n < d + n"
    then have "s + n - d < n" by linarith
    then show False using Suc.prems [of "s + n - d" n] a by simp
  qed
  then show ?case unfolding upt_Suc_append [OF le0] fold_append comp_def fold_simps IH
    by (auto simp: copy_byte_def copied_def fun_eq_iff)
qed (auto simp: copied_def fun_eq_iff)

lemma copy_down: "s < d \<Longrightarrow> fold (copy_byte d s) (rev [0..<n]) m = copied m d s n"
proof (induction n arbitrary: m)
  case (Suc n)
  have "fold (copy_byte d s) (rev [0..<Suc n]) m = copied (copy_byte d s n m) d s n" using Suc by simp
  also have "\<dots> = copied m d s (Suc n)" using Suc.prems by (auto simp: copied_def copy_byte_def fun_eq_iff)
  finally show ?case .
qed (auto simp: copied_def fun_eq_iff)

lemma memcpy_copied: "d \<le> s \<or> s + n \<le> d \<Longrightarrow> internal_memcpy m d s n = copied m d s n"
  unfolding internal_memcpy_def by (rule copy_up) auto

lemma memmove_copied: "internal_memmove m d s n = (if n < 2 ^ 63 then Some (copied m d s n) else None)"
proof -
  have "copied m s s n = m" "copied m d s 0 = m" by (auto simp: copied_def fun_eq_iff)
  then show ?thesis
    using copy_up [of n d s m] copy_down [of s d n m] by (auto simp: internal_memmove_def CHECK_def Let_def)
qed

lemma fill_loop: "fold (\<lambda>i m. m(s + i := b)) [0..<n] m = filled m s b n"
  by (induction n) (auto simp: filled_def fun_eq_iff)

text \<open>A word stores its bytes, the lowest first; the fast path repeats the bytes of its word over the block.\<close>

lemma store64_bytes:
  "store64 p v m = (\<lambda>a. if p \<le> a \<and> a < p + 8 then ucast (drop_bit (8 * (a - p)) v) else m a)"
proof -
  have "fold (\<lambda>k m. m(p + k := f k)) [0..<n] m = (\<lambda>a. if p \<le> a \<and> a < p + n then f (a - p) else m a)" for n and f :: "nat \<Rightarrow> 8 word"
    by (induction n) (auto simp: fun_eq_iff)
  then show ?thesis unfolding store64_def by simp
qed

lemma store_words:
  "fold (\<lambda>j m. store64 (s + 16 * j) v (store64 (s + 16 * j + 8) v m)) [0..<k] m =
    (\<lambda>a. if s \<le> a \<and> a < s + 16 * k then ucast (drop_bit (8 * ((a - s) mod 8)) v) else m a)"
proof (induction k)
  case (Suc k)
  have lo: "(a - s) mod 8 = a - (s + 16 * k)" if "s + 16 * k \<le> a" "a < s + 16 * k + 8" for a
  proof -
    have "a - s = a - (s + 16 * k) + 8 * (2 * k)" using that by simp
    then show ?thesis using that by (metis mod_mult_self2 mod_less add_less_cancel_left le_add_diff_inverse)
  qed
  have hi: "(a - s) mod 8 = a - (s + 16 * k + 8)" if "s + 16 * k + 8 \<le> a" "a < s + 16 * k + 16" for a
  proof -
    have "a - s = a - (s + 16 * k + 8) + 8 * (2 * k + 1)" using that by simp
    then show ?thesis using that by (metis mod_mult_self2 mod_less add_less_cancel_left le_add_diff_inverse numeral_Bit0 add.assoc)
  qed
  have step: "fold f [0..<Suc k] m = f k (fold f [0..<k] m)" for f by simp
  show ?case unfolding step Suc.IH unfolding store64_bytes by (auto simp: fun_eq_iff lo hi)
qed (auto simp: fun_eq_iff)

lemma memset_words:
  fixes c :: "32 word"
  assumes "s mod 16 = 0" "n mod 16 = 0"
  defines "v \<equiv> scast c :: 64 word"
  defines "v1 \<equiv> v OR push_bit 8 v"
  defines "v2 \<equiv> v1 OR push_bit 16 v1"
  defines "v3 \<equiv> v2 OR push_bit 32 v2"
  shows "internal_memset m s c n = (\<lambda>a. if s \<le> a \<and> a < s + n then ucast (drop_bit (8 * ((a - s) mod 8)) v3) else m a)"
proof -
  have "16 * (n div 16) = n" using assms(2) by auto
  then show ?thesis using assms(1,2) unfolding internal_memset_def Let_def by (simp only: store_words v3_def v2_def v1_def v_def simp_thms if_True)
qed

lemma filled_0 [simp]: "filled m s b 0 = m"
  by (auto simp: filled_def fun_eq_iff)

text \<open>The word of the fast path repeats the byte \<open>c\<close>, when \<open>c\<close> is the value of an unsigned byte.\<close>

lemma spread_byte:
  fixes c :: "32 word"
  assumes "c < 256" "k < 8"
  defines "v \<equiv> scast c :: 64 word"
  defines "v1 \<equiv> v OR push_bit 8 v"
  defines "v2 \<equiv> v1 OR push_bit 16 v1"
  defines "v3 \<equiv> v2 OR push_bit 32 v2"
  shows "ucast (drop_bit (8 * k) v3) = (ucast c :: 8 word)"
proof -
  have "unat c < 2 ^ 8" using assms(1) by (simp add: word_less_nat_alt)
  then have hi: "\<not> bit c i" if "8 \<le> i" for i using nat_bit_small [of "unat c" 8 i] that by (simp add: bit_simps)
  have v: "bit v i \<longleftrightarrow> i < 8 \<and> bit c i" for i
    using hi [of i] hi [of 31] unfolding v_def by (cases "i < 8") (auto simp: bit_simps not_less min_def split: if_splits)
  have "bit v3 (8 * k + j) \<longleftrightarrow> bit c j" if "j < 8" for j
  proof -
    have "k \<in> {0,1,2,3,4,5,6,7}" using assms(2) by auto
    then show ?thesis using that by (elim insertE; simp add: v3_def v2_def v1_def bit_simps v)
  qed
  then show ?thesis by (intro bit_word_eqI) (simp add: bit_simps)
qed

lemma memset_filled:
  assumes "c < 256"
  shows "internal_memset m s c n = filled m s (ucast c) n"
proof (cases "s mod 16 = 0 \<and> n mod 16 = 0")
  case True
  then show ?thesis using spread_byte [OF assms, of "(_ - s) mod 8"] by (auto simp: memset_words filled_def fun_eq_iff)
next
  case False
  then show ?thesis unfolding internal_memset_def by (auto simp: fill_loop)
qed

text \<open>
  On aligned blocks the fast path does not reduce \<open>c\<close> to a byte first: the sign bits of a negative character fill all bytes
  of the word but the lowest.
\<close>

lemma spread_negative:
  fixes b :: "8 word"
  assumes "bit b 7" "k < 8"
  defines "v \<equiv> scast (scast b :: 32 word) :: 64 word"
  defines "v1 \<equiv> v OR push_bit 8 v"
  defines "v2 \<equiv> v1 OR push_bit 16 v1"
  defines "v3 \<equiv> v2 OR push_bit 32 v2"
  shows "ucast (drop_bit (8 * k) v3) = (if k = 0 then b else 0xFF)"
proof -
  have v: "bit v i \<longleftrightarrow> i < 64 \<and> (i < 8 \<longrightarrow> bit b i)" for i
    using assms(1) unfolding v_def by (cases "i < 7"; cases "i = 7") (auto simp: bit_simps min_def split: if_splits)
  have "bit v3 (8 * k + j) \<longleftrightarrow> (k = 0 \<longrightarrow> bit b j)" if "j < 8" for j
  proof -
    have "k \<in> {0,1,2,3,4,5,6,7}" using assms(2) by auto
    then show ?thesis using that by (elim insertE; simp add: v3_def v2_def v1_def bit_simps v)
  qed
  moreover have "bit (0xFF :: 8 word) j" if "j < 8" for j
  proof -
    have "j \<in> {0,1,2,3,4,5,6,7}" using that by auto
    then show ?thesis by (elim insertE) simp_all
  qed
  ultimately show ?thesis by (intro bit_word_eqI) (simp add: bit_simps)
qed

lemma memset_negative:
  fixes b :: "8 word"
  assumes "sint b < 0"
  shows "internal_memset m s (scast b) n = (\<lambda>a. if s \<le> a \<and> a < s + n then
    (if s mod 16 = 0 \<and> n mod 16 = 0 \<and> (a - s) mod 8 \<noteq> 0 then 0xFF else b) else m a)"
proof (cases "s mod 16 = 0 \<and> n mod 16 = 0")
  case True
  moreover have "bit b 7" using assms bit_last_iff [of b] by simp
  ultimately show ?thesis using spread_negative [of b "(_ - s) mod 8"] by (auto simp: memset_words fun_eq_iff)
next
  case False
  have "(ucast (scast b :: 32 word) :: 8 word) = b" by (intro bit_word_eqI) (auto simp: bit_simps)
  then show ?thesis using False unfolding internal_memset_def by (auto simp: fill_loop filled_def)
qed

section \<open>Searching\<close>

lemma memchr_first:
  "case internal_memchr m t c n of
     None \<Rightarrow> \<forall>i<n. scast (m (t + i)) \<noteq> c
   | Some p \<Rightarrow> \<exists>i<n. p = t + i \<and> scast (m p) = c \<and> (\<forall>j<i. scast (m (t + j)) \<noteq> c)"
proof (induction n arbitrary: t)
  case (Suc n)
  show ?case
  proof (cases "scast (m t) = c")
    case False
    then show ?thesis using Suc [of "t + 1"]
      by (auto split: option.splits simp: less_Suc_eq_0_disj)
  qed simp
qed simp

lemma memrchr_loop_last:
  "case memrchr_loop m t c n r of
     None \<Rightarrow> r = None \<and> (\<forall>i<n. scast (m (t + i)) \<noteq> c)
   | Some p \<Rightarrow> r = Some p \<and> (\<forall>i<n. scast (m (t + i)) \<noteq> c) \<or> (\<exists>i<n. p = t + i \<and> scast (m p) = c \<and> (\<forall>j<n. i < j \<longrightarrow> scast (m (t + j)) \<noteq> c))"
proof (induction n arbitrary: t r)
  case (Suc n)
  show ?case using Suc [of "if scast (m t) = c then Some t else r" "t + 1"]
    by (auto split: option.splits if_splits simp: less_Suc_eq_0_disj)
qed (simp split: option.split)

lemma memcmp_zero: "internal_memcmp m p q n = 0 \<longleftrightarrow> (\<forall>i<n. m (p + i) = m (q + i))"
  by (induction n arbitrary: p q) (auto simp: less_Suc_eq_0_disj)

section \<open>Terminated strings\<close>

text \<open>\<open>cstr m s xs\<close>: at \<open>s\<close> stand the nonzero characters \<open>xs\<close> and the terminator.\<close>

fun cstr :: "mem \<Rightarrow> nat \<Rightarrow> 8 word list \<Rightarrow> bool" where
  "cstr m s [] \<longleftrightarrow> m s = 0"
| "cstr m s (x # xs) \<longleftrightarrow> x \<noteq> 0 \<and> m s = x \<and> cstr m (s + 1) xs"

lemma cstr_iff: "cstr m s xs \<longleftrightarrow> (\<forall>i<length xs. m (s + i) = xs ! i) \<and> 0 \<notin> set xs \<and> m (s + length xs) = 0"
  by (induction xs arbitrary: s) (auto simp: less_Suc_eq_0_disj)

lemma cstr_shift:
  assumes "cstr m s xs" "\<not> i < k" "i < k + length xs"
  shows "m (s + i - k) = xs ! (i - k)"
proof -
  have "i - k < length xs" "s + i - k = s + (i - k)" using assms(2,3) by linarith+
  then show ?thesis using assms(1) by (simp add: cstr_iff)
qed

lemma strlen_loop_cstr: "cstr m (s + i) xs \<Longrightarrow> strlen_loop m s i = Some (i + length xs)"
  by (induction xs arbitrary: i) (subst strlen_loop.simps, simp)+

lemma strlen_cstr: "cstr m s xs \<Longrightarrow> internal_strlen m s = Some (length xs)"
  using strlen_loop_cstr [of m s 0 xs] by (simp add: internal_strlen_def)

lemma strnlen_loop_min: "cstr m (s + i) xs \<Longrightarrow> strnlen_loop m s k i = i + min k (length xs)"
proof (induction k arbitrary: i xs)
  case (Suc k)
  then show ?case using Suc.IH [of "i + 1" "tl xs"] by (cases xs) simp_all
qed simp

lemma strnlen_min: "cstr m s xs \<Longrightarrow> internal_strnlen m s n = min n (length xs)"
  using strnlen_loop_min [of m s 0 xs n] by (simp add: internal_strnlen_def)

lemma strchr_cstr:
  "cstr m s xs \<Longrightarrow> internal_strchr m s c =
    Some (if ucast c \<in> insert 0 (set xs) then Some (s + length (takeWhile (\<lambda>x. x \<noteq> ucast c) xs)) else None)"
  by (induction xs arbitrary: s) (subst internal_strchr.simps, auto)+

lemma strchrnul_cstr: "cstr m s xs \<Longrightarrow> internal_strchrnul m s c = Some (s + length (takeWhile (\<lambda>x. x \<noteq> ucast c) xs))"
proof (cases "ucast c \<in> insert 0 (set xs)")
  case False
  then have "length (takeWhile (\<lambda>x. x \<noteq> ucast c) xs) = length xs"
    by (subst takeWhile_eq_all_conv [THEN iffD2]) auto
  then show "cstr m s xs \<Longrightarrow> ?thesis" using False by (simp add: internal_strchrnul_def strchr_cstr strlen_cstr)
qed (simp add: internal_strchrnul_def strchr_cstr)

lemma strcspn_loop_cstr:
  assumes "cstr m reject rs" "cstr m (s + i) xs"
  shows "strcspn_loop m s reject i = Some (i + length (takeWhile (\<lambda>x. x \<notin> set rs) xs))"
  using assms(2)
proof (induction xs arbitrary: i)
  case (Cons x xs)
  have "(ucast (scast x :: 32 word) :: 8 word) = x" by (intro bit_word_eqI) (simp add: bit_simps)
  then show ?case using Cons assms(1) by (subst strcspn_loop.simps) (simp add: strchr_cstr)
qed (subst strcspn_loop.simps, simp)

lemma strcspn_cstr: "cstr m reject rs \<Longrightarrow> cstr m s xs \<Longrightarrow> internal_strcspn m s reject = Some (length (takeWhile (\<lambda>x. x \<notin> set rs) xs))"
  using strcspn_loop_cstr [of m reject rs s 0 xs] by (simp add: internal_strcspn_def)

text \<open>The order of strings of unsigned characters.\<close>

fun str_order :: "8 word list \<Rightarrow> 8 word list \<Rightarrow> int" where
  "str_order [] [] = 0"
| "str_order [] (y # ys) = - 1"
| "str_order (x # xs) [] = 1"
| "str_order (x # xs) (y # ys) = (if x = y then str_order xs ys else if x < y then - 1 else 1)"

lemma str_order_0: "str_order xs ys = 0 \<longleftrightarrow> xs = ys"
  by (induction xs ys rule: str_order.induct) auto

lemma str_order_range: "str_order xs ys \<in> {- 1, 0, 1}"
  by (induction xs ys rule: str_order.induct) auto

lemma str_order_less: "str_order xs ys = - 1 \<longleftrightarrow> (xs, ys) \<in> lexord {(a, b). a < b}"
  by (induction xs ys rule: str_order.induct) auto

lemma sint_8: "sint (a :: 8 word) = uint a - (if 128 \<le> uint a then 256 else 0)"
proof (cases "128 \<le> uint a")
  case True
  have "uint a < 256" using uint_bounded [of a] by simp
  moreover from this True have "uint a div 128 = 1" by (simp add: int_div_pos_eq [of _ _ _ "uint a - 128"])
  ultimately show ?thesis using True by (simp add: sint_uint signed_take_bit_eq_take_bit_minus take_bit_int_eq_self bit_iff_odd)
next
  case False
  then show ?thesis by (simp add: sint_uint signed_take_bit_eq_take_bit_minus take_bit_int_eq_self bit_iff_odd)
qed

lemma uint_scast_8_32: "uint (scast (a :: 8 word) :: 32 word) = uint a + (if 128 \<le> uint a then 2 ^ 32 - 256 else 0)"
proof -
  have b: "0 \<le> uint a" "uint a < 256" using uint_bounded [of a] by simp_all
  have "uint (scast a :: 32 word) = sint a mod 2 ^ 32" by (simp only: scast_eq uint_word_of_int len_num1) simp
  moreover have "(uint a - 256) mod 2 ^ 32 = uint a - 256 + 2 ^ 32"
    using b mod_add_self2 [of "uint a - 256" "2 ^ 32 :: int"] mod_pos_pos_trivial [of "uint a - 256 + 2 ^ 32" "2 ^ 32"] by simp
  moreover have "uint a mod 2 ^ 32 = uint a" using b by simp
  ultimately show ?thesis by (simp add: sint_8 split: if_splits)
qed

lemma scast_less_8_32: "(scast (a :: 8 word) :: 32 word) < scast b \<longleftrightarrow> a < b"
  using uint_bounded [of a] uint_bounded [of b] by (auto simp: word_less_def uint_scast_8_32)

lemma scast_eq_8_32: "(scast (a :: 8 word) :: 32 word) = scast b \<longleftrightarrow> a = b"
  using scast_less_8_32 [of a b] scast_less_8_32 [of b a] by (metis not_less_iff_gr_or_eq)

lemma scast_0_8_32: "(scast (a :: 8 word) :: 32 word) = 0 \<longleftrightarrow> a = 0"
  using scast_eq_8_32 [of a 0] by simp

lemma strcmp_step:
  "internal_strcmp m s1 s2 = (if m s1 \<noteq> m s2 then Some (if m s1 < m s2 then - 1 else 1) else if m s1 = 0 then Some 0 else internal_strcmp m (s1 + 1) (s2 + 1))"
  by (subst internal_strcmp.simps) (simp add: Let_def scast_less_8_32 scast_eq_8_32 scast_0_8_32)

lemma strcmp_order: "cstr m s1 xs \<Longrightarrow> cstr m s2 ys \<Longrightarrow> internal_strcmp m s1 s2 = Some (str_order xs ys)"
proof (induction xs ys arbitrary: s1 s2 rule: str_order.induct)
  case (4 x xs y ys)
  then show ?case by (subst strcmp_step) simp
qed (subst strcmp_step; force simp: word_neq_0_conv)+

lemma strncmp_order: "cstr m s1 xs \<Longrightarrow> cstr m s2 ys \<Longrightarrow> internal_strncmp m s1 s2 n = str_order (take n xs) (take n ys)"
proof (induction n arbitrary: s1 s2 xs ys)
  case (Suc n)
  have "internal_strncmp m s1 s2 (Suc n) = (if m s1 \<noteq> m s2 then (if m s1 < m s2 then - 1 else 1) else if m s1 = 0 then 0 else internal_strncmp m (s1 + 1) (s2 + 1) n)"
    by (simp add: Let_def scast_less_8_32 scast_eq_8_32 scast_0_8_32)
  then show ?case using Suc.IH [of "s1 + 1" "tl xs" "s2 + 1" "tl ys"] Suc.prems
    by (cases xs; cases ys) (auto simp: word_neq_0_conv simp del: internal_strncmp.simps)
qed simp

lemma strrchr_loop_cstr:
  "cstr m (s + i) xs \<Longrightarrow> strrchr_loop m s c i r = Some (memrchr_loop m (s + i) c (length xs) r)"
  by (induction xs arbitrary: i r) (subst strrchr_loop.simps, simp)+

lemma strrchr_cstr: "cstr m s xs \<Longrightarrow> internal_strrchr m s c = Some (internal_memrchr m s c (length xs))"
  using strrchr_loop_cstr [of m s 0 xs] by (simp add: internal_strrchr_def internal_memrchr_def)

lemma strdup_cstr:
  assumes "cstr m s xs" "s2 \<le> s \<or> s + length xs \<le> s2"
  shows "\<exists>m'. internal_strdup m s s2 = Some m' \<and> cstr m' s2 xs \<and> (\<forall>a. a < s2 \<or> s2 + length xs < a \<longrightarrow> m' a = m a)"
  using assms by (auto simp: internal_strdup_def strlen_cstr memcpy_copied cstr_iff copied_def Let_def)

text \<open>The bounded copies return the length they tried to make and write only into the buffer of \<open>maxlen\<close> bytes.\<close>

lemma strlcpy_correct:
  assumes "cstr m src xs" "length xs < 2 ^ 62" "0 < maxlen"
  shows "\<exists>m'. internal_strlcpy m dst src maxlen = Some (length xs, m') \<and> cstr m' dst (take (maxlen - 1) xs) \<and>
    (\<forall>a. a < dst \<or> dst + maxlen \<le> a \<longrightarrow> m' a = m a)"
  using assms by (auto simp: internal_strlcpy_def strlen_cstr memmove_copied cstr_iff copied_def nth_append min_def dest: in_set_takeD)

lemma strlcat_correct:
  assumes "cstr m src xs" "cstr m dst ys" "length xs < 2 ^ 62" "length ys < maxlen"
  shows "\<exists>m'. internal_strlcat m dst src maxlen = Some (length ys + length xs, m') \<and> cstr m' dst (take (maxlen - 1) (ys @ xs)) \<and>
    (\<forall>a. a < dst \<or> dst + maxlen \<le> a \<longrightarrow> m' a = m a)"
proof -
  define m' where "m' = (if length xs < maxlen - length ys then copied m (dst + length ys) src (length xs + 1)
    else (copied m (dst + length ys) src (maxlen - length ys - 1))(dst + maxlen - 1 := 0))"
  have "internal_strlcat m dst src maxlen = Some (length ys + length xs, m')"
    using assms by (auto simp: internal_strlcat_def strlen_cstr strnlen_min memmove_copied m'_def Let_def)
  moreover note cstr_shift [OF assms(1), of _ "length ys"]
  then have "cstr m' dst (take (maxlen - 1) (ys @ xs))"
    using assms by (auto simp: cstr_iff m'_def copied_def nth_append min_def dest: in_set_takeD)
  moreover have "\<forall>a. a < dst \<or> dst + maxlen \<le> a \<longrightarrow> m' a = m a" using assms(4) by (auto simp: m'_def copied_def)
  ultimately show ?thesis by blast
qed

lemma strncpy_loop_correct:
  assumes "cstr m (src + i) xs" "dst + i + k \<le> src + i \<or> src + i + length xs < dst + i"
  shows "strncpy_loop m dst src k i = (i + min k (length xs), copied m (dst + i) (src + i) (min k (length xs)))"
  using assms
proof (induction k arbitrary: m i xs)
  case 0
  then show ?case by (auto simp: copied_def fun_eq_iff)
next
  case (Suc k)
  show ?case
  proof (cases xs)
    case Nil
    then show ?thesis using Suc.prems by (auto simp: copied_def fun_eq_iff)
  next
    case (Cons x ys)
    let ?m = "copy_byte dst src i m"
    have "cstr ?m (src + (i + 1)) ys" using Suc.prems Cons by (auto simp: cstr_iff copy_byte_def)
    then have "strncpy_loop ?m dst src k (i + 1) = (i + 1 + min k (length ys), copied ?m (dst + (i + 1)) (src + (i + 1)) (min k (length ys)))"
      using Suc.IH [of ?m "i + 1" ys] Suc.prems Cons by auto
    moreover have "copied ?m (dst + (i + 1)) (src + (i + 1)) (min k (length ys)) = copied m (dst + i) (src + i) (Suc (min k (length ys)))"
      using Suc.prems(2) Cons by (auto simp: copied_def copy_byte_def fun_eq_iff Suc_diff_Suc)
    ultimately show ?thesis using Suc.prems(1) Cons by simp
  qed
qed

lemma strncat_correct:
  assumes "cstr m dst ys" "cstr m src xs" "dst + length ys + n \<le> src \<or> src + length xs < dst + length ys"
  shows "\<exists>m'. internal_strncat m dst src n = Some m' \<and> cstr m' dst (ys @ take n xs) \<and> (\<forall>a. a < dst + length ys \<or> dst + length ys + n < a \<longrightarrow> m' a = m a)"
proof -
  have "strncpy_loop m (dst + length ys) src n 0 = (min n (length xs), copied m (dst + length ys) src (min n (length xs)))"
    using strncpy_loop_correct [of m src 0 xs "dst + length ys" n] assms(2,3) by simp
  then show ?thesis using assms(1,2) cstr_shift [OF assms(2), of _ "length ys"] by (auto simp: internal_strncat_def strlen_cstr cstr_iff copied_def nth_append dest: in_set_takeD)
qed

text \<open>\<open>strncpy\<close> fills the whole field: the characters, then zeros, with no terminator when there is no room.\<close>

lemma strncpy_correct:
  assumes "cstr m src xs" "dst + n \<le> src \<or> src + length xs < dst"
  shows "internal_strncpy m dst src n = (\<lambda>a. if dst \<le> a \<and> a < dst + n then (if a - dst < length xs then xs ! (a - dst) else 0) else m a)"
proof -
  have "strncpy_loop m dst src n 0 = (min n (length xs), copied m dst src (min n (length xs)))"
    using strncpy_loop_correct [of m src 0 xs dst n] assms by simp
  then show ?thesis using assms(1) by (auto simp: internal_strncpy_def memset_filled filled_def copied_def cstr_iff fun_eq_iff)
qed

lemma strstr_loop_find: "strstr_loop m h p n ps = map_option (\<lambda>i. h + i) (List.find (\<lambda>i. \<forall>j<n. m (h + i + j) = m (p + j)) ps)"
  by (induction ps) (auto simp: memcmp_zero)

lemma cstr_prefix_at:
  assumes "cstr m h xs" "cstr m p ys" "i + length ys \<le> length xs"
  shows "(\<forall>j<length ys. m (h + i + j) = m (p + j)) \<longleftrightarrow> prefix ys (drop i xs)"
proof -
  have "prefix ys (drop i xs) \<longleftrightarrow> take (length ys) (drop i xs) = ys"
    by (metis append_eq_conv_conj append_take_drop_id prefix_def)
  then show ?thesis using assms by (auto simp: cstr_iff list_eq_iff_nth_eq add.assoc)
qed

lemma strstr_correct:
  assumes h: "cstr m h xs" and p: "cstr m p ys"
  shows "\<exists>r. internal_strstr m h p = Some r \<and>
    (case r of None \<Rightarrow> \<forall>i. \<not> prefix ys (drop i xs)
     | Some q \<Rightarrow> \<exists>i. q = h + i \<and> prefix ys (drop i xs) \<and> (\<forall>i'<i. \<not> prefix ys (drop i' xs)))"
proof (cases "length xs < length ys")
  case True
  then have "\<not> prefix ys (drop i xs)" for i by (auto dest: prefix_length_le)
  then show ?thesis using h p True by (simp add: internal_strstr_def strlen_cstr)
next
  case False
  let ?ps = "[0..<length xs - length ys + 1]"
  have at: "(\<forall>j<length ys. m (h + i + j) = m (p + j)) \<longleftrightarrow> prefix ys (drop i xs)" if "i \<in> set ?ps" for i
    using cstr_prefix_at [OF h p, of i] that False by auto
  have "List.find (\<lambda>i. \<forall>j<length ys. m (h + i + j) = m (p + j)) ?ps = List.find (\<lambda>i. prefix ys (drop i xs)) ?ps"
    by (rule find_cong) (use at in auto)
  then have r: "internal_strstr m h p = Some (map_option (\<lambda>i. h + i) (List.find (\<lambda>i. prefix ys (drop i xs)) ?ps))"
    using h p False by (simp add: internal_strstr_def strlen_cstr strstr_loop_find)
  show ?thesis
  proof (cases "List.find (\<lambda>i. prefix ys (drop i xs)) ?ps")
    case None
    then have none: "\<not> prefix ys (drop i xs)" if "i \<in> set ?ps" for i using that by (metis find_None_iff)
    have ne: "ys \<noteq> []" using none [of 0] by auto
    have "\<not> prefix ys (drop i xs)" for i
    proof (cases "i \<in> set ?ps")
      case False
      then have "length xs - i < length ys" using ne by (cases ys) auto
      then show ?thesis using prefix_length_le [of ys "drop i xs"] by auto
    qed (rule none)
    then show ?thesis using r None by simp
  next
    case (Some i)
    then have "prefix ys (drop i xs)" "\<forall>i'<i. \<not> prefix ys (drop i' xs)" by (auto simp: find_Some_iff simp del: upt_Suc)
    then show ?thesis using r Some by auto
  qed
qed

end
