(* ===== verification/San_Numbers.thy ===== *)
theory San_Numbers
  imports San_Libc
begin

text \<open>
  The rest of \<open>sanitizer_libc.cpp\<close>: the conversion of decimal strings, which saturates at the bounds of a 64-bit
  integer, and the test for a block of zeros, which reads the aligned middle of the block by words.
\<close>

unbundle bit_operations_syntax

section \<open>The code\<close>

definition IsSpace :: "32 word \<Rightarrow> bool" where
  "IsSpace c \<longleftrightarrow> c = 32 \<or> c = 10 \<or> c = 9 \<or> c = 12 \<or> c = 13 \<or> c = 11"

definition IsDigit :: "32 word \<Rightarrow> bool" where
  "IsDigit c \<longleftrightarrow> 48 \<le>s c \<and> c \<le>s 57"

partial_function (option) skip_space :: "mem \<Rightarrow> nat \<Rightarrow> nat option" where
  "skip_space m p = (if IsSpace (scast (m p)) then skip_space m (p + 1) else Some p)"

definition add_digit :: "64 word \<Rightarrow> 8 word \<Rightarrow> 64 word" where
  "add_digit res c = (
     let res = (if res \<le> (- 1) div 10 then res * 10 else - 1);
         digit = scast c - 48 :: 32 word
     in if res \<le> - 1 - scast digit then res + scast digit else - 1)"

partial_function (option) digits_loop :: "mem \<Rightarrow> nat \<Rightarrow> 64 word \<Rightarrow> bool \<Rightarrow> (nat \<times> 64 word \<times> bool) option" where
  "digits_loop m p res have_digits =
    (if IsDigit (scast (m p)) then digits_loop m (p + 1) (add_digit res (m p)) True else Some (p, res, have_digits))"

text \<open>The value and the pointer for \<open>endptr\<close>.\<close>

definition internal_simple_strtoll :: "mem \<Rightarrow> nat \<Rightarrow> nat \<Rightarrow> (64 word \<times> nat) option" where
  "internal_simple_strtoll m nptr base = do {
     CHECK (base = 10);
     nptr \<leftarrow> skip_space m nptr;
     let (pos, q) = (if m nptr = 43 then (True, nptr + 1) else if m nptr = 45 then (False, nptr + 1) else (True, nptr));
     (q, res, have_digits) \<leftarrow> digits_loop m q 0 False;
     Some (if pos then min 0x7FFFFFFFFFFFFFFF res else if res > 0x7FFFFFFFFFFFFFFF then 0x8000000000000000 else res * - 1,
       if have_digits then q else nptr) }"

definition internal_atoll :: "mem \<Rightarrow> nat \<Rightarrow> 64 word option" where
  "internal_atoll m nptr = map_option fst (internal_simple_strtoll m nptr 10)"

definition IsPowerOfTwo :: "64 word \<Rightarrow> bool" where
  "IsPowerOfTwo x \<longleftrightarrow> x AND (x - 1) = 0"

definition RoundUpTo :: "64 word \<Rightarrow> 64 word \<Rightarrow> 64 word option" where
  "RoundUpTo sz boundary = do { CHECK (IsPowerOfTwo boundary); Some ((sz + boundary - 1) AND NOT (boundary - 1)) }"

definition RoundDownTo :: "64 word \<Rightarrow> 64 word \<Rightarrow> 64 word" where
  "RoundDownTo x boundary = x AND NOT (boundary - 1)"

definition or_bytes :: "mem \<Rightarrow> nat \<Rightarrow> 64 word \<Rightarrow> 64 word" where
  "or_bytes m a all = all OR scast (m a)"

definition mem_is_zero :: "mem \<Rightarrow> nat \<Rightarrow> nat \<Rightarrow> bool option" where
  "mem_is_zero m beg sz = do {
     CHECK (sz \<le> 2 ^ 40);
     let end = beg + sz;
     aligned_beg \<leftarrow> map_option unat (RoundUpTo (of_nat beg) 8);
     let aligned_end = unat (RoundDownTo (of_nat end) 8);
     let all = fold (or_bytes m) [beg..<min aligned_beg end] 0;
     let all = fold (\<lambda>j all. all OR load64 m (aligned_beg + 8 * j)) [0..<(aligned_end - aligned_beg) div 8] all;
     let all = (if aligned_end \<ge> beg then fold (or_bytes m) [aligned_end..<end] all else all);
     Some (all = 0) }"

declare skip_space.simps [code] digits_loop.simps [code]

section \<open>Decimal strings\<close>

text \<open>The value of a list of digits, and the bounds of \<open>s64\<close>.\<close>

definition digits_value :: "8 word list \<Rightarrow> int" where
  "digits_value ds = foldl (\<lambda>v d. 10 * v + (uint d - 48)) 0 ds"

definition clamp_s64 :: "int \<Rightarrow> int" where
  "clamp_s64 v = max (- (2 ^ 63)) (min (2 ^ 63 - 1) v)"

definition is_space :: "8 word \<Rightarrow> bool" where
  "is_space c \<longleftrightarrow> c \<in> {32, 10, 9, 12, 13, 11}"

definition is_digit :: "8 word \<Rightarrow> bool" where
  "is_digit c \<longleftrightarrow> 48 \<le> c \<and> c \<le> 57"

lemma IsSpace_char: "IsSpace (scast c) \<longleftrightarrow> is_space c"
  using scast_eq_8_32 [of c 32] scast_eq_8_32 [of c 10] scast_eq_8_32 [of c 9] scast_eq_8_32 [of c 12] scast_eq_8_32 [of c 13] scast_eq_8_32 [of c 11]
  by (simp add: IsSpace_def is_space_def)

lemma IsDigit_char: "IsDigit (scast c) \<longleftrightarrow> is_digit c"
proof -
  have "sint (scast c :: 32 word) = sint c" by (rule sint_up_scast) (simp add: is_up)
  then show ?thesis using uint_bounded [of c] by (auto simp: IsDigit_def is_digit_def word_sle_eq sint_8 word_le_def)
qed

lemma digit_cases:
  assumes "is_digit c"
  obtains "c = 48" | "c = 49" | "c = 50" | "c = 51" | "c = 52" | "c = 53" | "c = 54" | "c = 55" | "c = 56" | "c = 57"
proof -
  have "uint c = 48 \<or> uint c = 49 \<or> uint c = 50 \<or> uint c = 51 \<or> uint c = 52 \<or> uint c = 53 \<or> uint c = 54 \<or> uint c = 55 \<or> uint c = 56 \<or> uint c = 57"
    using assms by (simp add: is_digit_def word_le_def) presburger
  then show ?thesis by (elim disjE) (rule that, simp add: word_uint_eq_iff)+
qed

text \<open>One round of the loop adds a digit and saturates at \<open>UINT64_MAX\<close>.\<close>

lemma add_digit_saturates: "is_digit c \<Longrightarrow> uint (add_digit r c) = min (2 ^ 64 - 1) (10 * uint r + (uint c - 48))"
  using uint_bounded [of r]
  by (erule_tac digit_cases) (auto simp: add_digit_def Let_def word_le_def uint_word_ariths mod_pos_pos_trivial)

fun text_at :: "mem \<Rightarrow> nat \<Rightarrow> 8 word list \<Rightarrow> bool" where
  "text_at m p [] \<longleftrightarrow> True"
| "text_at m p (x # xs) \<longleftrightarrow> m p = x \<and> text_at m (p + 1) xs"

lemma text_at_append: "text_at m p (xs @ ys) \<longleftrightarrow> text_at m p xs \<and> text_at m (p + length xs) ys"
  by (induction xs arbitrary: p) simp_all

lemma skip_space_stops:
  "text_at m p xs \<Longrightarrow> \<forall>x\<in>set xs. is_space x \<Longrightarrow> \<not> is_space (m (p + length xs)) \<Longrightarrow> skip_space m p = Some (p + length xs)"
  by (induction xs arbitrary: p) (subst skip_space.simps, simp add: IsSpace_char)+

lemma digits_loop_value:
  assumes "text_at m p ds" "\<forall>x\<in>set ds. is_digit x" "\<not> is_digit (m (p + length ds))" "uint r = min (2 ^ 64 - 1) v" "0 \<le> v"
  shows "\<exists>r'. digits_loop m p r h = Some (p + length ds, r', h \<or> ds \<noteq> []) \<and>
    uint r' = min (2 ^ 64 - 1) (foldl (\<lambda>v d. 10 * v + (uint d - 48)) v ds)"
  using assms
proof (induction ds arbitrary: p r v h)
  case Nil
  then show ?case by (subst digits_loop.simps) (simp add: IsDigit_char)
next
  case (Cons d ds)
  have d: "is_digit d" "0 \<le> uint d - 48" using Cons.prems(2) by (simp_all add: is_digit_def word_le_def)
  have "uint (add_digit r d) = min (2 ^ 64 - 1) (10 * v + (uint d - 48))"
    using add_digit_saturates [OF d(1), of r] Cons.prems(4,5) d(2) by auto
  then have "\<exists>r'. digits_loop m (p + 1) (add_digit r d) True = Some (p + 1 + length ds, r', True \<or> ds \<noteq> []) \<and>
      uint r' = min (2 ^ 64 - 1) (foldl (\<lambda>v d. 10 * v + (uint d - 48)) (10 * v + (uint d - 48)) ds)"
    using Cons.prems d(2) by (intro Cons.IH) auto
  then show ?case using Cons.prems(1) d(1) by (subst digits_loop.simps) (simp add: IsDigit_char)
qed

lemma digits_value_nonneg: "\<forall>x\<in>set ds. is_digit x \<Longrightarrow> 0 \<le> digits_value ds"
proof -
  have "0 \<le> v \<Longrightarrow> \<forall>x\<in>set ds. is_digit x \<Longrightarrow> 0 \<le> foldl (\<lambda>v d. 10 * v + (uint d - 48)) v ds" for v
    by (induction ds arbitrary: v) (auto simp: is_digit_def word_le_def)
  then show "\<forall>x\<in>set ds. is_digit x \<Longrightarrow> 0 \<le> digits_value ds" by (simp add: digits_value_def)
qed

lemma sint_64_small: "uint (w :: 64 word) < 2 ^ 63 \<Longrightarrow> sint w = uint w"
  using signed_take_bit_int_eq_self [of 63 "uint w"] order_trans [OF _ uint_ge_0, of "- (2 ^ 63)" w] by (simp add: sint_uint)

lemma sint_64_neg: "uint (w :: 64 word) < 2 ^ 63 \<Longrightarrow> sint (w * - 1) = - uint w"
  using sint_64_small [of w] signed_take_bit_int_eq_self [of 63 "- uint w"] le_less_trans [of "- uint w" 0 "2 ^ 63"] by (simp add: sint_word_minus)

theorem strtoll_correct:
  assumes tx: "text_at m p (sp @ sg @ ds)" and sp: "\<forall>x\<in>set sp. is_space x" and sg: "sg \<in> {[], [43], [45]}"
    and ds: "ds \<noteq> []" "\<forall>x\<in>set ds. is_digit x" and stop: "\<not> is_digit (m (p + length (sp @ sg @ ds)))"
  shows "\<exists>r. internal_simple_strtoll m p 10 = Some (r, p + length (sp @ sg @ ds)) \<and>
    sint r = clamp_s64 (if sg = [45] then - digits_value ds else digits_value ds)"
proof -
  let ?q = "p + length sp" and ?v = "digits_value ds"
  obtain d ds' where ds': "ds = d # ds'" using ds(1) by (cases ds) auto
  have d: "is_digit d" using ds(2) ds' by simp
  have nsp: "\<not> is_space x" "x \<noteq> 43" "x \<noteq> 45" if "is_digit x" for x
    using that by (auto simp: is_digit_def is_space_def word_le_def)
  have hd: "m ?q = hd (sg @ ds)" "text_at m (?q + length sg) ds" using tx ds' by (cases sg; simp add: text_at_append)+
  have "\<not> is_space (m ?q)" using hd(1) sg nsp [OF d] ds' by (auto simp: is_space_def)
  then have skip: "skip_space m p = Some ?q" using skip_space_stops [of m p sp] tx sp by (simp add: text_at_append)
  obtain r where r: "digits_loop m (?q + length sg) 0 False = Some (?q + length sg + length ds, r, True)" "uint r = min (2 ^ 64 - 1) ?v"
    using digits_loop_value [OF hd(2) ds(2), of 0 0 False] stop ds(1) by (auto simp: digits_value_def add.assoc)
  note v = digits_value_nonneg [OF ds(2)]
  have pos: "sint (min 0x7FFFFFFFFFFFFFFF r) = clamp_s64 ?v"
  proof -
    have u: "uint (min 0x7FFFFFFFFFFFFFFF r) = min (2 ^ 63 - 1) (uint r)" by (auto simp: min_def word_le_def)
    then show ?thesis using v sint_64_small [of "min 0x7FFFFFFFFFFFFFFF r"] by (auto simp: r(2) clamp_s64_def)
  qed
  have neg: "sint (if r > 0x7FFFFFFFFFFFFFFF then 0x8000000000000000 else r * - 1) = clamp_s64 (- ?v)"
  proof (cases "r > 0x7FFFFFFFFFFFFFFF")
    case True
    then have "?v \<ge> 2 ^ 63" using r(2) by (auto simp: word_less_def)
    then show ?thesis using True by (simp add: clamp_s64_def)
  next
    case False
    then have "uint r < 2 ^ 63" by (auto simp: word_less_def)
    then show ?thesis using False r(2) v sint_64_neg [of r] by (auto simp: clamp_s64_def)
  qed
  show ?thesis
    using skip r(1) hd(1) pos neg sg nsp [OF d] ds' by (auto simp: internal_simple_strtoll_def)
qed

section \<open>Blocks of zeros\<close>

lemma scast_0_8_64: "(scast (a :: 8 word) :: 64 word) = 0 \<longleftrightarrow> a = 0"
proof -
  have "ucast (scast a :: 64 word) = a" by (intro bit_word_eqI) (simp add: bit_simps)
  then show ?thesis by (metis scast_0 ucast_0)
qed

lemma or_fold_zero: "fold (\<lambda>a v. v OR f a) xs v = (0 :: 64 word) \<longleftrightarrow> v = 0 \<and> (\<forall>a\<in>set xs. f a = 0)"
  by (induction xs arbitrary: v) (auto simp: or_eq_0_iff)

lemma or_bytes_zero: "fold (or_bytes m) xs v = 0 \<longleftrightarrow> v = 0 \<and> (\<forall>a\<in>set xs. m a = 0)"
proof -
  have "or_bytes m = (\<lambda>a v. v OR scast (m a))" by (simp add: fun_eq_iff or_bytes_def)
  then show ?thesis by (simp add: or_fold_zero scast_0_8_64)
qed

lemma byte_at_zero: "k < 8 \<Longrightarrow> push_bit (8 * k) (ucast (b :: 8 word) :: 64 word) = 0 \<longleftrightarrow> b = 0"
proof
  assume k: "k < 8" and z: "push_bit (8 * k) (ucast b :: 64 word) = 0"
  have "\<not> bit b n" if "n < 8" for n
  proof -
    have "\<not> bit (push_bit (8 * k) (ucast b :: 64 word)) (8 * k + n)" unfolding z by simp
    then show ?thesis using k that by (simp add: bit_simps)
  qed
  then show "b = 0" by (intro bit_word_eqI) simp
qed simp

lemma load64_zero: "load64 m p = 0 \<longleftrightarrow> (\<forall>k<8. m (p + k) = 0)"
  unfolding load64_def or_fold_zero using byte_at_zero by (auto simp del: upt_rec_numeral)

lemma unat_and_minus_8: "unat (x AND - 8 :: 64 word) = unat x div 8 * 8"
proof -
  have m: "(- 8 :: 64 word) = NOT (mask 3)" by (simp add: mask_eq_exp_minus_1)
  have "x AND - 8 = push_bit 3 (drop_bit 3 x)"
    unfolding m by (intro bit_word_eqI) (auto simp: bit_simps)
  moreover have "unat x div 8 * 8 < 2 ^ LENGTH(64)" by (rule le_less_trans [OF div_times_less_eq_dividend unsigned_less])
  ultimately show ?thesis by (simp add: unat_push_bit unat_drop_bit_div)
qed

lemma RoundTo_8:
  assumes "a + 8 \<le> 2 ^ 64"
  shows "unat (RoundDownTo (of_nat a) 8) = a div 8 * 8" "map_option unat (RoundUpTo (of_nat a) 8) = Some ((a + 7) div 8 * 8)"
proof -
  have u: "unat (of_nat a :: 64 word) = a" "unat (of_nat a + 7 :: 64 word) = a + 7"
    using assms of_nat_inverse [of a, where ?'a = 64] of_nat_inverse [of "a + 7", where ?'a = 64] by simp_all
  show "unat (RoundDownTo (of_nat a) 8) = a div 8 * 8" by (simp add: RoundDownTo_def unat_and_minus_8 u)
  show "map_option unat (RoundUpTo (of_nat a) 8) = Some ((a + 7) div 8 * 8)"
    using unat_and_minus_8 [of "of_nat a + 7"] by (simp add: RoundUpTo_def IsPowerOfTwo_def u) (simp add: add.commute)
qed

lemma mem_is_zero_correct:
  assumes n: "n \<le> 2 ^ 40" and a: "a + n + 8 \<le> 2 ^ 64"
  shows "mem_is_zero m a n = Some (\<forall>i<n. m (a + i) = 0)"
proof -
  define ab where "ab = (a + 7) div 8 * 8"
  define ae where "ae = (a + n) div 8 * 8"
  have r: "a \<le> ab" "ab < a + 8" "ae \<le> a + n" "a + n < ae + 8" unfolding ab_def ae_def by linarith+
  have up: "map_option unat (RoundUpTo (of_nat a) 8) = Some ab" and down: "unat (RoundDownTo (of_nat (a + n)) 8) = ae"
    using RoundTo_8(2) [of a] RoundTo_8(1) [of "a + n"] a by (simp_all add: ab_def ae_def)
  obtain x y where xy: "ab = 8 * x" "ae = 8 * y" by (simp add: ab_def ae_def mult.commute)
  then have q: "(ae - ab) div 8 = y - x" by (simp flip: diff_mult_distrib2)
  have words: "(\<forall>j\<in>set [0..<(ae - ab) div 8]. load64 m (ab + 8 * j) = 0) \<longleftrightarrow> (\<forall>i\<in>{ab..<ae}. m i = 0)"
  proof
    assume l: "\<forall>j\<in>set [0..<(ae - ab) div 8]. load64 m (ab + 8 * j) = 0"
    show "\<forall>i\<in>{ab..<ae}. m i = 0"
    proof
      fix i
      assume i: "i \<in> {ab..<ae}"
      let ?j = "(i - ab) div 8"
      have "?j < (ae - ab) div 8" using i unfolding q by (intro less_mult_imp_div_less) (auto simp: xy)
      then have "load64 m (ab + 8 * ?j) = 0" using l by simp
      then have "m (ab + 8 * ?j + (i - ab) mod 8) = 0" unfolding load64_zero by (rule allE [of _ "(i - ab) mod 8"]) simp
      moreover have "ab + 8 * ?j + (i - ab) mod 8 = i" using i mult_div_mod_eq [of 8 "i - ab"] unfolding add.assoc by auto
      ultimately show "m i = 0" by (simp only:)
    qed
  next
    assume z: "\<forall>i\<in>{ab..<ae}. m i = 0"
    have "ab + 8 * j + k < ae" if "j < (ae - ab) div 8" "k < 8" for j k using that xy unfolding q by linarith
    then show "\<forall>j\<in>set [0..<(ae - ab) div 8]. load64 m (ab + 8 * j) = 0" using z by (auto simp: load64_zero)
  qed
  have "mem_is_zero m a n = Some ((\<forall>i\<in>{a..<min ab (a + n)}. m i = 0) \<and> (\<forall>i\<in>{ab..<ae}. m i = 0) \<and> (ae \<ge> a \<longrightarrow> (\<forall>i\<in>{ae..<a + n}. m i = 0)))"
    unfolding mem_is_zero_def Let_def up down using n words by (simp add: or_bytes_zero or_fold_zero)
  also have "(\<forall>i\<in>{a..<min ab (a + n)}. m i = 0) \<and> (\<forall>i\<in>{ab..<ae}. m i = 0) \<and> (ae \<ge> a \<longrightarrow> (\<forall>i\<in>{ae..<a + n}. m i = 0)) \<longleftrightarrow> (\<forall>i\<in>{a..<a + n}. m i = 0)"
  proof -
    have "a + n \<le> ab" if "ae < ab"
    proof -
      have "y + 1 \<le> x" using that xy by simp
      then show ?thesis using r(4) xy by linarith
    qed
    then have "{a..<min ab (a + n)} \<union> {ab..<ae} \<union> (if a \<le> ae then {ae..<a + n} else {}) = {a..<a + n}" using r by (auto split: if_splits)
    then show ?thesis by (auto split: if_splits)
  qed
  also have "\<dots> \<longleftrightarrow> (\<forall>i<n. m (a + i) = 0)"
    by (metis add_less_cancel_left atLeastLessThan_iff le_add1 le_iff_add)
  finally show ?thesis .
qed

end
