(* ===== verification/San_List.thy ===== *)
theory San_List
  imports San_Prelude
begin

text \<open>
  \<open>sanitizer_list.h\<close>: \<open>IntrusiveList\<close>, a singly linked list through the field \<open>next\<close> of its items. Items are
  addresses, zero is the null pointer, and the fields \<open>next\<close> are one store \<open>links\<close> that every operation on a
  list may change. \<open>il_list\<close> relates a list object and the store to the sequence of its items; the lemmas show that
  each operation is the operation on sequences and leaves the links of all other items alone. The size is a
  natural number: it is at most the number of items in memory.
\<close>

type_synonym links = "nat \<Rightarrow> nat"

record IntrusiveList =
  il_size :: nat
  il_first :: nat
  il_last :: nat

section \<open>The code\<close>

definition il_clear :: IntrusiveList where
  "il_clear = \<lparr>il_size = 0, il_first = 0, il_last = 0\<rparr>"

definition il_empty :: "IntrusiveList \<Rightarrow> bool" where
  "il_empty l \<longleftrightarrow> il_size l = 0"

definition il_push_back :: "links \<Rightarrow> IntrusiveList \<Rightarrow> nat \<Rightarrow> links \<times> IntrusiveList" where
  "il_push_back h l x =
    (if il_empty l then (h(x := 0), l\<lparr>il_first := x, il_last := x, il_size := 1\<rparr>)
     else (h(x := 0, il_last l := x), l\<lparr>il_last := x, il_size := il_size l + 1\<rparr>))"

definition il_push_front :: "links \<Rightarrow> IntrusiveList \<Rightarrow> nat \<Rightarrow> links \<times> IntrusiveList" where
  "il_push_front h l x =
    (if il_empty l then (h(x := 0), l\<lparr>il_first := x, il_last := x, il_size := 1\<rparr>)
     else (h(x := il_first l), l\<lparr>il_first := x, il_size := il_size l + 1\<rparr>))"

definition il_pop_front :: "links \<Rightarrow> IntrusiveList \<Rightarrow> IntrusiveList option" where
  "il_pop_front h l = do {
    CHECK (\<not> il_empty l);
    let first = h (il_first l);
    Some (l\<lparr>il_first := first, il_last := (if first = 0 then 0 else il_last l), il_size := il_size l - 1\<rparr>) }"

definition il_extract :: "links \<Rightarrow> IntrusiveList \<Rightarrow> nat \<Rightarrow> nat \<Rightarrow> (links \<times> IntrusiveList) option" where
  "il_extract h l prev x = do {
    CHECK (\<not> il_empty l);
    CHECK (prev \<noteq> 0);
    CHECK (x \<noteq> 0);
    CHECK (h prev = x);
    Some (h(prev := h x), l\<lparr>il_last := (if il_last l = x then prev else il_last l), il_size := il_size l - 1\<rparr>) }"

text \<open>The two lists of an append are different objects, as its first check asks.\<close>

definition il_append_front :: "links \<Rightarrow> IntrusiveList \<Rightarrow> IntrusiveList \<Rightarrow> links \<times> IntrusiveList \<times> IntrusiveList" where
  "il_append_front h this l =
    (if il_empty l then (h, this, l)
     else if il_empty this then (h, l, il_clear)
     else (h(il_last l := il_first this), this\<lparr>il_first := il_first l, il_size := il_size this + il_size l\<rparr>, il_clear))"

definition il_append_back :: "links \<Rightarrow> IntrusiveList \<Rightarrow> IntrusiveList \<Rightarrow> links \<times> IntrusiveList \<times> IntrusiveList" where
  "il_append_back h this l =
    (if il_empty l then (h, this, l)
     else if il_empty this then (h, l, il_clear)
     else (h(il_last this := il_first l), this\<lparr>il_last := il_last l, il_size := il_size this + il_size l\<rparr>, il_clear))"

partial_function (option) count_loop :: "links \<Rightarrow> nat \<Rightarrow> nat \<Rightarrow> nat \<Rightarrow> nat option" where
  "count_loop h l i count =
    (if i = l then Some (count + 1) else count_loop h l (h i) (count + 1))"

definition il_CheckConsistency :: "links \<Rightarrow> IntrusiveList \<Rightarrow> unit option" where
  "il_CheckConsistency h l =
    (if il_size l = 0 then do {
       CHECK (il_first l = 0);
       CHECK (il_last l = 0) }
     else do {
       count \<leftarrow> count_loop h (il_last l) (il_first l) 0;
       CHECK (il_size l = count);
       CHECK (h (il_last l) = 0) })"

text \<open>A range-based loop over the list: the items from \<open>begin()\<close> to \<open>end()\<close>.\<close>

partial_function (option) iterate :: "links \<Rightarrow> nat \<Rightarrow> nat list option" where
  "iterate h current =
    (if current = 0 then Some []
     else do { rest \<leftarrow> iterate h (h current); Some (current # rest) })"

definition il_items :: "links \<Rightarrow> IntrusiveList \<Rightarrow> nat list option" where
  "il_items h l = iterate h (il_first l)"

section \<open>The sequence of a list\<close>

fun chain :: "links \<Rightarrow> nat \<Rightarrow> nat list \<Rightarrow> nat \<Rightarrow> bool" where
  "chain h p [] q \<longleftrightarrow> p = q"
| "chain h p (x # xs) q \<longleftrightarrow> p = x \<and> x \<noteq> 0 \<and> chain h (h x) xs q"

definition il_list :: "links \<Rightarrow> IntrusiveList \<Rightarrow> nat list \<Rightarrow> bool" where
  "il_list h l xs \<longleftrightarrow> chain h (il_first l) xs 0 \<and> distinct xs \<and> il_size l = length xs \<and>
    il_last l = (if xs = [] then 0 else last xs)"

lemma chain_append: "chain h p (xs @ ys) q \<longleftrightarrow> (\<exists>r. chain h p xs r \<and> chain h r ys q)"
  by (induction xs arbitrary: p) auto

lemma chain_frame: "chain h p xs q \<Longrightarrow> (\<And>x. x \<in> set xs \<Longrightarrow> h' x = h x) \<Longrightarrow> chain h' p xs q"
  by (induction xs arbitrary: p) auto

lemma chain_nonzero: "chain h p xs q \<Longrightarrow> 0 \<notin> set xs"
  by (induction xs arbitrary: p) auto

lemma chain_upd [simp]: "a \<notin> set xs \<Longrightarrow> chain (h(a := b)) p xs q \<longleftrightarrow> chain h p xs q"
  by (induction xs arbitrary: p) auto

lemma il_list_nonzero: "il_list h l xs \<Longrightarrow> 0 \<notin> set xs"
  using chain_nonzero by (auto simp: il_list_def)

lemma il_list_frame: "il_list h l xs \<Longrightarrow> (\<And>x. x \<in> set xs \<Longrightarrow> h' x = h x) \<Longrightarrow> il_list h' l xs"
  using chain_frame by (auto simp: il_list_def)

lemma il_list_empty: "il_list h l xs \<Longrightarrow> il_empty l \<longleftrightarrow> xs = []"
  by (simp add: il_list_def il_empty_def)

lemma il_list_front: "il_list h l (x # xs) \<Longrightarrow> il_first l = x"
  by (simp add: il_list_def)

lemma il_clear_list: "il_list h il_clear []"
  by (simp add: il_list_def il_clear_def)

text \<open>The last item of a chain is the one whose link leaves it.\<close>

lemma chain_last:
  assumes "xs \<noteq> []"
  shows "chain h p xs q \<longleftrightarrow> chain h p (butlast xs) (last xs) \<and> last xs \<noteq> 0 \<and> h (last xs) = q"
  using assms by (subst append_butlast_last_id [symmetric]) (auto simp: chain_append simp del: append_butlast_last_id)

lemma distinct_last: "distinct xs \<Longrightarrow> xs \<noteq> [] \<Longrightarrow> last xs \<notin> set (butlast xs)"
  by (metis append_butlast_last_id distinct_butlast not_distinct_conv_prefix)

lemma chain_relink:
  assumes "chain h p xs q" "distinct xs" "xs \<noteq> []"
  shows "chain (h(last xs := r)) p xs r"
  using assms by (simp add: chain_last distinct_last)

lemma il_push_back_list:
  assumes "il_list h l xs" "x \<notin> set xs" "x \<noteq> 0" "il_push_back h l x = (h', l')"
  shows "il_list h' l' (xs @ [x])" "y \<notin> set xs \<Longrightarrow> y \<noteq> x \<Longrightarrow> h' y = h y"
proof -
  have "last xs \<in> set xs" if "xs \<noteq> []" using that by simp
  then show "y \<notin> set xs \<Longrightarrow> y \<noteq> x \<Longrightarrow> h' y = h y"
    using assms by (auto simp: il_push_back_def il_list_def il_empty_def split: if_splits)
  show "il_list h' l' (xs @ [x])"
  proof (cases "xs = []")
    case False
    then have "x \<noteq> last xs" using assms(2) by auto
    have "chain (h(x := 0)) (il_first l) xs 0" "distinct xs" using assms by (auto simp: il_list_def)
    from chain_relink [OF this False, of x]
    have "chain (h(x := 0, last xs := x)) (il_first l) xs x" .
    then show ?thesis using assms False \<open>x \<noteq> last xs\<close>
      by (auto simp: il_push_back_def il_list_def il_empty_def chain_append)
  qed (use assms in \<open>auto simp: il_push_back_def il_list_def il_empty_def\<close>)
qed

lemma il_push_front_list:
  assumes "il_list h l xs" "x \<notin> set xs" "x \<noteq> 0" "il_push_front h l x = (h', l')"
  shows "il_list h' l' (x # xs)" "y \<noteq> x \<Longrightarrow> h' y = h y"
  using assms by (auto simp: il_push_front_def il_list_def il_empty_def split: if_splits)

lemma il_pop_front_list:
  assumes "il_list h l (x # xs)"
  shows "\<exists>l'. il_pop_front h l = Some l' \<and> il_list h l' xs"
proof -
  have "chain h (h x) xs 0" using assms by (simp add: il_list_def)
  then have "h x = 0 \<longleftrightarrow> xs = []" by (cases xs) auto
  then show ?thesis using assms by (auto simp: il_pop_front_def il_list_def il_empty_def)
qed

lemma il_extract_list:
  assumes "il_list h l (ys @ prev # x # zs)" "il_extract h l prev x = Some (h', l')"
  shows "il_list h' l' (ys @ prev # zs)" "y \<noteq> prev \<Longrightarrow> h' y = h y"
proof -
  have "prev \<notin> set ys" "prev \<notin> set zs" "prev \<noteq> x" "x \<notin> set zs" using assms(1) by (auto simp: il_list_def)
  then show "il_list h' l' (ys @ prev # zs)" "y \<noteq> prev \<Longrightarrow> h' y = h y"
    using assms by (auto simp: il_extract_def il_list_def il_empty_def chain_append CHECK_def split: if_splits)
qed

lemma il_extract_returns:
  assumes "il_list h l (ys @ prev # x # zs)"
  shows "\<exists>h' l'. il_extract h l prev x = Some (h', l')"
  using assms by (auto simp: il_extract_def il_list_def il_empty_def chain_append)

lemma il_append_back_list:
  assumes "il_list h this xs" "il_list h l ys" "set xs \<inter> set ys = {}" "il_append_back h this l = (h', this', l')"
  shows "il_list h' this' (xs @ ys)" "il_list h' l' []" "y \<notin> set xs \<Longrightarrow> h' y = h y"
proof -
  show "il_list h' l' []" using assms il_clear_list
    by (auto simp: il_append_back_def il_list_def il_clear_def il_empty_def split: if_splits)
  show "y \<notin> set xs \<Longrightarrow> h' y = h y" using assms
    by (auto simp: il_append_back_def il_list_def il_empty_def split: if_splits)
  show "il_list h' this' (xs @ ys)"
  proof (cases "xs = [] \<or> ys = []")
    case False
    then have "chain (h(last xs := il_first l)) (il_first this) xs (il_first l)"
      using assms chain_relink [of h "il_first this" xs 0 "il_first l"] by (auto simp: il_list_def)
    moreover have "last xs \<notin> set ys" using False assms(3) last_in_set [of xs] by blast
    ultimately show ?thesis using assms False by (auto simp: il_append_back_def il_list_def il_empty_def chain_append)
  qed (use assms in \<open>auto simp: il_append_back_def il_list_def il_empty_def\<close>)
qed

lemma il_append_front_list:
  assumes "il_list h this xs" "il_list h l ys" "set xs \<inter> set ys = {}" "il_append_front h this l = (h', this', l')"
  shows "il_list h' this' (ys @ xs)" "il_list h' l' []" "y \<notin> set ys \<Longrightarrow> h' y = h y"
proof -
  show "il_list h' l' []" using assms il_clear_list
    by (auto simp: il_append_front_def il_list_def il_clear_def il_empty_def split: if_splits)
  show "y \<notin> set ys \<Longrightarrow> h' y = h y" using assms
    by (auto simp: il_append_front_def il_list_def il_empty_def split: if_splits)
  show "il_list h' this' (ys @ xs)"
  proof (cases "xs = [] \<or> ys = []")
    case False
    then have "chain (h(last ys := il_first this)) (il_first l) ys (il_first this)"
      using assms chain_relink [of h "il_first l" ys 0 "il_first this"] by (auto simp: il_list_def)
    moreover have "last ys \<notin> set xs" using False assms(3) last_in_set [of ys] by blast
    ultimately show ?thesis using assms False by (auto simp: il_append_front_def il_list_def il_empty_def chain_append)
  qed (use assms in \<open>auto simp: il_append_front_def il_list_def il_empty_def\<close>)
qed

text \<open>The loops end on a list, the first with the number of its items and the second with the items.\<close>

lemma count_loop_chain:
  "chain h p xs q \<Longrightarrow> distinct xs \<Longrightarrow> xs \<noteq> [] \<Longrightarrow> count_loop h (last xs) p c = Some (c + length xs)"
proof (induction xs arbitrary: p c)
  case (Cons x xs)
  show ?case
  proof (cases "xs = []")
    case True
    then show ?thesis using Cons.prems by (subst count_loop.simps) simp
  next
    case False
    then have "x \<noteq> last xs" using Cons.prems by auto
    then show ?thesis using Cons.prems False Cons.IH [of "h x" "c + 1"] by (subst count_loop.simps) simp
  qed
qed simp

lemma il_CheckConsistency_list: "il_list h l xs \<Longrightarrow> il_CheckConsistency h l = Some ()"
  using count_loop_chain [of h "il_first l" xs 0 0]
  by (auto simp: il_CheckConsistency_def il_list_def chain_last)

lemma iterate_chain: "chain h p xs 0 \<Longrightarrow> iterate h p = Some xs"
proof (induction xs arbitrary: p)
  case Nil
  then show ?case by (subst iterate.simps) simp
next
  case (Cons x xs)
  then show ?case by (subst iterate.simps) simp
qed

lemma il_items_list: "il_list h l xs \<Longrightarrow> il_items h l = Some xs"
  by (simp add: il_items_def il_list_def iterate_chain)

end
