(* ===== verification/San_Threads.thy ===== *)
theory San_Threads
  imports San_List "HOL-Library.Word"
begin

text \<open>
  \<open>sanitizer_thread_registry.h\<close> and \<open>sanitizer_thread_registry.cpp\<close>: the table of thread contexts, from which finished
  threads go through a quarantine of dead threads to a list of contexts for reuse. The contexts are the array
  \<open>threads\<close>; \<open>ctx_ptr i\<close> is the address of the context with index \<open>i\<close>, and the two lists link these addresses through
  the field \<open>next\<close> of the contexts, the store \<open>ctx_next\<close>. Every public operation runs under the lock of the registry and is one step. The loop of
  \<open>JoinThread\<close> gives up the lock between its rounds, so a step is one round. \<open>None\<close> is a failed check or the call of
  \<open>Die\<close>. The context is the base class, whose virtual methods do nothing. Counters of threads are natural numbers;
  the number of reuses keeps its width.
\<close>

section \<open>Thread contexts\<close>

datatype ThreadStatus =
  ThreadStatusInvalid | ThreadStatusCreated | ThreadStatusRunning | ThreadStatusFinished | ThreadStatusDead

datatype ThreadType = Regular | Worker | Fiber

record ThreadContextBase =
  tid :: nat
  unique_id :: nat
  reuse_count :: "32 word"
  os_id :: "64 word"
  user_id :: "64 word"
  thread_name :: string
  status :: ThreadStatus
  detached :: bool
  thread_type :: ThreadType
  parent_tid :: nat
  thread_destroyed :: bool

definition kInvalidTid :: nat where
  "kInvalidTid = 2 ^ 32 - 1"

definition kMainTid :: nat where
  "kMainTid = 0"

definition new_context :: "nat \<Rightarrow> ThreadContextBase" where
  "new_context i = \<lparr>tid = i, unique_id = 0, reuse_count = 0, os_id = 0, user_id = 0, thread_name = '''',
    status = ThreadStatusInvalid, detached = False, thread_type = Regular, parent_tid = 0, thread_destroyed = False\<rparr>"

text \<open>The array \<open>name\<close> has 64 characters with the terminator.\<close>

definition SetName :: "string option \<Rightarrow> ThreadContextBase \<Rightarrow> ThreadContextBase" where
  "SetName new_name c = c\<lparr>thread_name := (case new_name of None \<Rightarrow> '''' | Some n \<Rightarrow> take 63 n)\<rparr>"

definition SetDead :: "ThreadContextBase \<Rightarrow> ThreadContextBase option" where
  "SetDead c = do {
    CHECK (status c = ThreadStatusRunning \<or> status c = ThreadStatusFinished);
    Some (c\<lparr>status := ThreadStatusDead, user_id := 0\<rparr>) }"

definition SetDestroyed :: "ThreadContextBase \<Rightarrow> ThreadContextBase" where
  "SetDestroyed c = c\<lparr>thread_destroyed := True\<rparr>"

definition GetDestroyed :: "ThreadContextBase \<Rightarrow> bool" where
  "GetDestroyed c = thread_destroyed c"

definition SetJoined :: "ThreadContextBase \<Rightarrow> ThreadContextBase option" where
  "SetJoined c = do {
    CHECK (\<not> detached c);
    CHECK (status c = ThreadStatusFinished);
    Some (c\<lparr>status := ThreadStatusDead, user_id := 0\<rparr>) }"

definition SetFinished :: "ThreadContextBase \<Rightarrow> ThreadContextBase" where
  "SetFinished c =
    (if \<not> detached c \<or> status c = ThreadStatusCreated then c\<lparr>status := ThreadStatusFinished\<rparr> else c)"

definition SetStarted :: "64 word \<Rightarrow> ThreadType \<Rightarrow> ThreadContextBase \<Rightarrow> ThreadContextBase" where
  "SetStarted os ty c = c\<lparr>status := ThreadStatusRunning, os_id := os, thread_type := ty\<rparr>"

definition SetCreated :: "64 word \<Rightarrow> nat \<Rightarrow> bool \<Rightarrow> nat \<Rightarrow> ThreadContextBase \<Rightarrow> ThreadContextBase" where
  "SetCreated user unique det parent c =
    (let c = c\<lparr>status := ThreadStatusCreated, user_id := user, unique_id := unique, detached := det\<rparr>
     in if tid c \<noteq> kMainTid then c\<lparr>parent_tid := parent\<rparr> else c)"

definition Reset :: "ThreadContextBase \<Rightarrow> ThreadContextBase" where
  "Reset c = (SetName None (c\<lparr>status := ThreadStatusInvalid\<rparr>))\<lparr>thread_destroyed := False\<rparr>"

section \<open>The registry\<close>

record ThreadRegistry =
  max_threads :: nat
  thread_quarantine_size :: nat
  max_reuse :: "32 word"
  total_threads :: nat
  alive_threads :: nat
  max_alive_threads :: nat
  running_threads :: nat
  threads :: "ThreadContextBase list"
  ctx_next :: links
  dead_threads :: IntrusiveList
  invalid_threads :: IntrusiveList

definition ctx_ptr :: "nat \<Rightarrow> nat" where
  "ctx_ptr i = Suc i"

definition ctx_index :: "nat \<Rightarrow> nat" where
  "ctx_index p = p - 1"

text \<open>Assignment to the context that a pointer refers to.\<close>

definition put_ctx :: "ThreadRegistry \<Rightarrow> nat \<Rightarrow> ThreadContextBase \<Rightarrow> ThreadRegistry" where
  "put_ctx r i c = r\<lparr>threads := (threads r)[i := c]\<rparr>"

definition new_ThreadRegistry :: "nat \<Rightarrow> nat \<Rightarrow> 32 word \<Rightarrow> ThreadRegistry" where
  "new_ThreadRegistry mt q mr = \<lparr>max_threads = mt, thread_quarantine_size = q, max_reuse = mr, total_threads = 0,
    alive_threads = 0, max_alive_threads = 0, running_threads = 0, threads = [], ctx_next = (\<lambda>_. 0),
    dead_threads = il_clear, invalid_threads = il_clear\<rparr>"

definition QuarantinePush :: "ThreadRegistry \<Rightarrow> nat \<Rightarrow> ThreadRegistry option" where
  "QuarantinePush r i =
    (if tid (threads r ! i) = 0 then Some r
     else let (h, l) = il_push_back (ctx_next r) (dead_threads r) (ctx_ptr i);
              r = r\<lparr>ctx_next := h, dead_threads := l\<rparr>
       in if il_size l \<le> thread_quarantine_size r then Some r
       else do {
         let j = ctx_index (il_first l);
         l \<leftarrow> il_pop_front (ctx_next r) l;
         let r = r\<lparr>dead_threads := l\<rparr>;
         c \<leftarrow> array_get (threads r) j;
         CHECK (status c = ThreadStatusDead);
         let c = Reset c;
         let c = c\<lparr>reuse_count := reuse_count c + 1\<rparr>;
         let r = put_ctx r j c;
         if 0 < max_reuse r \<and> max_reuse r \<le> reuse_count c then Some r
         else let (h, l) = il_push_back (ctx_next r) (invalid_threads r) (ctx_ptr j)
           in Some (r\<lparr>ctx_next := h, invalid_threads := l\<rparr>) })"

definition QuarantinePop :: "ThreadRegistry \<Rightarrow> (nat option \<times> ThreadRegistry) option" where
  "QuarantinePop r =
    (if il_size (invalid_threads r) = 0 then Some (None, r)
     else do {
       let i = ctx_index (il_first (invalid_threads r));
       l \<leftarrow> il_pop_front (ctx_next r) (invalid_threads r);
       Some (Some i, r\<lparr>invalid_threads := l\<rparr>) })"

text \<open>The context of a new thread: one from the list for reuse, else a new one up to the limit.\<close>

definition alloc_context :: "ThreadRegistry \<Rightarrow> (nat \<times> ThreadRegistry) option" where
  "alloc_context r = do {
    (tctx, r) \<leftarrow> QuarantinePop r;
    (case tctx of
      Some i \<Rightarrow> do { c \<leftarrow> array_get (threads r) i; Some (tid c, r) }
    | None \<Rightarrow>
        if length (threads r) < max_threads r
        then Some (length (threads r), r\<lparr>threads := threads r @ [new_context (length (threads r))]\<rparr>)
        else None) }"

definition CreateThread :: "ThreadRegistry \<Rightarrow> 64 word \<Rightarrow> bool \<Rightarrow> nat \<Rightarrow> (nat \<times> ThreadRegistry) option" where
  "CreateThread r user det parent = do {
    (i, r) \<leftarrow> alloc_context r;
    CHECK (i \<noteq> kInvalidTid);
    CHECK (i < max_threads r);
    c \<leftarrow> array_get (threads r) i;
    CHECK (status c = ThreadStatusInvalid);
    let r = r\<lparr>alive_threads := alive_threads r + 1\<rparr>;
    r \<leftarrow> (if max_alive_threads r < alive_threads r
          then do {
            let r = r\<lparr>max_alive_threads := max_alive_threads r + 1\<rparr>;
            CHECK (alive_threads r = max_alive_threads r);
            Some r }
          else Some r);
    let c = SetCreated user (total_threads r) det parent c;
    let r = r\<lparr>total_threads := total_threads r + 1\<rparr>;
    Some (i, put_ctx r i c) }"

definition GetNumberOfThreads :: "ThreadRegistry \<Rightarrow> nat \<times> nat \<times> nat" where
  "GetNumberOfThreads r = (length (threads r), running_threads r, alive_threads r)"

definition GetMaxAliveThreads :: "ThreadRegistry \<Rightarrow> nat" where
  "GetMaxAliveThreads r = max_alive_threads r"

definition GetThreadLocked :: "ThreadRegistry \<Rightarrow> nat \<Rightarrow> ThreadContextBase option option" where
  "GetThreadLocked r i = (if threads r = [] then Some None else map_option Some (array_get (threads r) i))"

text \<open>A callback may change the context and what its argument refers to.\<close>

fun run_callback ::
  "(ThreadContextBase \<Rightarrow> 'a \<Rightarrow> ThreadContextBase \<times> 'a) \<Rightarrow> ThreadContextBase list \<Rightarrow> 'a \<Rightarrow> ThreadContextBase list \<times> 'a" where
  "run_callback cb [] arg = ([], arg)"
| "run_callback cb (c # cs) arg =
    (let (c, arg) = cb c arg; (cs, arg) = run_callback cb cs arg in (c # cs, arg))"

definition RunCallbackForEachThreadLocked ::
  "(ThreadContextBase \<Rightarrow> 'a \<Rightarrow> ThreadContextBase \<times> 'a) \<Rightarrow> ThreadRegistry \<Rightarrow> 'a \<Rightarrow> ThreadRegistry \<times> 'a" where
  "RunCallbackForEachThreadLocked cb r arg =
    (let (cs, arg) = run_callback cb (threads r) arg in (r\<lparr>threads := cs\<rparr>, arg))"

definition FindThreadContextLocked :: "ThreadRegistry \<Rightarrow> (ThreadContextBase \<Rightarrow> bool) \<Rightarrow> ThreadContextBase option" where
  "FindThreadContextLocked r cb = find cb (threads r)"

definition FindThread :: "ThreadRegistry \<Rightarrow> (ThreadContextBase \<Rightarrow> bool) \<Rightarrow> nat" where
  "FindThread r cb = (case find cb (threads r) of None \<Rightarrow> kInvalidTid | Some c \<Rightarrow> tid c)"

definition FindThreadContextByOsIdCallback :: "64 word \<Rightarrow> ThreadContextBase \<Rightarrow> bool" where
  "FindThreadContextByOsIdCallback os c \<longleftrightarrow>
    os_id c = os \<and> status c \<noteq> ThreadStatusInvalid \<and> status c \<noteq> ThreadStatusDead"

definition FindThreadContextByOsIDLocked :: "ThreadRegistry \<Rightarrow> 64 word \<Rightarrow> ThreadContextBase option" where
  "FindThreadContextByOsIDLocked r os = FindThreadContextLocked r (FindThreadContextByOsIdCallback os)"

text \<open>The check is that of the systems other than Fuchsia.\<close>

definition SetThreadName :: "ThreadRegistry \<Rightarrow> nat \<Rightarrow> string option \<Rightarrow> ThreadRegistry option" where
  "SetThreadName r i name = do {
    c \<leftarrow> array_get (threads r) i;
    CHECK (status c = ThreadStatusRunning);
    Some (put_ctx r i (SetName name c)) }"

fun name_by_user_id :: "64 word \<Rightarrow> string option \<Rightarrow> ThreadContextBase list \<Rightarrow> ThreadContextBase list" where
  "name_by_user_id user name [] = []"
| "name_by_user_id user name (c # cs) =
    (if user_id c = user \<and> status c \<noteq> ThreadStatusInvalid then SetName name c # cs
     else c # name_by_user_id user name cs)"

definition SetThreadNameByUserId :: "ThreadRegistry \<Rightarrow> 64 word \<Rightarrow> string option \<Rightarrow> ThreadRegistry" where
  "SetThreadNameByUserId r user name = r\<lparr>threads := name_by_user_id user name (threads r)\<rparr>"

definition DetachThread :: "ThreadRegistry \<Rightarrow> nat \<Rightarrow> ThreadRegistry option" where
  "DetachThread r i = do {
    c \<leftarrow> array_get (threads r) i;
    if status c = ThreadStatusInvalid then Some r
    else if status c = ThreadStatusFinished then do {
      c \<leftarrow> SetDead c;
      QuarantinePush (put_ctx r i c) i }
    else Some (put_ctx r i (c\<lparr>detached := True\<rparr>)) }"

text \<open>One round of the loop of \<open>JoinThread\<close>: it returns or yields for another round.\<close>

datatype join_round = JoinReturns | JoinYields

definition JoinThread_round :: "ThreadRegistry \<Rightarrow> nat \<Rightarrow> (join_round \<times> ThreadRegistry) option" where
  "JoinThread_round r i = do {
    c \<leftarrow> array_get (threads r) i;
    if status c = ThreadStatusInvalid then Some (JoinReturns, r)
    else if GetDestroyed c then do {
      c \<leftarrow> SetJoined c;
      r \<leftarrow> QuarantinePush (put_ctx r i c) i;
      Some (JoinReturns, r) }
    else Some (JoinYields, r) }"

definition FinishThread :: "ThreadRegistry \<Rightarrow> nat \<Rightarrow> (ThreadStatus \<times> ThreadRegistry) option" where
  "FinishThread r i = do {
    CHECK (alive_threads r > 0);
    let r = r\<lparr>alive_threads := alive_threads r - 1\<rparr>;
    c \<leftarrow> array_get (threads r) i;
    let prev_status = status c;
    (dead, r) \<leftarrow> (if status c = ThreadStatusRunning then do {
        CHECK (running_threads r > 0);
        Some (detached c, r\<lparr>running_threads := running_threads r - 1\<rparr>) }
      else do {
        CHECK (status c = ThreadStatusCreated);
        Some (True, r) });
    let c = SetFinished c;
    r \<leftarrow> (if dead then do {
        c \<leftarrow> SetDead c;
        QuarantinePush (put_ctx r i c) i }
      else Some (put_ctx r i c));
    Some (prev_status, put_ctx r i (SetDestroyed (threads r ! i))) }"

definition StartThread :: "ThreadRegistry \<Rightarrow> nat \<Rightarrow> 64 word \<Rightarrow> ThreadType \<Rightarrow> ThreadRegistry option" where
  "StartThread r i os ty = do {
    let r = r\<lparr>running_threads := running_threads r + 1\<rparr>;
    c \<leftarrow> array_get (threads r) i;
    CHECK (status c = ThreadStatusCreated);
    Some (put_ctx r i (SetStarted os ty c)) }"

definition SetThreadUserId :: "ThreadRegistry \<Rightarrow> nat \<Rightarrow> 64 word \<Rightarrow> ThreadRegistry option" where
  "SetThreadUserId r i user = do {
    c \<leftarrow> array_get (threads r) i;
    CHECK (status c \<noteq> ThreadStatusInvalid);
    CHECK (status c \<noteq> ThreadStatusDead);
    CHECK (user_id c = 0);
    Some (put_ctx r i (c\<lparr>user_id := user\<rparr>)) }"

end
