(* ===== verification/San_Registry.thy ===== *)
theory San_Registry
  imports San_Threads
begin

text \<open>
  The invariant of the thread registry and the proof that every operation keeps it. \<open>reg_inv P r ds vs\<close> says that the
  two lists of the registry hold the contexts \<open>ds\<close> and \<open>vs\<close>, that the first are the dead threads (apart from those
  in \<open>P\<close>, on their way to the quarantine, and the main thread), that the second may be reused, and that the counters
  and flags agree with the states of the contexts.
\<close>

section \<open>The invariant\<close>

definition in_state :: "ThreadRegistry \<Rightarrow> ThreadStatus \<Rightarrow> nat set" where
  "in_state r st = {i. i < length (threads r) \<and> status (threads r ! i) = st}"

definition alive_set :: "ThreadRegistry \<Rightarrow> nat set" where
  "alive_set r = in_state r ThreadStatusCreated \<union> in_state r ThreadStatusRunning"

definition used_set :: "ThreadRegistry \<Rightarrow> nat set" where
  "used_set r = {..<length (threads r)} - in_state r ThreadStatusInvalid"

definition reg_lists :: "ThreadRegistry \<Rightarrow> nat list \<Rightarrow> nat list \<Rightarrow> bool" where
  "reg_lists r ds vs \<longleftrightarrow> il_list (ctx_next r) (dead_threads r) (map ctx_ptr ds) \<and>
    il_list (ctx_next r) (invalid_threads r) (map ctx_ptr vs)"

definition reg_table :: "ThreadRegistry \<Rightarrow> bool" where
  "reg_table r \<longleftrightarrow> length (threads r) \<le> max_threads r \<and> max_threads r < 2 ^ 32 \<and>
    (\<forall>i < length (threads r). tid (threads r ! i) = i) \<and>
    (\<forall>i \<in> used_set r. unique_id (threads r ! i) < total_threads r) \<and>
    inj_on (\<lambda>i. unique_id (threads r ! i)) (used_set r)"

definition reg_counts :: "ThreadRegistry \<Rightarrow> bool" where
  "reg_counts r \<longleftrightarrow> alive_threads r = card (alive_set r) \<and> running_threads r = card (in_state r ThreadStatusRunning) \<and>
    alive_threads r \<le> max_alive_threads r"

definition reg_flags :: "ThreadRegistry \<Rightarrow> nat list \<Rightarrow> bool" where
  "reg_flags r vs \<longleftrightarrow>
    (0 < thread_quarantine_size r \<longrightarrow> (\<forall>i \<in> alive_set r \<union> set vs. \<not> thread_destroyed (threads r ! i))) \<and>
    (\<forall>i \<in> in_state r ThreadStatusFinished. thread_destroyed (threads r ! i) \<and> \<not> detached (threads r ! i))"

definition reg_inv :: "nat set \<Rightarrow> ThreadRegistry \<Rightarrow> nat list \<Rightarrow> nat list \<Rightarrow> bool" where
  "reg_inv P r ds vs \<longleftrightarrow> reg_lists r ds vs \<and> reg_table r \<and> reg_counts r \<and> reg_flags r vs \<and>
    set ds = in_state r ThreadStatusDead - {0} - P \<and> length ds \<le> thread_quarantine_size r \<and>
    set vs \<subseteq> in_state r ThreadStatusInvalid - {0}"

definition reg_ok :: "ThreadRegistry \<Rightarrow> bool" where
  "reg_ok r \<longleftrightarrow> (\<exists>ds vs. reg_inv {} r ds vs)"

section \<open>Updates of a context\<close>

lemma ctx_ptr_simps [simp]: "ctx_ptr i \<noteq> 0" "ctx_index (ctx_ptr i) = i" "ctx_ptr i = ctx_ptr j \<longleftrightarrow> i = j" "inj ctx_ptr"
  by (auto simp: ctx_ptr_def ctx_index_def inj_on_def)

lemma finite_in_state [simp]: "finite (in_state r st)" "finite (alive_set r)"
  by (simp_all add: in_state_def alive_set_def)

lemma put_ctx_simps [simp]:
  "max_threads (put_ctx r i c) = max_threads r" "thread_quarantine_size (put_ctx r i c) = thread_quarantine_size r"
  "max_reuse (put_ctx r i c) = max_reuse r" "total_threads (put_ctx r i c) = total_threads r"
  "alive_threads (put_ctx r i c) = alive_threads r" "max_alive_threads (put_ctx r i c) = max_alive_threads r"
  "running_threads (put_ctx r i c) = running_threads r" "ctx_next (put_ctx r i c) = ctx_next r"
  "dead_threads (put_ctx r i c) = dead_threads r" "invalid_threads (put_ctx r i c) = invalid_threads r"
  "threads (put_ctx r i c) = (threads r)[i := c]"
  by (simp_all add: put_ctx_def)

lemma put_ctx_counters:
  "put_ctx (r\<lparr>alive_threads := a\<rparr>) i c = (put_ctx r i c)\<lparr>alive_threads := a\<rparr>"
  "put_ctx (r\<lparr>running_threads := a\<rparr>) i c = (put_ctx r i c)\<lparr>running_threads := a\<rparr>"
  "put_ctx (r\<lparr>max_alive_threads := a\<rparr>) i c = (put_ctx r i c)\<lparr>max_alive_threads := a\<rparr>"
  "put_ctx (r\<lparr>total_threads := a\<rparr>) i c = (put_ctx r i c)\<lparr>total_threads := a\<rparr>"
  "(put_ctx r i c)\<lparr>alive_threads := a, running_threads := running_threads r\<rparr> = (put_ctx r i c)\<lparr>alive_threads := a\<rparr>"
  by (cases r; simp add: put_ctx_def)+

lemma in_state_put:
  assumes "i < length (threads r)"
  shows "in_state (put_ctx r i c) st = (if status c = st then insert i (in_state r st) else in_state r st - {i})"
  using assms by (auto simp: in_state_def nth_list_update split: if_splits)

lemma in_state_other [simp]:
  "in_state (r\<lparr>alive_threads := a\<rparr>) st = in_state r st" "in_state (r\<lparr>running_threads := a\<rparr>) st = in_state r st"
  "in_state (r\<lparr>max_alive_threads := a\<rparr>) st = in_state r st" "in_state (r\<lparr>total_threads := a\<rparr>) st = in_state r st"
  "in_state (r\<lparr>ctx_next := h\<rparr>) st = in_state r st" "in_state (r\<lparr>dead_threads := l\<rparr>) st = in_state r st"
  "in_state (r\<lparr>invalid_threads := l\<rparr>) st = in_state r st"
  by (simp_all add: in_state_def)

lemma used_set_other [simp]:
  "used_set (r\<lparr>alive_threads := a\<rparr>) = used_set r" "used_set (r\<lparr>running_threads := a\<rparr>) = used_set r"
  "used_set (r\<lparr>max_alive_threads := a\<rparr>) = used_set r" "used_set (r\<lparr>total_threads := a\<rparr>) = used_set r"
  "used_set (r\<lparr>ctx_next := h\<rparr>) = used_set r" "used_set (r\<lparr>dead_threads := l\<rparr>) = used_set r"
  "used_set (r\<lparr>invalid_threads := l\<rparr>) = used_set r"
  by (simp_all add: used_set_def)

lemma in_state_disjoint: "i \<in> in_state r st \<Longrightarrow> st \<noteq> st' \<Longrightarrow> i \<notin> in_state r st'"
  by (simp add: in_state_def)

lemma reg_table_put:
  assumes "reg_table r" "i < length (threads r)" "tid c = i"
    and "status c = ThreadStatusInvalid \<or> unique_id c = unique_id (threads r ! i) \<and> status (threads r ! i) \<noteq> ThreadStatusInvalid"
  shows "reg_table (put_ctx r i c)"
proof -
  have sub: "used_set (put_ctx r i c) \<subseteq> used_set r"
    using assms(2,4) in_state_put [OF assms(2), of c ThreadStatusInvalid] by (auto simp: used_set_def in_state_def)
  have "unique_id ((threads r)[i := c] ! j) = unique_id (threads r ! j)" if "j \<in> used_set (put_ctx r i c)" for j
    using that assms(2,4) by (auto simp: used_set_def in_state_def nth_list_update split: if_splits)
  then have "inj_on (\<lambda>j. unique_id ((threads r)[i := c] ! j)) (used_set (put_ctx r i c)) \<and>
      (\<forall>j \<in> used_set (put_ctx r i c). unique_id ((threads r)[i := c] ! j) < total_threads r)"
    using assms(1) sub inj_on_subset [OF _ sub] by (auto simp: reg_table_def cong: inj_on_cong)
  then show ?thesis using assms by (simp add: reg_table_def nth_list_update)
qed

lemma reg_lists_put [simp]: "reg_lists (put_ctx r i c) ds vs \<longleftrightarrow> reg_lists r ds vs"
  by (simp add: reg_lists_def)

text \<open>A change that keeps the state of a context and its flags keeps the invariant.\<close>

lemma reg_inv_put_same:
  assumes "reg_inv P r ds vs" "i < length (threads r)" "tid c = i" "unique_id c = unique_id (threads r ! i)"
    and "status c = status (threads r ! i)" "thread_destroyed c = thread_destroyed (threads r ! i)"
    and "status c = ThreadStatusFinished \<Longrightarrow> detached c = detached (threads r ! i)"
  shows "reg_inv P (put_ctx r i c) ds vs"
proof -
  have st: "in_state (put_ctx r i c) st = in_state r st" for st
    using assms(2,5) by (auto simp: in_state_def nth_list_update)
  moreover have "alive_set (put_ctx r i c) = alive_set r" by (simp add: alive_set_def st)
  moreover have "reg_flags (put_ctx r i c) vs"
    using assms calculation by (auto simp: reg_inv_def reg_flags_def nth_list_update in_state_def)
  ultimately show ?thesis using assms reg_table_put [of r i c] by (auto simp: reg_inv_def reg_counts_def)
qed

section \<open>The quarantine\<close>

lemma set_ptrs [simp]: "ctx_ptr i \<in> ctx_ptr ` A \<longleftrightarrow> i \<in> A"
  by (auto simp: image_iff)

text \<open>The dead thread enters the quarantine.\<close>

lemma push_dead:
  assumes "reg_lists r ds vs" "i \<notin> set ds" "i \<notin> set vs" "set ds \<inter> set vs = {}"
    and "il_push_back (ctx_next r) (dead_threads r) (ctx_ptr i) = (h, l)"
  shows "reg_lists (r\<lparr>ctx_next := h, dead_threads := l\<rparr>) (ds @ [i]) vs"
proof -
  have d: "il_list (ctx_next r) (dead_threads r) (map ctx_ptr ds)" "ctx_ptr i \<notin> set (map ctx_ptr ds)" "ctx_ptr i \<noteq> 0"
    using assms(1,2) by (auto simp: reg_lists_def)
  note p = il_push_back_list [OF d assms(5)]
  have "il_list h (invalid_threads r) (map ctx_ptr vs)"
  proof (rule il_list_frame)
    show "il_list (ctx_next r) (invalid_threads r) (map ctx_ptr vs)" using assms(1) by (simp add: reg_lists_def)
    show "h x = ctx_next r x" if "x \<in> set (map ctx_ptr vs)" for x
      using that assms(3,4) by (intro p(2)) auto
  qed
  then show ?thesis using p(1) by (simp add: reg_lists_def)
qed

lemma push_invalid:
  assumes "reg_lists r ds vs" "i \<notin> set ds" "i \<notin> set vs" "set ds \<inter> set vs = {}"
    and "il_push_back (ctx_next r) (invalid_threads r) (ctx_ptr i) = (h, l)"
  shows "reg_lists (r\<lparr>ctx_next := h, invalid_threads := l\<rparr>) ds (vs @ [i])"
proof -
  have d: "il_list (ctx_next r) (invalid_threads r) (map ctx_ptr vs)" "ctx_ptr i \<notin> set (map ctx_ptr vs)" "ctx_ptr i \<noteq> 0"
    using assms(1,3) by (auto simp: reg_lists_def)
  note p = il_push_back_list [OF d assms(5)]
  have "il_list h (dead_threads r) (map ctx_ptr ds)"
  proof (rule il_list_frame)
    show "il_list (ctx_next r) (dead_threads r) (map ctx_ptr ds)" using assms(1) by (simp add: reg_lists_def)
    show "h x = ctx_next r x" if "x \<in> set (map ctx_ptr ds)" for x
      using that assms(2,4) by (intro p(2)) auto
  qed
  then show ?thesis using p(1) by (simp add: reg_lists_def)
qed

lemma reg_lists_distinct: "reg_lists r ds vs \<Longrightarrow> distinct ds \<and> distinct vs"
  by (auto simp: reg_lists_def il_list_def distinct_map)

lemma pop_dead:
  assumes "reg_lists r (d # ds) vs"
  shows "\<exists>l. il_pop_front (ctx_next r) (dead_threads r) = Some l \<and> reg_lists (r\<lparr>dead_threads := l\<rparr>) ds vs"
  using assms il_pop_front_list [of "ctx_next r" "dead_threads r" "ctx_ptr d" "map ctx_ptr ds"] by (auto simp: reg_lists_def)

lemma pop_invalid:
  assumes "reg_lists r ds (v # vs)"
  shows "\<exists>l. il_pop_front (ctx_next r) (invalid_threads r) = Some l \<and> reg_lists (r\<lparr>invalid_threads := l\<rparr>) ds vs"
  using assms il_pop_front_list [of "ctx_next r" "invalid_threads r" "ctx_ptr v" "map ctx_ptr vs"] by (auto simp: reg_lists_def)

lemma alive_set_other [simp]:
  "alive_set (r\<lparr>alive_threads := a\<rparr>) = alive_set r" "alive_set (r\<lparr>running_threads := a\<rparr>) = alive_set r"
  "alive_set (r\<lparr>max_alive_threads := a\<rparr>) = alive_set r" "alive_set (r\<lparr>total_threads := a\<rparr>) = alive_set r"
  "alive_set (r\<lparr>ctx_next := h\<rparr>) = alive_set r" "alive_set (r\<lparr>dead_threads := l\<rparr>) = alive_set r"
  "alive_set (r\<lparr>invalid_threads := l\<rparr>) = alive_set r"
  by (simp_all add: alive_set_def)

lemma reg_rest_lists [simp]:
  "reg_table (r\<lparr>ctx_next := h\<rparr>) \<longleftrightarrow> reg_table r" "reg_table (r\<lparr>dead_threads := l\<rparr>) \<longleftrightarrow> reg_table r"
  "reg_table (r\<lparr>invalid_threads := l\<rparr>) \<longleftrightarrow> reg_table r" "reg_counts (r\<lparr>ctx_next := h\<rparr>) \<longleftrightarrow> reg_counts r"
  "reg_counts (r\<lparr>dead_threads := l\<rparr>) \<longleftrightarrow> reg_counts r" "reg_counts (r\<lparr>invalid_threads := l\<rparr>) \<longleftrightarrow> reg_counts r"
  "reg_flags (r\<lparr>ctx_next := h\<rparr>) vs \<longleftrightarrow> reg_flags r vs" "reg_flags (r\<lparr>dead_threads := l\<rparr>) vs \<longleftrightarrow> reg_flags r vs"
  "reg_flags (r\<lparr>invalid_threads := l\<rparr>) vs \<longleftrightarrow> reg_flags r vs"
  by (simp_all add: reg_table_def reg_counts_def reg_flags_def)

lemma reg_inv_disjoint:
  assumes "reg_inv P r ds vs"
  shows "set ds \<inter> set vs = {}" "i \<in> P \<Longrightarrow> i \<notin> set ds" "i \<in> in_state r ThreadStatusDead \<Longrightarrow> i \<notin> set vs"
proof -
  have "set ds = in_state r ThreadStatusDead - {0} - P" "set vs \<subseteq> in_state r ThreadStatusInvalid"
    using assms by (auto simp: reg_inv_def)
  then show "set ds \<inter> set vs = {}" "i \<in> P \<Longrightarrow> i \<notin> set ds" "i \<in> in_state r ThreadStatusDead \<Longrightarrow> i \<notin> set vs"
    using in_state_disjoint [of _ r ThreadStatusDead ThreadStatusInvalid] by auto
qed

text \<open>A context that leaves the quarantine becomes invalid, and may be kept for reuse.\<close>

lemma retire:
  assumes "reg_inv {d} r ds vs" "d \<in> in_state r ThreadStatusDead" "d \<noteq> 0"
    and "tid c = d" "unique_id c = unique_id (threads r ! d)" "status c = ThreadStatusInvalid" "\<not> thread_destroyed c"
  shows "reg_inv {} (put_ctx r d c) ds vs"
    and "il_push_back (ctx_next r) (invalid_threads r) (ctx_ptr d) = (h, l) \<Longrightarrow>
      reg_inv {} ((put_ctx r d c)\<lparr>ctx_next := h, invalid_threads := l\<rparr>) ds (vs @ [d])"
proof -
  have d: "d < length (threads r)" "status (threads r ! d) = ThreadStatusDead" using assms(2) by (auto simp: in_state_def)
  then have st: "in_state (put_ctx r d c) st = (if st = ThreadStatusInvalid then insert d (in_state r st) else in_state r st - {d})" for st
    using assms(6) by (simp add: in_state_put)
  have other: "in_state r st - {d} = in_state r st" if "st \<noteq> ThreadStatusDead" for st using d that by (auto simp: in_state_def)
  have al: "alive_set (put_ctx r d c) = alive_set r" by (simp add: alive_set_def st other)
  have nd: "d \<notin> set ds" "d \<notin> set vs" "set ds \<inter> set vs = {}" using reg_inv_disjoint [OF assms(1)] assms(2) by simp_all
  have fl: "reg_flags (put_ctx r d c) (vs @ [d])"
    using assms(1,7) d in_state_disjoint [OF assms(2), of ThreadStatusFinished]
    by (auto simp: reg_inv_def reg_flags_def al st other nth_list_update)
  have "reg_table (put_ctx r d c)" using assms d by (intro reg_table_put) (auto simp: reg_inv_def)
  moreover have "reg_counts (put_ctx r d c)" using assms(1) by (simp add: reg_inv_def reg_counts_def al st other)
  moreover have "reg_flags (put_ctx r d c) vs" using fl by (auto simp: reg_flags_def)
  moreover have "set ds = in_state (put_ctx r d c) ThreadStatusDead - {0}" using assms(1) by (auto simp: reg_inv_def st)
  moreover have "set vs \<subseteq> in_state (put_ctx r d c) ThreadStatusInvalid - {0}" using assms(1) by (auto simp: reg_inv_def st)
  moreover have "reg_lists (put_ctx r d c) ds vs" using assms(1) by (simp add: reg_inv_def)
  ultimately show inv: "reg_inv {} (put_ctx r d c) ds vs" using assms(1) by (simp add: reg_inv_def)
  assume "il_push_back (ctx_next r) (invalid_threads r) (ctx_ptr d) = (h, l)"
  with inv nd fl assms(3) st push_invalid [of "put_ctx r d c" ds vs d h l]
  show "reg_inv {} ((put_ctx r d c)\<lparr>ctx_next := h, invalid_threads := l\<rparr>) ds (vs @ [d])"
    by (auto simp: reg_inv_def)
qed

lemma Reset_simps [simp]:
  "tid (Reset c) = tid c" "unique_id (Reset c) = unique_id c" "status (Reset c) = ThreadStatusInvalid"
  "\<not> thread_destroyed (Reset c)"
  by (simp_all add: Reset_def SetName_def)

text \<open>A full quarantine gives up its oldest thread \<open>d\<close>, whose context becomes invalid.\<close>

lemma QuarantinePush_full:
  assumes inv: "reg_inv {i} r ds vs" and "i \<noteq> 0" "tid (threads r ! i) = i" and dd: "ds @ [i] = d # ds'"
    and hl: "il_push_back (ctx_next r) (dead_threads r) (ctx_ptr i) = (h, l)"
    and L: "reg_lists (r\<lparr>ctx_next := h, dead_threads := l\<rparr>) (d # ds') vs"
    and dead: "set (d # ds') = in_state r ThreadStatusDead - {0}" and full: "length ds = thread_quarantine_size r"
  obtains r' c where "QuarantinePush r i = Some r'" "reg_ok r'" "threads r' = (threads r)[d := c]" "status c = ThreadStatusInvalid"
    "thread_quarantine_size r' = thread_quarantine_size r" "d \<in> in_state r ThreadStatusDead"
proof -
  let ?r1 = "r\<lparr>ctx_next := h, dead_threads := l\<rparr>"
  obtain l' where l': "il_pop_front h l = Some l'" "reg_lists (?r1\<lparr>dead_threads := l'\<rparr>) ds' vs"
    using pop_dead [OF L] by auto
  define r2 where "r2 = ?r1\<lparr>dead_threads := l'\<rparr>"
  have D: "distinct (d # ds')" using reg_lists_distinct [OF L] by simp
  have len: "length ds' = length ds" using arg_cong [OF dd, of length] by simp
  have "d \<in> in_state r ThreadStatusDead - {0}" unfolding dead [symmetric] by simp
  then have d: "d \<in> in_state r ThreadStatusDead" "d \<in> in_state r2 ThreadStatusDead" "d \<noteq> 0" by (simp_all add: r2_def)
  have "set ds' = in_state r ThreadStatusDead - {0} - {d}" using D unfolding dead [symmetric] by auto
  then have inv2: "reg_inv {d} r2 ds' vs" using inv l'(2) len by (simp add: reg_inv_def r2_def)
  define c where "c = (Reset (threads r ! d))\<lparr>reuse_count := reuse_count (Reset (threads r ! d)) + 1\<rparr>"
  have c: "tid c = d" "unique_id c = unique_id (threads r2 ! d)" "status c = ThreadStatusInvalid" "\<not> thread_destroyed c"
    using d inv by (auto simp: c_def r2_def reg_inv_def reg_table_def in_state_def)
  note R = retire [OF inv2 d(2,3) c]
  obtain h3 l3 where hl3: "il_push_back (ctx_next r2) (invalid_threads r2) (ctx_ptr d) = (h3, l3)" by fastforce
  define r3 where "r3 = (if 0 < max_reuse r \<and> max_reuse r \<le> reuse_count c then put_ctx r2 d c
    else (put_ctx r2 d c)\<lparr>ctx_next := h3, invalid_threads := l3\<rparr>)"
  have "il_first l = ctx_ptr d" "il_size l = length ds + 1" using L len by (simp_all add: reg_lists_def il_list_def)
  moreover have "d < length (threads r)" "status (threads r ! d) = ThreadStatusDead" using d by (auto simp: in_state_def)
  ultimately have "QuarantinePush r i = Some r3"
    using assms(2,3) full hl hl3 l'(1) by (simp add: QuarantinePush_def r2_def r3_def c_def Let_def)
  moreover have "reg_ok r3" using R(1) R(2) [OF hl3] by (auto simp: reg_ok_def r3_def)
  moreover have "threads r3 = (threads r)[d := c]" "thread_quarantine_size r3 = thread_quarantine_size r"
    by (simp_all add: r3_def r2_def)
  ultimately show ?thesis using c(3) d(1) by (intro that [of r3 c]) simp_all
qed

text \<open>The thread \<open>i\<close> stays as it is, unless the quarantine has no room at all.\<close>

lemma QuarantinePush_correct:
  assumes inv: "reg_inv {i} r ds vs" and i: "i \<in> in_state r ThreadStatusDead"
  obtains r' where "QuarantinePush r i = Some r'" "reg_ok r'" "length (threads r') = length (threads r)"
    "threads r' ! i = threads r ! i \<or> thread_quarantine_size r = 0 \<and> status (threads r' ! i) = ThreadStatusInvalid"
    "thread_quarantine_size r' = thread_quarantine_size r"
    "\<And>j. status (threads r ! j) \<noteq> ThreadStatusDead \<Longrightarrow> threads r' ! j = threads r ! j"
proof (cases "i = 0")
  case True
  then have "QuarantinePush r i = Some r" using inv i by (auto simp: QuarantinePush_def reg_inv_def reg_table_def in_state_def)
  moreover have "reg_ok r" using inv True by (auto simp: reg_ok_def reg_inv_def)
  ultimately show ?thesis by (intro that [of r]) auto
next
  case False
  obtain h l where hl: "il_push_back (ctx_next r) (dead_threads r) (ctx_ptr i) = (h, l)" by fastforce
  let ?r1 = "r\<lparr>ctx_next := h, dead_threads := l\<rparr>"
  have nd: "i \<notin> set ds" "i \<notin> set vs" "set ds \<inter> set vs = {}" using reg_inv_disjoint [OF inv] i by simp_all
  have L: "reg_lists ?r1 (ds @ [i]) vs" using inv nd hl by (intro push_dead) (auto simp: reg_inv_def)
  have tid: "tid (threads r ! i) = i" using inv i by (auto simp: reg_inv_def reg_table_def in_state_def)
  have dead: "set (ds @ [i]) = in_state r ThreadStatusDead - {0}" using inv i False by (auto simp: reg_inv_def)
  show ?thesis
  proof (cases "length ds + 1 \<le> thread_quarantine_size r")
    case True
    have "il_size l = length ds + 1" using L by (simp add: reg_lists_def il_list_def)
    then have "QuarantinePush r i = Some ?r1" using True False tid hl by (simp add: QuarantinePush_def)
    moreover have "reg_inv {} ?r1 (ds @ [i]) vs" using inv L True dead by (simp add: reg_inv_def)
    then have "reg_ok ?r1" by (auto simp: reg_ok_def)
    ultimately show ?thesis by (intro that [of ?r1]) simp_all
  next
    case full: False
    obtain d ds' where dd: "ds @ [i] = d # ds'" by (cases "ds @ [i]") auto
    have q: "length ds = thread_quarantine_size r" using full inv by (simp add: reg_inv_def)
    have "d = i \<longleftrightarrow> ds = []" using dd nd by (cases ds) auto
    then have di: "d = i \<longleftrightarrow> thread_quarantine_size r = 0" using q by auto
    obtain r' c where "QuarantinePush r i = Some r'" "reg_ok r'" "threads r' = (threads r)[d := c]" "status c = ThreadStatusInvalid"
      "thread_quarantine_size r' = thread_quarantine_size r" "d \<in> in_state r ThreadStatusDead"
      by (rule QuarantinePush_full [OF inv False tid dd hl L [unfolded dd] dead [unfolded dd] q]) (rule that)
    then show ?thesis using di by (intro that [of r']) (auto simp: nth_list_update in_state_def)
  qed
qed

section \<open>Changes of state\<close>

text \<open>A thread that is created, running or finished moves to another state, and the counters follow.\<close>

lemma card_move:
  assumes "finite A" "B = (if p then insert i A else A - {i})"
  shows "card B + of_bool (i \<in> A) = card A + of_bool p"
proof (cases "i \<in> A")
  case True
  then show ?thesis using assms card_Suc_Diff1 [of A i] by (auto simp: insert_absorb)
qed (use assms in auto)

lemma reg_inv_move:
  assumes inv: "reg_inv {} r ds vs" and i: "i < length (threads r)"
    and c: "tid c = i" "unique_id c = unique_id (threads r ! i)" "status c \<noteq> ThreadStatusInvalid"
    and old: "status (threads r ! i) \<noteq> ThreadStatusInvalid" "status (threads r ! i) \<noteq> ThreadStatusDead"
    and a: "a + of_bool (i \<in> alive_set r) = alive_threads r + of_bool (status c \<in> {ThreadStatusCreated, ThreadStatusRunning})"
    and b: "b + of_bool (i \<in> in_state r ThreadStatusRunning) = running_threads r + of_bool (status c = ThreadStatusRunning)"
    and le: "a \<le> max_alive_threads r"
    and fl: "0 < thread_quarantine_size r \<Longrightarrow> status c \<in> {ThreadStatusCreated, ThreadStatusRunning} \<Longrightarrow> \<not> thread_destroyed c"
      "status c = ThreadStatusFinished \<Longrightarrow> thread_destroyed c \<and> \<not> detached c"
  shows "reg_inv (if status c = ThreadStatusDead then {i} else {})
    ((put_ctx r i c)\<lparr>alive_threads := a, running_threads := b\<rparr>) ds vs"
proof -
  let ?r = "put_ctx r i c"
  note st = in_state_put [OF i, of c]
  have al: "alive_set ?r = (if status c \<in> {ThreadStatusCreated, ThreadStatusRunning} then insert i (alive_set r) else alive_set r - {i})"
    by (auto simp: alive_set_def st)
  have "a = card (alive_set ?r)"
    using card_move [OF _ al] a inv by (simp add: reg_inv_def reg_counts_def)
  moreover have "b = card (in_state ?r ThreadStatusRunning)"
    using card_move [OF _ st [of ThreadStatusRunning]] b inv by (simp add: reg_inv_def reg_counts_def)
  ultimately have "reg_counts (?r\<lparr>alive_threads := a, running_threads := b\<rparr>)" using le by (simp add: reg_counts_def)
  moreover have iv: "i \<notin> in_state r ThreadStatusInvalid" "i \<notin> in_state r ThreadStatusDead" using old by (simp_all add: in_state_def)
  moreover have "reg_flags ?r vs"
    using inv fl i iv by (auto simp: reg_inv_def reg_flags_def al st nth_list_update)
  moreover have "reg_table ?r" using inv i c old by (intro reg_table_put) (auto simp: reg_inv_def)
  ultimately show ?thesis using inv c
    by (auto simp: reg_inv_def reg_lists_def reg_table_def reg_flags_def st)
qed

lemma of_bool_alive: "i < length (threads r) \<Longrightarrow>
    of_bool (i \<in> alive_set r) = (of_bool (status (threads r ! i) \<in> {ThreadStatusCreated, ThreadStatusRunning}) :: nat)"
  "i < length (threads r) \<Longrightarrow>
    of_bool (i \<in> in_state r ThreadStatusRunning) = (of_bool (status (threads r ! i) = ThreadStatusRunning) :: nat)"
  by (auto simp: alive_set_def in_state_def)

lemma put_ctx_twice [simp]: "put_ctx (put_ctx r i c) i d = put_ctx r i d"
  by (simp add: put_ctx_def)

lemma counters_positive:
  assumes "reg_counts r" "i < length (threads r)"
  shows "status (threads r ! i) = ThreadStatusRunning \<Longrightarrow> 0 < running_threads r \<and> 0 < alive_threads r"
    and "status (threads r ! i) = ThreadStatusCreated \<Longrightarrow> 0 < alive_threads r"
  using assms by (auto simp: reg_counts_def card_gt_0_iff alive_set_def in_state_def)

lemma StartThread_correct:
  assumes "reg_ok r" "i < length (threads r)" "status (threads r ! i) = ThreadStatusCreated"
  shows "\<exists>r'. StartThread r i os ty = Some r' \<and> reg_ok r' \<and> threads r' = (threads r)[i := SetStarted os ty (threads r ! i)]"
proof -
  obtain ds vs where inv: "reg_inv {} r ds vs" using assms(1) by (auto simp: reg_ok_def)
  define c where "c = SetStarted os ty (threads r ! i)"
  have "\<not> thread_destroyed (threads r ! i)" if "0 < thread_quarantine_size r"
    using inv that assms(2,3) by (auto simp: reg_inv_def reg_flags_def alive_set_def in_state_def)
  then have "reg_inv (if status c = ThreadStatusDead then {i} else {})
      ((put_ctx r i c)\<lparr>alive_threads := alive_threads r, running_threads := running_threads r + 1\<rparr>) ds vs"
    using inv assms(2,3) of_bool_alive [OF assms(2)]
    by (intro reg_inv_move) (auto simp: c_def SetStarted_def reg_inv_def reg_table_def reg_counts_def)
  moreover have "StartThread r i os ty = Some ((put_ctx r i c)\<lparr>alive_threads := alive_threads r, running_threads := running_threads r + 1\<rparr>)"
    using assms by (simp add: StartThread_def put_ctx_def c_def)
  ultimately show ?thesis by (auto simp: reg_ok_def c_def SetStarted_def)
qed

text \<open>A thread dies and goes to the quarantine.\<close>

lemma bury:
  assumes inv: "reg_inv {} r ds vs" and i: "i < length (threads r)"
    and c: "tid c = i" "unique_id c = unique_id (threads r ! i)" "status c = ThreadStatusDead"
    and old: "status (threads r ! i) \<noteq> ThreadStatusInvalid" "status (threads r ! i) \<noteq> ThreadStatusDead"
    and a: "a + of_bool (i \<in> alive_set r) = alive_threads r"
    and b: "b + of_bool (i \<in> in_state r ThreadStatusRunning) = running_threads r"
  obtains r' where "QuarantinePush ((put_ctx r i c)\<lparr>alive_threads := a, running_threads := b\<rparr>) i = Some r'" "reg_ok r'"
    "length (threads r') = length (threads r)" "thread_quarantine_size r' = thread_quarantine_size r"
    "threads r' ! i = c \<or> thread_quarantine_size r = 0 \<and> status (threads r' ! i) = ThreadStatusInvalid"
    "\<And>j. status (threads r ! j) \<noteq> ThreadStatusDead \<Longrightarrow> j \<noteq> i \<Longrightarrow> threads r' ! j = threads r ! j"
proof -
  let ?r = "(put_ctx r i c)\<lparr>alive_threads := a, running_threads := b\<rparr>"
  have "a \<le> max_alive_threads r" using inv a by (simp add: reg_inv_def reg_counts_def)
  then have "reg_inv (if status c = ThreadStatusDead then {i} else {}) ?r ds vs"
    using inv i c old a b by (intro reg_inv_move) auto
  then have inv2: "reg_inv {i} ?r ds vs" using c by simp
  have dead: "i \<in> in_state ?r ThreadStatusDead" using i c by (simp add: in_state_def)
  obtain r' where "QuarantinePush ?r i = Some r'" "reg_ok r'" "length (threads r') = length (threads ?r)"
    "threads r' ! i = threads ?r ! i \<or> thread_quarantine_size ?r = 0 \<and> status (threads r' ! i) = ThreadStatusInvalid"
    "thread_quarantine_size r' = thread_quarantine_size ?r"
    "\<And>j. status (threads ?r ! j) \<noteq> ThreadStatusDead \<Longrightarrow> threads r' ! j = threads ?r ! j"
    by (rule QuarantinePush_correct [OF inv2 dead]) (rule that)
  then show ?thesis using i by (intro that [of r']) simp_all
qed

lemma bury_finished:
  assumes inv: "reg_inv {} r ds vs" and i: "i < length (threads r)"
    and c: "tid c = i" "unique_id c = unique_id (threads r ! i)" "status c = ThreadStatusDead"
    and old: "status (threads r ! i) = ThreadStatusFinished"
  obtains r' where "QuarantinePush (put_ctx r i c) i = Some r'" "reg_ok r'" "thread_quarantine_size r' = thread_quarantine_size r"
    "length (threads r') = length (threads r)"
    "threads r' ! i = c \<or> thread_quarantine_size r = 0 \<and> status (threads r' ! i) = ThreadStatusInvalid"
    "\<And>j. status (threads r ! j) \<noteq> ThreadStatusDead \<Longrightarrow> j \<noteq> i \<Longrightarrow> threads r' ! j = threads r ! j"
proof -
  have eq: "(put_ctx r i c)\<lparr>alive_threads := alive_threads r, running_threads := running_threads r\<rparr> = put_ctx r i c"
    by (simp add: put_ctx_def)
  have same: "alive_threads r + of_bool (i \<in> alive_set r) = alive_threads r"
      "running_threads r + of_bool (i \<in> in_state r ThreadStatusRunning) = running_threads r"
    using old of_bool_alive [OF i] by simp_all
  obtain r' where "QuarantinePush (put_ctx r i c) i = Some r'" "reg_ok r'" "length (threads r') = length (threads r)"
    "thread_quarantine_size r' = thread_quarantine_size r"
    "threads r' ! i = c \<or> thread_quarantine_size r = 0 \<and> status (threads r' ! i) = ThreadStatusInvalid"
    "\<And>j. status (threads r ! j) \<noteq> ThreadStatusDead \<Longrightarrow> j \<noteq> i \<Longrightarrow> threads r' ! j = threads r ! j"
    by (rule bury [OF inv i c _ _ same, unfolded eq]) (use old that in simp_all)
  then show ?thesis by (intro that [of r']) simp_all
qed

lemma reg_inv_put_destroyed:
  assumes "reg_inv P r ds vs" "i < length (threads r)"
    and "status (threads r ! i) = ThreadStatusDead \<or> status (threads r ! i) = ThreadStatusInvalid \<and> thread_quarantine_size r = 0"
  shows "reg_inv P (put_ctx r i (SetDestroyed (threads r ! i))) ds vs"
proof -
  let ?c = "SetDestroyed (threads r ! i)"
  have c: "tid ?c = tid (threads r ! i)" "unique_id ?c = unique_id (threads r ! i)" "status ?c = status (threads r ! i)"
    by (simp_all add: SetDestroyed_def)
  have st: "in_state (put_ctx r i ?c) st = in_state r st" for st
    using assms(2) c by (auto simp: in_state_def nth_list_update)
  have al: "alive_set (put_ctx r i ?c) = alive_set r" by (simp add: alive_set_def st)
  have "i \<notin> alive_set r" "i \<notin> in_state r ThreadStatusFinished" "0 < thread_quarantine_size r \<Longrightarrow> i \<notin> set vs"
    using assms by (auto simp: alive_set_def in_state_def reg_inv_def)
  then have "reg_flags (put_ctx r i ?c) vs"
    using assms(1,2) by (auto simp: reg_inv_def reg_flags_def st al nth_list_update)
  moreover have "reg_table (put_ctx r i ?c)" using assms c by (intro reg_table_put) (auto simp: reg_inv_def reg_table_def)
  ultimately show ?thesis using assms(1) by (simp add: reg_inv_def reg_counts_def st al)
qed

lemma DetachThread_correct:
  assumes "reg_ok r" "i < length (threads r)"
  shows "\<exists>r'. DetachThread r i = Some r' \<and> reg_ok r' \<and> thread_quarantine_size r' = thread_quarantine_size r"
proof -
  obtain ds vs where inv: "reg_inv {} r ds vs" using assms(1) by (auto simp: reg_ok_def)
  have tid: "tid (threads r ! i) = i" using inv assms(2) by (simp add: reg_inv_def reg_table_def)
  consider "status (threads r ! i) = ThreadStatusInvalid" | "status (threads r ! i) = ThreadStatusFinished" |
    "status (threads r ! i) \<noteq> ThreadStatusInvalid" "status (threads r ! i) \<noteq> ThreadStatusFinished" by blast
  then show ?thesis
  proof cases
    case 2
    then show ?thesis
      using bury_finished [OF inv assms(2), of "(threads r ! i)\<lparr>status := ThreadStatusDead, user_id := 0\<rparr>"] tid assms(2)
      by (fastforce simp: DetachThread_def SetDead_def)
  next
    case 3
    then have "reg_inv {} (put_ctx r i ((threads r ! i)\<lparr>detached := True\<rparr>)) ds vs"
      using inv assms(2) tid by (intro reg_inv_put_same) auto
    then show ?thesis using 3 assms(2) by (auto simp: DetachThread_def reg_ok_def)
  qed (use assms in \<open>auto simp: DetachThread_def\<close>)
qed

text \<open>A round of \<open>JoinThread\<close> yields while the thread is created or running and returns once it is finished.\<close>

lemma JoinThread_round_finished:
  assumes "reg_ok r" "i < length (threads r)" "status (threads r ! i) = ThreadStatusFinished"
  obtains r' where "JoinThread_round r i = Some (JoinReturns, r')" "reg_ok r'" "thread_quarantine_size r' = thread_quarantine_size r"
    "status (threads r' ! i) = ThreadStatusDead \<or> thread_quarantine_size r = 0 \<and> status (threads r' ! i) = ThreadStatusInvalid"
    "\<And>j. status (threads r ! j) \<noteq> ThreadStatusDead \<Longrightarrow> j \<noteq> i \<Longrightarrow> threads r' ! j = threads r ! j"
proof -
  obtain ds vs where inv: "reg_inv {} r ds vs" using assms(1) by (auto simp: reg_ok_def)
  have t: "tid (threads r ! i) = i" "thread_destroyed (threads r ! i)" "\<not> detached (threads r ! i)"
    using inv assms by (auto simp: reg_inv_def reg_table_def reg_flags_def in_state_def)
  let ?c = "(threads r ! i)\<lparr>status := ThreadStatusDead, user_id := 0\<rparr>"
  obtain r' where "QuarantinePush (put_ctx r i ?c) i = Some r'" "reg_ok r'" "thread_quarantine_size r' = thread_quarantine_size r"
    "threads r' ! i = ?c \<or> thread_quarantine_size r = 0 \<and> status (threads r' ! i) = ThreadStatusInvalid"
    "\<And>j. status (threads r ! j) \<noteq> ThreadStatusDead \<Longrightarrow> j \<noteq> i \<Longrightarrow> threads r' ! j = threads r ! j"
    using bury_finished [OF inv assms(2), of ?c] t assms(3) by auto
  then show ?thesis using t assms(2,3)
    by (intro that [of r']) (auto simp: JoinThread_round_def SetJoined_def GetDestroyed_def)
qed

lemma JoinThread_round_alive:
  assumes "reg_ok r" "i \<in> alive_set r" "0 < thread_quarantine_size r"
  shows "JoinThread_round r i = Some (JoinYields, r)"
proof -
  have "\<not> thread_destroyed (threads r ! i)" using assms by (auto simp: reg_ok_def reg_inv_def reg_flags_def)
  then show ?thesis using assms(2) by (auto simp: JoinThread_round_def GetDestroyed_def alive_set_def in_state_def)
qed

text \<open>\<open>FinishThread\<close> on a running thread that is not detached keeps it for \<open>JoinThread\<close>; otherwise the thread dies.\<close>

lemma FinishThread_joinable:
  assumes "reg_ok r" "i < length (threads r)" "status (threads r ! i) = ThreadStatusRunning" "\<not> detached (threads r ! i)"
  shows "\<exists>r'. FinishThread r i = Some (ThreadStatusRunning, r') \<and> reg_ok r' \<and> thread_quarantine_size r' = thread_quarantine_size r \<and>
    threads r' = (threads r)[i := (threads r ! i)\<lparr>status := ThreadStatusFinished, thread_destroyed := True\<rparr>]"
proof -
  obtain ds vs where inv: "reg_inv {} r ds vs" using assms(1) by (auto simp: reg_ok_def)
  let ?c = "(threads r ! i)\<lparr>status := ThreadStatusFinished, thread_destroyed := True\<rparr>"
  let ?r = "(put_ctx r i ?c)\<lparr>alive_threads := alive_threads r - 1, running_threads := running_threads r - 1\<rparr>"
  have pos: "0 < running_threads r" "0 < alive_threads r"
    using counters_positive [of r i] inv assms(2,3) by (auto simp: reg_inv_def)
  have "reg_inv (if status ?c = ThreadStatusDead then {i} else {}) ?r ds vs"
    using inv assms pos of_bool_alive [OF assms(2)]
    by (intro reg_inv_move) (auto simp: reg_inv_def reg_table_def reg_counts_def)
  moreover have "FinishThread r i = Some (ThreadStatusRunning, ?r)"
    using assms pos by (simp add: FinishThread_def SetFinished_def SetDestroyed_def put_ctx_def)
  ultimately show ?thesis by (auto simp: reg_ok_def)
qed

lemma FinishThread_dies:
  assumes "reg_ok r" "i < length (threads r)"
    and st: "status (threads r ! i) = ThreadStatusCreated \<or> status (threads r ! i) = ThreadStatusRunning \<and> detached (threads r ! i)"
  shows "\<exists>r'. FinishThread r i = Some (status (threads r ! i), r') \<and> reg_ok r' \<and> thread_quarantine_size r' = thread_quarantine_size r \<and>
    (status (threads r' ! i) = ThreadStatusDead \<or> thread_quarantine_size r = 0 \<and> status (threads r' ! i) = ThreadStatusInvalid)"
proof -
  obtain ds vs where inv: "reg_inv {} r ds vs" using assms(1) by (auto simp: reg_ok_def)
  let ?run = "status (threads r ! i) = ThreadStatusRunning"
  let ?b = "if ?run then running_threads r - 1 else running_threads r"
  let ?c = "(threads r ! i)\<lparr>status := ThreadStatusDead, user_id := 0\<rparr>"
  let ?r = "(put_ctx r i ?c)\<lparr>alive_threads := alive_threads r - 1, running_threads := ?b\<rparr>"
  have pos: "?run \<Longrightarrow> 0 < running_threads r" "0 < alive_threads r"
    using counters_positive [of r i] inv assms(2) st by (auto simp: reg_inv_def)
  have old: "status (threads r ! i) \<noteq> ThreadStatusInvalid" "status (threads r ! i) \<noteq> ThreadStatusDead" using st by auto
  have c: "tid ?c = i" "unique_id ?c = unique_id (threads r ! i)" "status ?c = ThreadStatusDead"
    using inv assms(2) by (auto simp: reg_inv_def reg_table_def)
  have ab: "alive_threads r - 1 + of_bool (i \<in> alive_set r) = alive_threads r"
      "?b + of_bool (i \<in> in_state r ThreadStatusRunning) = running_threads r"
    using pos st of_bool_alive [OF assms(2)] by auto
  obtain r' where r': "QuarantinePush ?r i = Some r'" "reg_ok r'" "length (threads r') = length (threads r)"
    "thread_quarantine_size r' = thread_quarantine_size r"
    "threads r' ! i = ?c \<or> thread_quarantine_size r = 0 \<and> status (threads r' ! i) = ThreadStatusInvalid"
    by (rule bury [OF inv assms(2) c old ab]) (rule that)
  have "FinishThread r i = Some (status (threads r ! i), put_ctx r' i (SetDestroyed (threads r' ! i)))"
    using st assms(2) pos r'(1) by (auto simp: FinishThread_def SetFinished_def SetDead_def put_ctx_counters)
  moreover have "status (threads r' ! i) = ThreadStatusDead \<or> status (threads r' ! i) = ThreadStatusInvalid \<and> thread_quarantine_size r' = 0"
    using r'(4,5) by auto
  moreover have "reg_ok (put_ctx r' i (SetDestroyed (threads r' ! i)))"
    using r'(2,3) calculation(2) reg_inv_put_destroyed [of _ r' _ _ i] assms(2) unfolding reg_ok_def by metis
  ultimately show ?thesis using r'(3,4) assms(2) by (auto simp: SetDestroyed_def)
qed

section \<open>Creation\<close>

text \<open>A context that is invalid and in no list becomes that of a new thread.\<close>

lemma reg_inv_create:
  assumes inv: "reg_inv {} r ds vs" and i: "i \<in> in_state r ThreadStatusInvalid" "i \<notin> set vs"
    and fl: "0 < thread_quarantine_size r \<Longrightarrow> \<not> thread_destroyed (threads r ! i)"
    and m: "m = max (max_alive_threads r) (alive_threads r + 1)"
  shows "reg_inv {} ((put_ctx r i (SetCreated u (total_threads r) det p (threads r ! i)))
    \<lparr>alive_threads := alive_threads r + 1, max_alive_threads := m, total_threads := total_threads r + 1\<rparr>) ds vs"
proof -
  let ?c = "SetCreated u (total_threads r) det p (threads r ! i)"
  let ?r = "put_ctx r i ?c"
  have il: "i < length (threads r)" using i by (simp add: in_state_def)
  have c: "status ?c = ThreadStatusCreated" "unique_id ?c = total_threads r" "tid ?c = tid (threads r ! i)"
    "thread_destroyed ?c = thread_destroyed (threads r ! i)"
    by (simp_all add: SetCreated_def Let_def)
  have st: "in_state ?r st = (if st = ThreadStatusCreated then insert i (in_state r st) else in_state r st - {i})" for st
    using in_state_put [OF il, of ?c st] c by auto
  have no: "i \<notin> in_state r st" if "st \<noteq> ThreadStatusInvalid" for st using i(1) that by (simp add: in_state_def)
  then have al: "alive_set ?r = insert i (alive_set r)" "i \<notin> alive_set r" by (auto simp: alive_set_def st)
  have us: "used_set ?r = insert i (used_set r)" "i \<notin> used_set r"
    using i il by (auto simp: used_set_def st)
  have uid: "unique_id ((threads r)[i := ?c] ! j) = (if j = i then total_threads r else unique_id (threads r ! j))" for j
    using il c by (simp add: nth_list_update)
  have "inj_on (\<lambda>j. unique_id (threads ?r ! j)) (used_set ?r)"
  proof -
    have "inj_on (\<lambda>j. unique_id (threads ?r ! j)) (used_set r)"
      using inv us(2) by (auto simp: uid inj_on_def reg_inv_def reg_table_def)
    moreover have "unique_id (threads ?r ! j) < total_threads r" if "j \<in> used_set r" for j
      using inv us(2) that by (auto simp: uid reg_inv_def reg_table_def)
    ultimately show ?thesis using us il c by (fastforce simp: uid)
  qed
  moreover have "unique_id (threads ?r ! j) < total_threads r + 1" if "j \<in> used_set ?r" for j
    using that inv us by (auto simp: uid reg_inv_def reg_table_def less_Suc_eq)
  ultimately have tab: "reg_table (?r\<lparr>total_threads := total_threads r + 1\<rparr>)"
    using inv c il by (simp add: reg_inv_def reg_table_def nth_list_update)
  have "reg_flags ?r vs"
    using inv fl i il c by (auto simp: reg_inv_def reg_flags_def al st nth_list_update)
  moreover have "set ds = in_state ?r ThreadStatusDead - {0}" using inv no by (simp add: reg_inv_def st)
  moreover have "set vs \<subseteq> in_state ?r ThreadStatusInvalid - {0}" using inv i by (auto simp: reg_inv_def st)
  ultimately show ?thesis using inv tab al no m
    by (auto simp: reg_inv_def reg_lists_def reg_table_def reg_counts_def reg_flags_def st)
qed

lemma in_range:
  "j \<in> used_set r \<Longrightarrow> j < length (threads r)" "j \<in> alive_set r \<Longrightarrow> j < length (threads r)"
  "j \<in> in_state r st \<Longrightarrow> j < length (threads r)"
  by (auto simp: used_set_def alive_set_def in_state_def)

lemma in_state_append:
  "in_state (r\<lparr>threads := threads r @ [c]\<rparr>) st =
    (if status c = st then insert (length (threads r)) (in_state r st) else in_state r st)"
  by (auto simp: in_state_def nth_append less_Suc_eq)

text \<open>A new context, still invalid, extends the table.\<close>

lemma reg_inv_append:
  assumes "reg_inv {} r ds vs" "length (threads r) < max_threads r"
  shows "reg_inv {} (r\<lparr>threads := threads r @ [new_context (length (threads r))]\<rparr>) ds vs"
proof -
  let ?r = "r\<lparr>threads := threads r @ [new_context (length (threads r))]\<rparr>"
  have c: "status (new_context n) = ThreadStatusInvalid" "tid (new_context n) = n" for n by (simp_all add: new_context_def)
  have st: "in_state ?r st = (if st = ThreadStatusInvalid then insert (length (threads r)) (in_state r st) else in_state r st)" for st
    using in_state_append [of r "new_context (length (threads r))" st] c by auto
  have al: "alive_set ?r = alive_set r" by (simp add: alive_set_def st)
  have us: "used_set ?r = used_set r" by (auto simp: used_set_def st less_Suc_eq)
  have nth: "threads ?r ! j = threads r ! j" if "j < length (threads r)" for j using that by (simp add: nth_append)
  have "reg_table ?r"
    using assms c us in_range [of _ r] by (auto simp: reg_inv_def reg_table_def nth_append less_Suc_eq inj_on_def)
  moreover have "reg_counts ?r" using assms al st by (simp add: reg_inv_def reg_counts_def)
  moreover have "j < length (threads r)" if "j \<in> set vs" for j using assms(1) that in_range(3) by (auto simp: reg_inv_def)
  then have "reg_flags ?r vs" using assms(1) in_range [of _ r] by (auto simp: reg_inv_def reg_flags_def nth_append al st)
  ultimately show ?thesis using assms by (auto simp: reg_inv_def reg_lists_def st)
qed

text \<open>The allocation of a context succeeds unless none can be reused and the limit is reached.\<close>

lemma alloc_context_correct:
  assumes "reg_ok r" "0 < il_size (invalid_threads r) \<or> length (threads r) < max_threads r"
  obtains i r' ds vs where "alloc_context r = Some (i, r')" "reg_inv {} r' ds vs" "i \<in> in_state r' ThreadStatusInvalid" "i \<notin> set vs"
    "0 < thread_quarantine_size r' \<Longrightarrow> \<not> thread_destroyed (threads r' ! i)"
    "i < length (threads r) \<and> threads r' = threads r \<or>
      i = length (threads r) \<and> threads r' = threads r @ [new_context i]"
proof -
  obtain ds vs where inv: "reg_inv {} r ds vs" using assms(1) by (auto simp: reg_ok_def)
  have size: "il_size (invalid_threads r) = length vs" using inv by (simp add: reg_inv_def reg_lists_def il_list_def)
  show ?thesis
  proof (cases vs)
    case Nil
    let ?r = "r\<lparr>threads := threads r @ [new_context (length (threads r))]\<rparr>"
    have lt: "length (threads r) < max_threads r" using assms(2) size Nil by simp
    have "alloc_context r = Some (length (threads r), ?r)"
      using lt size Nil by (simp add: alloc_context_def QuarantinePop_def)
    moreover have "length (threads r) \<in> in_state ?r ThreadStatusInvalid" by (simp add: in_state_def new_context_def)
    ultimately show ?thesis using reg_inv_append [OF inv lt] Nil
      by (intro that [of "length (threads r)" ?r ds vs]) (simp_all add: new_context_def)
  next
    case (Cons v vs')
    have L: "reg_lists r ds (v # vs')" using inv Cons by (simp add: reg_inv_def)
    obtain l where l: "il_pop_front (ctx_next r) (invalid_threads r) = Some l" "reg_lists (r\<lparr>invalid_threads := l\<rparr>) ds vs'"
      using pop_invalid [OF L] by auto
    have v: "v \<in> in_state r ThreadStatusInvalid" "v \<notin> set vs'" "v < length (threads r)"
      using inv Cons reg_lists_distinct [OF L] by (auto simp: reg_inv_def in_state_def)
    have "il_first (invalid_threads r) = ctx_ptr v" using L by (simp add: reg_lists_def il_list_def)
    then have "alloc_context r = Some (v, r\<lparr>invalid_threads := l\<rparr>)"
      using size Cons l(1) v(3) inv by (simp add: alloc_context_def QuarantinePop_def reg_inv_def reg_table_def)
    moreover have "reg_inv {} (r\<lparr>invalid_threads := l\<rparr>) ds vs'"
      using inv l(2) Cons by (auto simp: reg_inv_def reg_flags_def)
    moreover have "0 < thread_quarantine_size r \<Longrightarrow> \<not> thread_destroyed (threads r ! v)"
      using inv Cons by (auto simp: reg_inv_def reg_flags_def)
    ultimately show ?thesis using v by (intro that [of v "r\<lparr>invalid_threads := l\<rparr>" ds vs']) simp_all
  qed
qed

lemma CreateThread_correct:
  assumes "reg_ok r" "0 < il_size (invalid_threads r) \<or> length (threads r) < max_threads r"
  obtains i r' where "CreateThread r u det p = Some (i, r')" "reg_ok r'" "i \<notin> used_set r" "i \<in> in_state r' ThreadStatusCreated"
    "unique_id (threads r' ! i) = total_threads r" "\<And>j. j \<in> used_set r \<Longrightarrow> threads r' ! j = threads r ! j"
proof -
  obtain i r1 ds vs where a: "alloc_context r = Some (i, r1)" "reg_inv {} r1 ds vs" "i \<in> in_state r1 ThreadStatusInvalid" "i \<notin> set vs"
    "0 < thread_quarantine_size r1 \<Longrightarrow> \<not> thread_destroyed (threads r1 ! i)"
    "i < length (threads r) \<and> threads r1 = threads r \<or> i = length (threads r) \<and> threads r1 = threads r @ [new_context i]"
    by (rule alloc_context_correct [OF assms]) (rule that)
  define c where "c = SetCreated u (total_threads r1) det p (threads r1 ! i)"
  define m where "m = max (max_alive_threads r1) (alive_threads r1 + 1)"
  define r' where "r' = (put_ctx r1 i c)\<lparr>alive_threads := alive_threads r1 + 1, max_alive_threads := m, total_threads := total_threads r1 + 1\<rparr>"
  have inv: "reg_inv {} r' ds vs" unfolding r'_def c_def by (rule reg_inv_create [OF a(2-5) m_def])
  have i: "i < length (threads r1)" "status (threads r1 ! i) = ThreadStatusInvalid" using a(3) by (auto simp: in_state_def)
  have "i < max_threads r1" "i < kInvalidTid" "alive_threads r1 \<le> max_alive_threads r1"
    using i(1) a(2) by (auto simp: reg_inv_def reg_table_def reg_counts_def kInvalidTid_def)
  then have "CreateThread r u det p = Some (i, r')"
    using i a(1) unfolding r'_def c_def m_def
    by (cases "max_alive_threads r1 = alive_threads r1"; cases r1) (simp_all add: CreateThread_def Let_def put_ctx_def max_def)
  moreover have "total_threads r1 = total_threads r"
    using a(1) by (auto simp: alloc_context_def QuarantinePop_def split: if_splits bind_splits)
  moreover have "i \<in> in_state r' ThreadStatusCreated"
    using i by (simp add: r'_def in_state_def c_def SetCreated_def Let_def)
  moreover have "i \<notin> used_set r" using a(6) i by (auto simp: used_set_def in_state_def)
  moreover have "threads r' ! j = threads r ! j" if "j \<in> used_set r" for j
    using that a(6) \<open>i \<notin> used_set r\<close> by (auto simp: r'_def used_set_def nth_append nth_list_update)
  moreover have "reg_ok r'" using inv by (auto simp: reg_ok_def)
  moreover have "unique_id (threads r' ! i) = total_threads r1" using i by (simp add: r'_def c_def SetCreated_def Let_def)
  ultimately show ?thesis by (intro that [of i r']) simp_all
qed

lemma CreateThread_limit:
  assumes "il_size (invalid_threads r) = 0" "max_threads r \<le> length (threads r)"
  shows "CreateThread r u det p = None"
  using assms by (simp add: CreateThread_def alloc_context_def QuarantinePop_def)

section \<open>Sequences of operations\<close>

lemma name_by_user_id_update:
  "\<exists>i c. name_by_user_id u n cs = cs[i := c] \<and> (i < length cs \<longrightarrow> c = cs ! i \<or> c = SetName n (cs ! i))"
proof (induction cs)
  case (Cons c cs)
  show ?case
  proof (cases "user_id c = u \<and> status c \<noteq> ThreadStatusInvalid")
    case True
    then show ?thesis by (intro exI [of _ 0] exI [of _ "SetName n c"]) auto
  next
    case False
    from Cons obtain i d where "name_by_user_id u n cs = cs[i := d]" "i < length cs \<longrightarrow> d = cs ! i \<or> d = SetName n (cs ! i)" by blast
    then show ?thesis using False by (intro exI [of _ "Suc i"] exI [of _ d]) auto
  qed
qed auto

lemma reg_ok_put_same:
  assumes "reg_ok r" "i < length (threads r)" "tid c = tid (threads r ! i)" "unique_id c = unique_id (threads r ! i)"
    and "status c = status (threads r ! i)" "thread_destroyed c = thread_destroyed (threads r ! i)"
    and "detached c = detached (threads r ! i)"
  shows "reg_ok (put_ctx r i c)"
proof -
  obtain ds vs where inv: "reg_inv {} r ds vs" using assms(1) by (auto simp: reg_ok_def)
  then have "tid c = i" using assms(2,3) by (simp add: reg_inv_def reg_table_def)
  with inv have "reg_inv {} (put_ctx r i c) ds vs" using assms by (intro reg_inv_put_same) auto
  then show ?thesis by (auto simp: reg_ok_def)
qed

lemma SetName_simps [simp]:
  "tid (SetName n c) = tid c" "unique_id (SetName n c) = unique_id c" "status (SetName n c) = status c"
  "thread_destroyed (SetName n c) = thread_destroyed c" "detached (SetName n c) = detached c"
  by (simp_all add: SetName_def)

lemma SetThreadNameByUserId_ok:
  assumes "reg_ok r"
  shows "reg_ok (SetThreadNameByUserId r u n)"
proof -
  obtain i c where u: "name_by_user_id u n (threads r) = (threads r)[i := c]"
    "i < length (threads r) \<longrightarrow> c = threads r ! i \<or> c = SetName n (threads r ! i)"
    using name_by_user_id_update by blast
  have "SetThreadNameByUserId r u n = put_ctx r i c" by (simp add: SetThreadNameByUserId_def put_ctx_def u(1))
  moreover have "put_ctx r i c = r" if "\<not> i < length (threads r)"
    using that by (simp add: put_ctx_def list_update_beyond not_less)
  ultimately show ?thesis using u(2) assms reg_ok_put_same [of r i c] by (cases "i < length (threads r)") auto
qed

text \<open>The operations of the registry, in any order and by any thread, whenever they do not stop at a check.\<close>

inductive reg_step :: "ThreadRegistry \<Rightarrow> ThreadRegistry \<Rightarrow> bool" where
  create: "CreateThread r u det p = Some (i, r') \<Longrightarrow> reg_step r r'"
| start: "StartThread r i os ty = Some r' \<Longrightarrow> reg_step r r'"
| finish: "FinishThread r i = Some (st, r') \<Longrightarrow> reg_step r r'"
| detach: "DetachThread r i = Some r' \<Longrightarrow> reg_step r r'"
| join: "JoinThread_round r i = Some (res, r') \<Longrightarrow> reg_step r r'"
| set_name: "SetThreadName r i n = Some r' \<Longrightarrow> reg_step r r'"
| set_name_by_user: "reg_step r (SetThreadNameByUserId r u n)"
| set_user: "SetThreadUserId r i u = Some r' \<Longrightarrow> reg_step r r'"

lemma new_ThreadRegistry_ok: "mt < 2 ^ 32 \<Longrightarrow> reg_ok (new_ThreadRegistry mt q mr)"
  unfolding reg_ok_def
  by (intro exI [of _ "[]"])
    (simp add: reg_inv_def reg_lists_def reg_table_def reg_counts_def reg_flags_def new_ThreadRegistry_def il_clear_list
      in_state_def alive_set_def used_set_def)

text \<open>What the checks of an operation that returns have established.\<close>

lemma array_get_cases: "array_get xs i = Some x \<longleftrightarrow> i < length xs \<and> x = xs ! i"
  by (auto simp: array_get_def)

lemma StartThread_checks: "StartThread r i os ty = Some r' \<Longrightarrow> i < length (threads r) \<and> status (threads r ! i) = ThreadStatusCreated"
  by (auto simp: StartThread_def Let_def array_get_cases bind_eq_Some_conv)

lemma DetachThread_checks: "DetachThread r i = Some r' \<Longrightarrow> i < length (threads r)"
  by (auto simp: DetachThread_def array_get_cases bind_eq_Some_conv)

lemma FinishThread_checks:
  "FinishThread r i = Some (st, r') \<Longrightarrow> i < length (threads r) \<and>
    (status (threads r ! i) = ThreadStatusCreated \<or> status (threads r ! i) = ThreadStatusRunning)"
  by (auto simp: FinishThread_def Let_def array_get_cases bind_eq_Some_conv split: if_splits)

lemma JoinThread_round_checks:
  "JoinThread_round r i = Some (res, r') \<Longrightarrow> r' = r \<or> i < length (threads r) \<and> status (threads r ! i) = ThreadStatusFinished"
  by (auto simp: JoinThread_round_def SetJoined_def array_get_cases bind_eq_Some_conv split: if_splits)

lemma CreateThread_checks:
  "CreateThread r u det p = Some (i, r') \<Longrightarrow> 0 < il_size (invalid_threads r) \<or> length (threads r) < max_threads r"
  using CreateThread_limit [of r u det p] by (cases "max_threads r \<le> length (threads r)") auto

lemma reg_step_ok:
  assumes "reg_step r r'" "reg_ok r"
  shows "reg_ok r'"
  using assms
proof cases
  case (create u det p i)
  from CreateThread_correct [OF assms(2) CreateThread_checks [OF this], of u det p] this show ?thesis by fastforce
next
  case (start i os ty)
  then show ?thesis using StartThread_checks [OF start] StartThread_correct [OF assms(2), of i os ty] by auto
next
  case (finish i st)
  then show ?thesis
    using FinishThread_checks [OF finish] FinishThread_joinable [OF assms(2), of i] FinishThread_dies [OF assms(2), of i]
    by (cases "detached (threads r ! i)") auto
next
  case (detach i)
  then show ?thesis using DetachThread_checks [OF detach] DetachThread_correct [OF assms(2), of i] by auto
next
  case (join i res)
  show ?thesis
  proof (cases "r' = r")
    case False
    then have "i < length (threads r)" "status (threads r ! i) = ThreadStatusFinished"
      using JoinThread_round_checks [OF join] by auto
    from JoinThread_round_finished [OF assms(2) this] join show ?thesis by fastforce
  qed (use assms in simp)
next
  case (set_name i n)
  then show ?thesis using reg_ok_put_same [OF assms(2), of i "SetName n (threads r ! i)"]
    by (auto simp: SetThreadName_def array_get_cases bind_eq_Some_conv)
next
  case (set_name_by_user u n)
  then show ?thesis using SetThreadNameByUserId_ok [OF assms(2)] by simp
next
  case (set_user i u)
  then show ?thesis using reg_ok_put_same [OF assms(2), of i "(threads r ! i)\<lparr>user_id := u\<rparr>"]
    by (auto simp: SetThreadUserId_def array_get_cases bind_eq_Some_conv)
qed

abbreviation reg_reachable :: "nat \<Rightarrow> nat \<Rightarrow> 32 word \<Rightarrow> ThreadRegistry \<Rightarrow> bool" where
  "reg_reachable mt q mr \<equiv> reg_step\<^sup>*\<^sup>* (new_ThreadRegistry mt q mr)"

lemma reg_reachable_ok:
  assumes "reg_reachable mt q mr r" "mt < 2 ^ 32"
  shows "reg_ok r"
  using assms by (induction rule: rtranclp_induct) (auto intro: reg_step_ok new_ThreadRegistry_ok)

lemma alloc_context_params: "alloc_context r = Some (i, r') \<Longrightarrow> thread_quarantine_size r' = thread_quarantine_size r"
  by (auto simp: alloc_context_def QuarantinePop_def bind_eq_Some_conv split: if_splits)

lemma CreateThread_params:
  assumes "CreateThread r u det p = Some (i, r')"
  shows "thread_quarantine_size r' = thread_quarantine_size r"
proof -
  obtain i1 r1 where a: "alloc_context r = Some (i1, r1)" using assms by (auto simp: CreateThread_def bind_eq_Some_conv)
  then show ?thesis using assms alloc_context_params [OF a]
    by (auto simp: CreateThread_def Let_def bind_eq_Some_conv split: if_splits)
qed

lemma reg_step_params:
  assumes "reg_step r r'" "reg_ok r"
  shows "thread_quarantine_size r' = thread_quarantine_size r"
  using assms(1)
proof cases
  case (create u det p i)
  then show ?thesis by (rule CreateThread_params)
next
  case (finish i st)
  then show ?thesis
    using FinishThread_checks [OF finish] FinishThread_joinable [OF assms(2), of i] FinishThread_dies [OF assms(2), of i]
    by (cases "detached (threads r ! i)") auto
next
  case (start i os ty)
  then show ?thesis by (auto simp: StartThread_def Let_def bind_eq_Some_conv)
next
  case (detach i)
  then show ?thesis using DetachThread_checks [OF detach] DetachThread_correct [OF assms(2), of i] by auto
next
  case (join i res)
  show ?thesis
  proof (cases "r' = r")
    case False
    then have "i < length (threads r)" "status (threads r ! i) = ThreadStatusFinished"
      using JoinThread_round_checks [OF join] by auto
    from JoinThread_round_finished [OF assms(2) this] join show ?thesis by fastforce
  qed simp
qed (auto simp: SetThreadName_def SetThreadUserId_def SetThreadNameByUserId_def bind_eq_Some_conv)

lemma reg_reachable_params:
  assumes "reg_reachable mt q mr r" "mt < 2 ^ 32"
  shows "thread_quarantine_size r = q"
  using assms
proof (induction rule: rtranclp_induct)
  case (step r r')
  then show ?case using reg_step_params [OF step.hyps(2) reg_reachable_ok [OF step.hyps(1)]] by simp
qed (simp add: new_ThreadRegistry_def)

text \<open>A registry with one running thread, and one without quarantine whose context was used before.\<close>

lemmas run_registry = CreateThread_def StartThread_def FinishThread_def alloc_context_def QuarantinePop_def QuarantinePush_def
  new_ThreadRegistry_def new_context_def put_ctx_def kInvalidTid_def kMainTid_def SetCreated_def SetStarted_def SetFinished_def
  SetDead_def SetDestroyed_def Reset_def SetName_def il_clear_def il_push_back_def il_pop_front_def il_empty_def ctx_ptr_def ctx_index_def

definition one_running :: "nat \<Rightarrow> ThreadRegistry option" where
  "one_running q = do {
    (i, r) \<leftarrow> CreateThread (new_ThreadRegistry 4 q 0) 7 False 0;
    StartThread r i 1 Regular }"

definition one_reused :: "nat \<Rightarrow> ThreadRegistry option" where
  "one_reused q = do {
    r \<leftarrow> one_running q;
    (i, r) \<leftarrow> CreateThread r 8 True 0;
    r \<leftarrow> StartThread r i 2 Regular;
    (st, r) \<leftarrow> FinishThread r i;
    (i, r) \<leftarrow> CreateThread r 9 False 0;
    StartThread r i 3 Regular }"

lemma one_running_state:
  "\<exists>r. one_running 1 = Some r \<and> length (threads r) = 1 \<and> status (threads r ! 0) = ThreadStatusRunning \<and> \<not> detached (threads r ! 0)"
  by (simp add: one_running_def run_registry)

lemma one_reused_state:
  "\<exists>r. one_reused 0 = Some r \<and> length (threads r) = 2 \<and> status (threads r ! 1) = ThreadStatusRunning \<and>
    \<not> detached (threads r ! 1) \<and> thread_destroyed (threads r ! 1)"
  by (simp add: one_reused_def one_running_def run_registry)

lemma one_running_reachable:
  assumes "one_running q = Some r"
  shows "reg_reachable 4 q 0 r"
proof -
  obtain i r1 where "CreateThread (new_ThreadRegistry 4 q 0) 7 False 0 = Some (i, r1)" "StartThread r1 i 1 Regular = Some r"
    using assms by (auto simp: one_running_def bind_eq_Some_conv)
  then show ?thesis by (meson reg_step.create reg_step.start rtranclp.intros)
qed

lemma one_reused_reachable:
  assumes "one_reused q = Some r"
  shows "reg_reachable 4 q 0 r"
proof -
  obtain r0 i1 r1 r2 st r3 i4 r4 where "one_running q = Some r0" "CreateThread r0 8 True 0 = Some (i1, r1)"
    "StartThread r1 i1 2 Regular = Some r2" "FinishThread r2 i1 = Some (st, r3)" "CreateThread r3 9 False 0 = Some (i4, r4)"
    "StartThread r4 i4 3 Regular = Some r"
    using assms by (auto simp: one_reused_def bind_eq_Some_conv)
  then show ?thesis
    by (meson one_running_reachable reg_step.create reg_step.start reg_step.finish rtranclp.rtrancl_into_rtrancl)
qed

end
