(* ===== verification/Spec2Isabelle.thy ===== *)
theory Spec2Isabelle
  imports Int_Popcount Int_Shift Int_Divmod_Ti FP_Float FP_Compare San_DDBV San_Numbers San_Registry
begin

text \<open>
  Verification library for the runtime routines of \<open>src/llvm-project/compiler-rt\<close>, the implementation code of the
  repository. Paths below are relative to \<open>src/llvm-project/compiler-rt/lib\<close>.

  \<^bold>\<open>The program.\<close> \<open>builtins\<close> holds the routines to which a compiler lowers operations that the target lacks: bit counts,
  shifts, comparisons, trapping arithmetic, multiplication and division of integers of 32, 64 and 128 bits, and
  floating-point arithmetic on bit patterns. \<open>sanitizer_common\<close> holds what the sanitizers share. Of it this library models
  the bit vectors, the graph over them, the deadlock detector over the graph, the replacements for functions of the C
  library, the intrusive list, and the registry of threads over it. Each layer calls the ones before it, and the theories
  import each other in the same way.

  \<^bold>\<open>Conventions.\<close> A C integer of width \<open>w\<close> is a \<open>w word\<close>; signed readings are \<open>sint\<close>. Unsigned arithmetic wraps as in C. Signed
  overflow, which C leaves undefined and which \<open>int_mulo_impl.inc\<close>, \<open>divmod?i4.c\<close> and others reach, gets the two's
  complement result that \<open>int_lib.h\<close> assumes. The compiler's counts of zeros are total functions here, and the properties
  about them assume arguments other than zero.
  Names drop the leading underscores of the source. Where the source has one text for several widths or formats (a macro, an
  included file or a template) the body is one polymorphic definition and each function is an instance. A call of \<open>abort\<close>
  or \<open>Die\<close>, a failed \<open>CHECK\<close> and an access outside an array are the value \<open>None\<close>. Objects that a member function
  changes are passed and returned. Counters and addresses that only grow or stay within an object are natural numbers; the
  theories say so where they do this. Loops are structural recursion, recursion with a termination proof, or, where the
  loop stops only because of an invariant, a partial function with values in \<open>option\<close>; the theorems about such loops state
  that they return. No definition uses fuel; counted loops take their count from the source.

  \<^bold>\<open>Integer builtins.\<close>
  \<^item> \<open>CRT_Prelude\<close>: arithmetic shared by all theories; \<open>nbits\<close> and \<open>ntz\<close>, the references for counts of zeros.
  \<^item> \<open>Int_Types\<close> (\<open>int_types.h\<close>): the unions that split a double word, as the record \<open>halves\<close>.
  \<^item> \<open>Int_Bits\<close>, \<open>Int_Popcount\<close> (\<open>clz?i2.c\<close>, \<open>ctz?i2.c\<close>, \<open>ffs?i2.c\<close>, \<open>popcount?i2.c\<close>, \<open>parity?i2.c\<close>, \<open>bswap?i2.c\<close>): the
    branch-free counts equal the counts on bits.
  \<^item> \<open>Int_Shift\<close> (\<open>ashl?i3.c\<close>, \<open>ashr?i3.c\<close>, \<open>lshr?i3.c\<close>, \<open>cmp?i2.c\<close>, \<open>ucmp?i2.c\<close>): operations on halves equal those on the word.
  \<^item> \<open>Int_Arith\<close> (\<open>absv?i2.c\<close>, \<open>addv?i3.c\<close>, \<open>subv?i3.c\<close>, \<open>negv?i2.c\<close>, \<open>mulv?i3.c\<close>, \<open>mulo?i4.c\<close>, \<open>muldi3.c\<close>, \<open>multi3.c\<close>): overflow is detected exactly.
  \<^item> \<open>Int_Div\<close>, \<open>Int_Divmod_Di\<close>, \<open>Int_Divmod_Ti\<close> (\<open>int_div_impl.inc\<close>, \<open>udivmoddi4.c\<close>, \<open>udivmodti4.c\<close> and the routines on top):
    shift-subtract division and Knuth's algorithm D divide. The locale \<open>unsigned_divmod\<close> is the contract under which
    the signed routines are proved once, and is interpreted for each width.

  \<^bold>\<open>Soft-float builtins.\<close>
  \<^item> \<open>FP_Spec\<close>: correct rounding on natural numbers, independent of the code.
  \<^item> \<open>FP_Lib\<close> (\<open>fp_lib.h\<close>): the record \<open>fp_lib\<close> of a format and the shared routines; the locale \<open>fp_format\<close>, interpreted for
    the single, double and quad formats.
  \<^item> \<open>FP_Add\<close> (\<open>fp_add_impl.inc\<close>, \<open>add?f3.c\<close>, \<open>sub?f3.c\<close>), \<open>FP_Float\<close> (\<open>float*.c\<close>), \<open>FP_Compare\<close> (\<open>fp_compare_impl.inc\<close>,
    \<open>compare?f2.c\<close>): results are the exact values rounded once to nearest even, and comparisons order the exact values.

  \<^bold>\<open>Sanitizer runtime.\<close>
  \<^item> \<open>San_Prelude\<close>: checks, array accesses and loops over index ranges.
  \<^item> \<open>San_BitVector\<close>, \<open>San_TwoLevel\<close> (\<open>sanitizer_bitvector.h\<close>): each operation refines the operation on sets of indices. The
    locale \<open>bit_vector\<close> states this contract; both classes interpret it.
  \<^item> \<open>San_BVGraph\<close> (\<open>sanitizer_bvgraph.h\<close>): inside \<open>bit_vector\<close>, the worklist searches end and decide reachability and
    shortest paths.
  \<^item> \<open>San_Deadlock\<close> (\<open>sanitizer_deadlock_detector.h\<close>), \<open>San_DD\<close>, \<open>San_Events\<close> (\<open>sanitizer_deadlock_detector1.cpp\<close>): locks held
    by a thread as a multiset, allocation and recycling of nodes, the handlers of mutex events. \<open>event\<close> is the step
    relation: any handler, at any time, on any mutex. \<open>sys_safe\<close> is the invariant of its reachable states. Programs that
    never destroy a held mutex (\<open>careful\<close>) keep the stricter \<open>sys_valid\<close>, in which held locks have allocated nodes.
    The local arrays of the source are lists of any length, and warnings that are only printed are left out.
  \<^item> \<open>San_DDBV\<close>: the detector at the bit vector of 4096 nodes that the code uses, and a small instance for concrete runs;
    \<open>stale_edges\<close> runs it to a state that is not strict.
  \<^item> \<open>San_Libc\<close>, \<open>San_Numbers\<close> (\<open>sanitizer_libc.cpp\<close>): memory and string functions on a memory of bytes.
  \<^item> \<open>San_List\<close> (\<open>sanitizer_list.h\<close>): a linked list through a store of links, refined to sequences with a frame condition.
  \<^item> \<open>San_Threads\<close>, \<open>San_Registry\<close> (\<open>sanitizer_thread_registry.h\<close>, \<open>sanitizer_thread_registry.cpp\<close>): the life cycle of thread contexts; \<open>reg_step\<close> is the
    step relation and \<open>reg_inv\<close> the invariant of its reachable states.

  \<^bold>\<open>This theory\<close> states the main properties, by component. Four of them show where the code departs from what it means to do:
  \<open>recursive_read_lock\<close>, \<open>two_level_check\<close>, \<open>memset_sign\<close> and \<open>join_without_quarantine\<close>.

  \<^bold>\<open>Bounds.\<close> The path array of a report has 20 entries and the lock tables of a thread the sizes of the source; the theorems
  state what happens when they are full. Thread identifiers are below \<open>2 ^ 32\<close>. Epochs, unique identifiers and list
  sizes do not wrap around in the model.

  \<^bold>\<open>Not modelled.\<close> Multiplication, division and the remaining conversions of soft floats, whose bodies are other included
  files. Extended precision and complex arithmetic, which use the floating-point operations of the machine. Routines that
  call the operating system or special instructions (thread-local storage, atomics, exception tables, inline assembly).
  The \<open>fp_mode.c\<close> files of i386, arm and aarch64: addition is the one of the generic \<open>fp_mode.c\<close>, which rounds to nearest.
  Concurrent interleavings inside a handler that holds a lock, and the racy fast paths. The sanitizer runtimes
  themselves, the allocators, the fuzzer, profile and tracing runtimes, which work on raw process memory, signals, code
  and files.
\<close>

section \<open>Integer division\<close>

text \<open>C3: \<open>__udivmodti4\<close>, \<open>__udivti3\<close> and \<open>__umodti3\<close> return quotient and remainder
  for every nonzero divisor, through the power-of-two, one-digit and shift-subtract paths.\<close>

theorem udivmodti4_divides:
  assumes "b \<noteq> 0"
  shows "udivmodti4 a b = (a div b, a mod b) \<and> udivti3 a b = a div b \<and> umodti3 a b = a mod b"
  using assms by (simp add: udivmodti4_eq udivti3_eq umodti3_eq)

theorem udivmodti4_divides_witness:
  "udivmodti4 0x123456789abcdef0123456789 0x1000000007 =
    (0x123456789abcdef0123456789 div 0x1000000007, 0x123456789abcdef0123456789 mod 0x1000000007)"
  using udivmodti4_divides [of "0x1000000007" "0x123456789abcdef0123456789"] by simp

text \<open>C5: the two-digit division of Knuth's algorithm D returns quotient and remainder of
  the 128-bit dividend whenever the quotient fits in a digit, its correction loops included.\<close>

theorem udiv128by64to64_knuth:
  assumes "v \<noteq> 0" "unat u1 < unat v"
  shows "\<exists>q r. udiv128by64to64 u1 u0 v = (q, r) \<and>
    unat q = (unat u1 * 2 ^ 64 + unat u0) div unat v \<and> unat r = (unat u1 * 2 ^ 64 + unat u0) mod unat v"
  using udiv128by64to64_correct [OF assms, of u0] by (metis surj_pair)

theorem udiv128by64to64_knuth_witness:
  "\<exists>q r. udiv128by64to64 5 7 9 = (q, r) \<and>
    unat q = (5 * 2 ^ 64 + 7) div 9 \<and> unat r = (5 * 2 ^ 64 + 7) mod 9"
  using udiv128by64to64_knuth [of 9 5 7] by simp

text \<open>C21: \<open>__udivmoddi4\<close> returns quotient and remainder for every nonzero divisor, on each of
  its special cases and through its shift-subtract loop.\<close>

theorem udivmoddi4_divides:
  assumes "b \<noteq> 0"
  shows "udivmoddi4 a b = (a div b, a mod b)"
  by (rule udivmoddi4_eq [OF assms])

theorem udivmoddi4_divides_witness: "udivmoddi4 1000000000007 12345678 = (81000, 82007)"
  using udivmoddi4_divides [of 12345678 1000000000007] by simp

text \<open>C23: the generic shift-subtract \<open>__udivXi3\<close> and \<open>__umodXi3\<close>, as \<open>__udivsi3\<close>, \<open>__udivdi3\<close>,
  \<open>__umodsi3\<close> and \<open>__umoddi3\<close> instantiate them, divide.\<close>

theorem udiv_shift_subtract:
  assumes "d \<noteq> 0" "d' \<noteq> 0"
  shows "udivsi3 n d = n div d \<and> umodsi3 n d = n mod d \<and> udivdi3 n' d' = n' div d' \<and> umoddi3 n' d' = n' mod d'"
  using assms by (simp add: udivsi3_eq umodsi3_eq udivdi3_eq umoddi3_eq)

theorem udiv_shift_subtract_witness:
  "udivsi3 100 7 = 14 \<and> umodsi3 100 7 = 2 \<and> udivdi3 0x100000000 3 = 0x55555555 \<and> umoddi3 0x100000000 3 = 1"
  using udiv_shift_subtract [of 7 3 100 "0x100000000"] by simp

text \<open>C22: the signed divisions truncate toward zero and the remainder has the sign of the dividend, at
  the three widths.\<close>

theorem signed_division:
  assumes "b \<noteq> 0" "b' \<noteq> 0" "b'' \<noteq> 0"
  shows "divmodsi4 a b = (sdiv_c a b, smod_c a b) \<and> divsi3 a b = sdiv_c a b \<and> modsi3 a b = smod_c a b \<and>
    divmoddi4 a' b' = (sdiv_c a' b', smod_c a' b') \<and> divdi3 a' b' = sdiv_c a' b' \<and> moddi3 a' b' = smod_c a' b' \<and>
    divmodti4 a'' b'' = (sdiv_c a'' b'', smod_c a'' b'') \<and> divti3 a'' b'' = sdiv_c a'' b'' \<and> modti3 a'' b'' = smod_c a'' b''"
  using assms
  by (simp add: divmodsi4_eq divsi3_eq modsi3_eq divmoddi4_eq divdi3_eq moddi3_eq divmodti4_eq divti3_eq modti3_eq)

theorem signed_division_witness:
  "divmodsi4 (- 7) 2 = (sdiv_c (- 7) 2, smod_c (- 7) 2) \<and> divdi3 (- 7) 2 = sdiv_c (- 7) 2 \<and>
    modti3 (- 7) 2 = smod_c (- 7) 2"
  using signed_division [of 2 2 2 "- 7" "- 7" "- 7"] by simp

section \<open>Integer multiplication and trapping arithmetic\<close>

text \<open>C27: the schoolbook multiplications from half words return the product modulo the width, and their
  widening steps \<open>__muldsi3\<close> and \<open>__mulddi3\<close> the exact product.\<close>

theorem mul_schoolbook:
  "muldi3 a b = a * b \<and> multi3 a' b' = a' * b' \<and> unat (muldsi3 x y) = unat x * unat y \<and>
    unat (mulddi3 x' y') = unat x' * unat y'"
  by (simp add: muldi3_eq multi3_eq unat_muldsi3 unat_mulddi3)

text \<open>C25: the trapping operations return the mathematical result when it is representable and abort
  exactly when it is not.\<close>

theorem trapping_arithmetic:
  "addvsi3 a b = checked (sint a + sint b) \<and> addvdi3 a' b' = checked (sint a' + sint b') \<and>
   addvti3 a'' b'' = checked (sint a'' + sint b'') \<and>
   subvsi3 a b = checked (sint a - sint b) \<and> subvdi3 a' b' = checked (sint a' - sint b') \<and>
   subvti3 a'' b'' = checked (sint a'' - sint b'') \<and>
   mulvsi3 a b = checked (sint a * sint b) \<and> mulvdi3 a' b' = checked (sint a' * sint b') \<and>
   mulvti3 a'' b'' = checked (sint a'' * sint b'') \<and>
   negvsi2 a = checked (- sint a) \<and> negvdi2 a' = checked (- sint a') \<and> negvti2 a'' = checked (- sint a'') \<and>
   absvsi2 a = checked \<bar>sint a\<bar> \<and> absvdi2 a' = checked \<bar>sint a'\<bar> \<and> absvti2 a'' = checked \<bar>sint a''\<bar>"
  unfolding addvsi3_def addvdi3_def addvti3_def subvsi3_def subvdi3_def subvti3_def mulvsi3_def mulvdi3_def
    mulvti3_def negvsi2_def negvdi2_def negvti2_def absvsi2_def absvdi2_def absvti2_def
  by (intro conjI addvXi3_eq subvXi3_eq mulvXi3_eq negvXi2_eq absvXi2_eq) simp_all

text \<open>C26: \<open>__mulosi4\<close>, \<open>__mulodi4\<close> and \<open>__muloti4\<close> return the wrapped product and set the overflow flag exactly
  when the signed product does not fit.\<close>

theorem mulo_reports_overflow:
  "mulosi4 a b = (a * b, if in_srange TYPE(32) (sint a * sint b) then 0 else 1) \<and>
   mulodi4 a' b' = (a' * b', if in_srange TYPE(64) (sint a' * sint b') then 0 else 1) \<and>
   muloti4 a'' b'' = (a'' * b'', if in_srange TYPE(128) (sint a'' * sint b'') then 0 else 1)"
  unfolding mulosi4_def mulodi4_def muloti4_def by (intro conjI muloXi4_eq) simp_all

section \<open>Bit counting, shifts and comparisons\<close>

text \<open>C36: for arguments other than zero, the precondition of the routines, the counts of leading and of trailing zeros agree with the
  compiler builtins.\<close>

theorem count_zeros:
  assumes "a \<noteq> 0" "a' \<noteq> 0" "a'' \<noteq> 0"
  shows "unat (clzsi2 a) = builtin_clz a \<and> unat (clzdi2 a') = builtin_clz a' \<and> unat (clzti2 a'') = builtin_clz a'' \<and>
   unat (ctzsi2 a) = builtin_ctz a \<and> unat (ctzdi2 a') = builtin_ctz a' \<and> unat (ctzti2 a'') = builtin_ctz a''"
  using assms by (simp add: unat_clzsi2 unat_clzdi2 unat_clzti2 unat_ctzsi2 unat_ctzdi2 unat_ctzti2)

theorem count_zeros_witness:
  "unat (clzsi2 40) = builtin_clz (40 :: 32 word) \<and> unat (clzdi2 40) = builtin_clz (40 :: 64 word) \<and> unat (clzti2 40) = builtin_clz (40 :: 128 word) \<and>
    unat (ctzsi2 40) = builtin_ctz (40 :: 32 word) \<and> unat (ctzdi2 40) = builtin_ctz (40 :: 64 word) \<and> unat (ctzti2 40) = builtin_ctz (40 :: 128 word)"
  using count_zeros [of 40 40 40] by simp

text \<open>\<open>__ffs?i2\<close> returns one more than the number of trailing zeros, and zero for zero.\<close>

theorem find_first_set:
  "unat (ffssi2 a) = (if a = 0 then 0 else Suc (builtin_ctz a)) \<and>
   unat (ffsdi2 a') = (if a' = 0 then 0 else Suc (builtin_ctz a')) \<and>
   unat (ffsti2 a'') = (if a'' = 0 then 0 else Suc (builtin_ctz a''))"
  by (simp only: unat_ffssi2 unat_ffsdi2 unat_ffsti2 simp_thms)

text \<open>C37: the parallel population counts return the number of set bits, and the parities whether it is odd.\<close>

theorem popcount_parity:
  "unat (popcountsi2 a) = card {i. i < 32 \<and> bit (unat a) i} \<and>
   unat (popcountdi2 a') = card {i. i < 64 \<and> bit (unat a') i} \<and>
   unat (popcountti2 a'') = card {i. i < 128 \<and> bit (unat a'') i} \<and>
   unat (paritysi2 a) = of_bool (odd (card {i. i < 32 \<and> bit (unat a) i})) \<and>
   unat (paritydi2 a') = of_bool (odd (card {i. i < 64 \<and> bit (unat a') i})) \<and>
   unat (parityti2 a'') = of_bool (odd (card {i. i < 128 \<and> bit (unat a'') i}))"
proof -
  have "unat a < 2 ^ 32" "unat a' < 2 ^ 64" "unat a'' < 2 ^ 128"
    using unsigned_less [of a] unsigned_less [of a'] unsigned_less [of a''] by simp_all
  note c = this [THEN pop_card_bits, symmetric]
  show ?thesis
    by (simp only: c unat_popcountsi2 unat_popcountdi2 unat_popcountti2 unat_paritysi2 unat_paritydi2
        unat_parityti2 simp_thms)
qed

text \<open>C38: a byte swap moves byte \<open>i\<close> to the mirrored position, and applying it twice gives the input.\<close>

theorem bswap_roundtrip:
  "bswapsi2 (bswapsi2 u) = u \<and> bswapdi2 (bswapdi2 v) = v \<and>
   (bit (bswapsi2 u) n \<longleftrightarrow> n < 32 \<and> bit u (8 * (3 - n div 8) + n mod 8)) \<and>
   (bit (bswapdi2 v) n \<longleftrightarrow> n < 64 \<and> bit v (8 * (7 - n div 8) + n mod 8))"
  by (simp only: bswap_involution bit_bswapsi2 bit_bswapdi2 simp_thms)

text \<open>C39: the shifts of double words by half words are the shifts of the whole word.\<close>

theorem double_word_shifts:
  assumes "unat k < 64" "unat k' < 128"
  shows "ashldi3 a k = push_bit (unat k) a \<and> lshrdi3 a k = drop_bit (unat k) a \<and>
    ashrdi3 a k = signed_drop_bit (unat k) a \<and> ashlti3 a' k' = push_bit (unat k') a' \<and>
    lshrti3 a' k' = drop_bit (unat k') a' \<and> ashrti3 a' k' = signed_drop_bit (unat k') a'"
  using assms by (simp add: ashldi3_eq lshrdi3_eq ashrdi3_eq ashlti3_eq lshrti3_eq ashrti3_eq)

theorem double_word_shifts_witness:
  "ashldi3 0xF 40 = push_bit 40 0xF \<and> ashrti3 (- 8) 100 = signed_drop_bit 100 (- 8)"
  using double_word_shifts [of 40 100 "0xF" "- 8"] by simp

text \<open>C40: the comparisons return 0, 1 or 2 for less, equal and greater on the whole signed or unsigned
  value, and the ARM entry points minus one, zero or one.\<close>

theorem double_word_comparisons:
  "cmpdi2 a b = three_way (sint a) (sint b) \<and> cmpti2 a' b' = three_way (sint a') (sint b') \<and>
   ucmpdi2 a b = three_way (uint a) (uint b) \<and> ucmpti2 a' b' = three_way (uint a') (uint b') \<and>
   sint (aeabi_lcmp a b) = sgn (sint a - sint b) \<and> sint (aeabi_ulcmp a b) = sgn (uint a - uint b)"
  by (simp only: cmpdi2_eq cmpti2_eq ucmpdi2_eq ucmpti2_eq aeabi_cmp_eq simp_thms)

section \<open>Soft-float arithmetic\<close>

text \<open>C1: \<open>__addsf3\<close>, \<open>__adddf3\<close> and \<open>__addtf3\<close> return the exact sum rounded to nearest, ties to even, with subnormal
  results and overflow to infinity, and treat NaNs, infinities and signed zeros as IEEE 754 asks, on every pair of bit patterns.\<close>

theorem float_addition:
  "addsf3 a b = ieee_add single_precision a b \<and> adddf3 c d = ieee_add double_precision c d \<and> addtf3 e f = ieee_add quad_precision e f"
  by (simp only: add_correct simp_thms)

text \<open>C24: the subtractions of different finite values return their exact difference, correctly rounded.\<close>

theorem float_subtraction:
  assumes "is_finite single_precision a" "is_finite single_precision b" "fval single_precision a \<noteq> fval single_precision b"
    "is_finite double_precision c" "is_finite double_precision d" "fval double_precision c \<noteq> fval double_precision d"
  shows "subsf3 a b = encode single_precision (fval single_precision a < fval single_precision b)
      (round_ne 23 (nat \<bar>fval single_precision a - fval single_precision b\<bar>) 1) \<and>
    subdf3 c d = encode double_precision (fval double_precision c < fval double_precision d)
      (round_ne 52 (nat \<bar>fval double_precision c - fval double_precision d\<bar>) 1)"
  using sub_correct(1) [OF assms(1-3)] sub_correct(2) [OF assms(4-6)] by (rule conjI)

theorem float_subtraction_witness:
  "subsf3 3 1 = encode single_precision False (round_ne 23 2 1) \<and> subdf3 1 3 = encode double_precision True (round_ne 52 2 1)"
proof -
  have v: "fval single_precision 3 = 3" "fval single_precision 1 = 1" "fval double_precision 1 = 1" "fval double_precision 3 = 3"
    by (simp_all add: fval_def negative_def absr_def mag_def single_precision_def double_precision_def)
  have f: "is_finite single_precision 3" "is_finite single_precision 1" "is_finite double_precision 1" "is_finite double_precision 3"
    by (simp_all add: is_finite_def inf_nat_def exponentBits_def typeWidth_def absr_def single_precision_def double_precision_def)
  show ?thesis using float_subtraction [OF f(1,2) _ f(3,4)] unfolding v by simp
qed

text \<open>C10: the conversions of 64 and 128 bit integers return the integer rounded to nearest, ties to even.\<close>

theorem int_to_float:
  "floatundisf a = ieee_of_int single_precision (uint a) \<and> floatundidf a = ieee_of_int double_precision (uint a) \<and>
   floatuntisf b = ieee_of_int single_precision (uint b) \<and> floatuntidf b = ieee_of_int double_precision (uint b) \<and>
   floatuntitf b = ieee_of_int quad_precision (uint b) \<and>
   floatdisf a = ieee_of_int single_precision (sint a) \<and> floatdidf a = ieee_of_int double_precision (sint a) \<and>
   floattisf b = ieee_of_int single_precision (sint b) \<and> floattidf b = ieee_of_int double_precision (sint b) \<and>
   floattitf b = ieee_of_int quad_precision (sint b)"
  by (simp only: float_unsigned float_signed simp_thms)

text \<open>C12: the comparisons return the sign of the difference of the values, \<open>1\<close> or \<open>-1\<close> when an operand is a NaN, and
  the unordered tests whether one is.\<close>

theorem float_comparison:
  "lesf2 a b = ieee_compare single_precision 1 a b \<and> gesf2 a b = ieee_compare single_precision (- 1) a b \<and>
   unordsf2 a b = of_bool (is_nan single_precision a \<or> is_nan single_precision b) \<and>
   ledf2 c d = ieee_compare double_precision 1 c d \<and> gedf2 c d = ieee_compare double_precision (- 1) c d \<and>
   unorddf2 c d = of_bool (is_nan double_precision c \<or> is_nan double_precision d) \<and>
   letf2 e f = ieee_compare quad_precision 1 e f \<and> getf2 e f = ieee_compare quad_precision (- 1) e f \<and>
   unordtf2 e f = of_bool (is_nan quad_precision e \<or> is_nan quad_precision f)"
  by (simp only: compare_formats simp_thms)

section \<open>Bit vectors and graphs\<close>

text \<open>C8: on valid two-level bit vectors every operation on an index below \<open>kSize\<close> stays within its arrays and
  is the operation on the set that the vector stands for, and it keeps the vector valid.\<close>

theorem two_level_sets:
  fixes b v :: "'a::len word TwoLevelBitVector"
  assumes "tbv_valid L b" "tbv_valid L v" "i < LENGTH('a) * LENGTH('a) * L"
  shows "tbv_getBit L b i = Some (i \<in> tbv_elems L b) \<and>
    (\<exists>b'. tbv_setBit L b i = Some (i \<notin> tbv_elems L b, b') \<and> tbv_valid L b' \<and> tbv_elems L b' = insert i (tbv_elems L b)) \<and>
    (\<exists>b'. tbv_clearBit L b i = Some (i \<in> tbv_elems L b, b') \<and> tbv_valid L b' \<and> tbv_elems L b' = tbv_elems L b - {i}) \<and>
    (\<exists>b'. tbv_setUnion L b v = Some (\<not> tbv_elems L v \<subseteq> tbv_elems L b, b') \<and> tbv_valid L b' \<and> tbv_elems L b' = tbv_elems L b \<union> tbv_elems L v) \<and>
    (\<exists>b'. tbv_setIntersection L b v = Some (\<not> tbv_elems L b \<subseteq> tbv_elems L v, b') \<and> tbv_valid L b' \<and> tbv_elems L b' = tbv_elems L b \<inter> tbv_elems L v) \<and>
    (\<exists>b'. tbv_setDifference L b v = Some (tbv_elems L b \<inter> tbv_elems L v \<noteq> {}, b') \<and> tbv_valid L b' \<and> tbv_elems L b' = tbv_elems L b - tbv_elems L v) \<and>
    tbv_intersectsWith L b v = Some (tbv_elems L b \<inter> tbv_elems L v \<noteq> {})"
  using assms
  by (intro conjI tbv_getBit_correct tbv_setBit_correct tbv_clearBit_correct tbv_setUnion_correct tbv_setIntersection_correct
      tbv_setDifference_correct tbv_intersectsWith_correct)

theorem two_level_sets_witness:
  "\<exists>b'. tbv_setBit 1 (zero_bv 1 :: 2 word TwoLevelBitVector) 3 = Some (True, b') \<and> tbv_valid 1 b' \<and> tbv_elems 1 b' = {3}"
  using two_level_sets [of 1 "zero_bv 1 :: 2 word TwoLevelBitVector" "zero_bv 1" 3] by (simp add: zero_bv_valid)

text \<open>C33: the bounds check of a two-level bit vector lets the index \<open>kSize\<close> through, one past the last, and the access that
  follows leaves the array of the first level.\<close>

theorem two_level_check:
  fixes b :: "'a::len word TwoLevelBitVector"
  assumes "tbv_shape L b"
  shows "tbv_check L b (tbv_kSize L b) = Some () \<and> tbv_idx0 L b (tbv_kSize L b) = Some L \<and> tbv_getBit L b (tbv_kSize L b) = None"
  using tbv_check_too_weak [OF assms] by (simp add: tbv_getBit_def)

theorem two_level_check_witness: "tbv_getBit 1 (zero_bv 1 :: 2 word TwoLevelBitVector) 4 = None"
  using two_level_check [OF zero_bv_shape, of 1, where ?'a = 2] by (simp add: tbv_kSize_def)

text \<open>C6: the search of \<open>BVGraph::isReachable\<close> ends, answers whether some target can be reached along edges, and leaves the
  edges of the graph.\<close>

theorem graph_reachability:
  fixes g :: "'a::len word TwoLevelBitVector BVGraph"
  assumes "bvg_valid (TwoLevelBitVector_ops L) (tbv_shape L) (tbv_valid L) g" "from < LENGTH('a) * LENGTH('a) * L" "tbv_valid L targets"
  shows "\<exists>g'. bvg_isReachable (TwoLevelBitVector_ops L) g from targets =
      Some (\<exists>x\<in>tbv_elems L targets. (from, x) \<in> (edges (tbv_elems L) (g_v g))\<^sup>*, g') \<and>
    bvg_valid (TwoLevelBitVector_ops L) (tbv_shape L) (tbv_valid L) g' \<and> g_v g' = g_v g"
  by (rule tbv.isReachable_graph [OF assms(1) _ assms(3)]) (use assms(2) in \<open>simp add: TwoLevelBitVector_ops_def\<close>)

theorem graph_reachability_witness:
  "\<exists>g'. bvg_isReachable (TwoLevelBitVector_ops 1) \<lparr>g_v = replicate 4 (zero_bv 1 :: 2 word TwoLevelBitVector), g_t1 = zero_bv 1, g_t2 = zero_bv 1\<rparr> 2 (zero_bv 1) =
    Some (False, g')"
  using graph_reachability [of 1 "\<lparr>g_v = replicate 4 (zero_bv 1 :: 2 word TwoLevelBitVector), g_t1 = zero_bv 1, g_t2 = zero_bv 1\<rparr>" 2 "zero_bv 1"]
  by (auto simp: bvg_valid_def zero_bv_valid zero_bv_shape TwoLevelBitVector_ops_def)

text \<open>C7: \<open>BVGraph::findShortestPath\<close> returns zero exactly when no target is within reach of the path array, and otherwise writes
  a path of the graph from the start to a target that no shorter walk beats.\<close>

theorem graph_shortest_path:
  fixes g :: "'a::len word TwoLevelBitVector BVGraph"
  assumes "bvg_valid (TwoLevelBitVector_ops L) (tbv_shape L) (tbv_valid L) g" "tbv_valid L targets" "from < LENGTH('a) * LENGTH('a) * L" "n \<le> length path"
  shows "\<exists>r path'. bvg_findShortestPath (TwoLevelBitVector_ops L) g from targets path n = Some (r, path') \<and> length path' = length path \<and>
    (r = 0 \<longrightarrow> (\<forall>k<n. \<forall>x\<in>tbv_elems L targets. (from, x) \<notin> edges (tbv_elems L) (g_v g) ^^ k)) \<and>
    (r \<noteq> 0 \<longrightarrow> r \<le> n \<and> target_path (edges (tbv_elems L) (g_v g)) from (tbv_elems L targets) (take r path') \<and>
      (\<forall>k<r - 1. \<forall>x\<in>tbv_elems L targets. (from, x) \<notin> edges (tbv_elems L) (g_v g) ^^ k))"
proof -
  have "from < kSize (TwoLevelBitVector_ops L :: ('a word TwoLevelBitVector, 'a word tbv_iterator) BV)" using assms(3) by (simp add: TwoLevelBitVector_ops_def)
  from tbv.findShortestPath_graph [OF assms(1,2) this assms(4)] show ?thesis .
qed

theorem graph_shortest_path_witness:
  "\<exists>r path'. bvg_findShortestPath (TwoLevelBitVector_ops 1) \<lparr>g_v = replicate 4 (zero_bv 1 :: 2 word TwoLevelBitVector), g_t1 = zero_bv 1, g_t2 = zero_bv 1\<rparr> 2
    (zero_bv 1) [0, 0] 2 = Some (r, path') \<and> length path' = 2"
  using graph_shortest_path [of 1 "\<lparr>g_v = replicate 4 (zero_bv 1 :: 2 word TwoLevelBitVector), g_t1 = zero_bv 1, g_t2 = zero_bv 1\<rparr>" "zero_bv 1" 2 2 "[0, 0]"]
  by (auto simp: bvg_valid_def zero_bv_valid zero_bv_shape TwoLevelBitVector_ops_def)

section \<open>The deadlock detector\<close>

text \<open>C13: the locks of a thread refine a multiset: \<open>addLock\<close> adds one occurrence, or aborts when the table it needs has 64 entries, and
  \<open>removeLock\<close> removes one, a recursive acquisition first.\<close>

theorem held_locks:
  assumes "tls_valid (tbv_valid 1) (tbv_elems 1) d" "l < 4096"
  shows "(if tls_room (tbv_elems 1) d l
      then \<exists>d'. tls_addLock DDBV d l (tls_epoch d) ctx = Some (l \<notin># tls_locks (tbv_elems 1) d, d') \<and>
        tls_valid (tbv_valid 1) (tbv_elems 1) d' \<and> tls_locks (tbv_elems 1) d' = add_mset l (tls_locks (tbv_elems 1) d)
      else tls_addLock DDBV d l (tls_epoch d) ctx = None) \<and>
    (\<exists>d'. tls_removeLock DDBV d l = Some d' \<and> tls_valid (tbv_valid 1) (tbv_elems 1) d' \<and>
      tls_locks (tbv_elems 1) d' = tls_locks (tbv_elems 1) d - {#l#})"
proof -
  have l: "l < kSize DDBV" "kSize DDBV \<le> 2 ^ 32" using assms(2) kSize_DDBV by simp_all
  show ?thesis using ddbv.tls_addLock_correct [OF assms(1) l refl, of ctx] ddbv.tls_removeLock_correct [OF assms(1) l] by auto
qed

theorem held_locks_witness:
  "\<exists>d'. tls_addLock DDBV (zero_tls 1) 5 0 7 = Some (True, d') \<and> tls_locks (tbv_elems 1) d' = {#5#}"
proof -
  have z: "tls_valid (tbv_valid 1) (tbv_elems 1) (zero_tls 1 :: 64 word TwoLevelBitVector DeadlockDetectorTLS)"
    "tls_locks (tbv_elems 1) (zero_tls 1 :: 64 word TwoLevelBitVector DeadlockDetectorTLS) = {#}"
    using zero_bv_valid [of 1, where ?'a = 64] by (simp_all add: tls_valid_def tls_locks_def tls_held_def zero_tls_def)
  then have "tls_room (tbv_elems 1) (zero_tls 1 :: 64 word TwoLevelBitVector DeadlockDetectorTLS) 5" by (simp add: tls_room_def) (simp add: zero_tls_def)
  then show ?thesis using held_locks [OF z(1), of 5 7] z(2) by (auto simp: zero_tls_def)
qed

text \<open>C4: whatever handlers the threads of a program call, in any order, the detector keeps its tables in bounds and its bit vectors valid,
  mutexes of the current epoch have allocated nodes, each its own, and recorded edges have indices in range. If the program never destroys or
  reinitialises a mutex that a thread holds, then besides held locks are nodes of such mutexes, all edges of the graph leave allocated nodes and enter no
  free one, and a recorded edge is an edge of the graph unless its source has been recycled.\<close>

theorem detector_invariant:
  assumes "(event DDBV)\<^sup>*\<^sup>* (DDetector_Create flag) s"
  shows "sys_safe DDBV (tbv_shape 1) (tbv_valid 1) (tbv_elems 1) s \<and>
    ((careful DDBV (tbv_elems 1))\<^sup>*\<^sup>* (DDetector_Create flag) s \<longrightarrow> sys_valid DDBV (tbv_shape 1) (tbv_valid 1) (tbv_elems 1) s)"
  using reachable_safe [of s] assms ddbv.careful_valid [OF _ DDetector_Create_ok(1) kSize_DDBV(2,3)] by blast

theorem detector_invariant_witness:
  "\<exists>s1 s2. MutexAfterLock DDBV (DDetector_Create True) 2 9 True False 0 0 (replicate 40 0) = Some s1 \<and> MutexDestroy DDBV s1 9 = Some s2 \<and>
    sys_valid DDBV (tbv_shape 1) (tbv_valid 1) (tbv_elems 1) s1 \<and> sys_safe DDBV (tbv_shape 1) (tbv_valid 1) (tbv_elems 1) s2"
proof -
  obtain s1 where s1: "MutexAfterLock DDBV (DDetector_Create True) 2 9 True False 0 0 (replicate 40 0) = Some s1" using first_lock by blast
  note e = event.after_lock [OF s1]
  have c: "careful DDBV (tbv_elems 1) (DDetector_Create True) s1" using e by (simp add: careful_def Create_state)
  have v: "sys_valid DDBV (tbv_shape 1) (tbv_valid 1) (tbv_elems 1) s1" using detector_invariant [OF r_into_rtranclp, of True s1, OF e] c by blast
  obtain s2 where s2: "MutexDestroy DDBV s1 9 = Some s2" using ddbv.MutexDestroy_correct [OF ddbv.sys_inv_safe [OF v] kSize_DDBV(2), of 9] by blast
  have "(event DDBV)\<^sup>*\<^sup>* (DDetector_Create True) s2" using e event.destroy [OF s2] by (meson converse_rtranclp_into_rtranclp r_into_rtranclp)
  then show ?thesis using detector_invariant [of True s2] s1 s2 v by blast
qed

text \<open>C2: when \<open>MutexBeforeLock\<close> and then \<open>MutexAfterLock\<close> run for an exclusive lock in a reachable state whose acquisition graph has no cycle,
  either the graph has none afterwards and no report was raised, or it has one and a report is pending, unless every cycle through the lock is longer than
  the path array. The state may be reached by any calls of the handlers.\<close>

theorem lock_detection:
  assumes "(event DDBV)\<^sup>*\<^sup>* (DDetector_Create flag) s" "acyclic (acquisitions s)"
    "MutexBeforeLock DDBV s t m unwind utid added path = Some s1" "MutexAfterLock DDBV s1 t m True trylock unwind' utid' added' = Some s2"
  shows "acyclic (acquisitions s2) \<and> report_pending (DD_threads s2 t) = report_pending (DD_threads s t) \<or>
    \<not> acyclic (acquisitions s2) \<and>
      (report_pending (DD_threads s2 t) \<or> (\<forall>j<length path. \<forall>h\<in>locks s1 t. (index_of DDBV s1 m, h) \<notin> acquisitions s1 ^^ j))"
  using ddbv.lock_correct [OF reachable_safe kSize_DDBV(2,3) assms(2-4)] assms(1) by blast

theorem lock_detection_witness:
  "\<exists>s1 s2. MutexBeforeLock DDBV (DDetector_Create False) 0 1 0 0 (replicate 40 0) (replicate 20 0) = Some s1 \<and>
    MutexAfterLock DDBV s1 0 1 True False 0 0 (replicate 40 0) = Some s2 \<and>
    (acyclic (acquisitions s2) \<or> report_pending (DD_threads s2 0) \<or> (\<forall>j<20. \<forall>h\<in>locks s1 0. (index_of DDBV s1 1, h) \<notin> acquisitions s1 ^^ j))"
proof -
  let ?s = "DDetector_Create False"
  have b: "MutexBeforeLock DDBV ?s 0 1 0 0 (replicate 40 0) (replicate 20 0) = Some ?s"
    by (simp add: MutexBeforeLock_def Create_state(1) tls_empty_def zero_tls_def DDBV_def TwoLevelBitVector_ops_def
        tbv_empty_correct [OF zero_bv_valid(1)] zero_bv_valid)
  obtain s2 where s2: "MutexAfterLock DDBV ?s 0 1 True False 0 0 (replicate 40 0) = Some s2" using first_lock by blast
  have a: "acyclic (acquisitions ?s)" unfolding DDetector_Create_ok(2) by (simp add: acyclic_def)
  show ?thesis using lock_detection [OF rtranclp.rtrancl_refl a b s2] b s2 by auto
qed

text \<open>C9: in every state that any calls of the handlers reach, \<open>MutexBeforeLock\<close>, \<open>MutexBeforeUnlock\<close> and \<open>MutexDestroy\<close> return, whether a
  thread holds the mutex or not. \<open>MutexAfterLock\<close> returns when both lock tables of the thread have room and, for an exclusive lock, the thread does not
  hold the mutex already; where the mutex has no node of the current epoch yet, the condition is instead that the nodes of all locks of the thread are allocated.\<close>

theorem handlers_return:
  assumes "(event DDBV)\<^sup>*\<^sup>* (DDetector_Create flag) s"
  shows "(\<exists>s'. MutexBeforeLock DDBV s t m unwind utid added path = Some s') \<and> (\<exists>s'. MutexBeforeUnlock DDBV s t m = Some s') \<and>
    (\<exists>s'. MutexDestroy DDBV s m = Some s') \<and>
    (n_all_locks (tls_of s t) < 64 \<and> n_recursive_locks (tls_of s t) < 64 \<and>
      (wlock \<longrightarrow> (if current DDBV s m then index_of DDBV s m \<notin> locks s t else locks s t \<subseteq> live DDBV (tbv_elems 1) (DD_dd s))) \<longrightarrow>
      (\<exists>s'. MutexAfterLock DDBV s t m wlock trylock unwind utid added = Some s'))"
proof -
  have s: "detector_safe s" using assms reachable_safe by blast
  note k = kSize_DDBV(2,3)
  show ?thesis
    using ddbv.MutexBeforeLock_correct [OF s k, of t m unwind utid added path] ddbv.MutexBeforeUnlock_correct [OF s k, of t m]
      ddbv.MutexDestroy_correct [OF s k(1), of m] ddbv.MutexAfterLock_correct [OF s k, of t wlock m trylock unwind utid added]
    by (auto split: option.splits)
qed

theorem handlers_return_witness:
  "\<exists>s1 s2. MutexAfterLock DDBV (DDetector_Create True) 2 9 True False 0 0 (replicate 40 0) = Some s1 \<and> MutexDestroy DDBV s1 9 = Some s2 \<and>
    (\<exists>s3. MutexBeforeLock DDBV s2 2 7 0 0 (replicate 40 0) (replicate 20 0) = Some s3) \<and> (\<exists>s3. MutexBeforeUnlock DDBV s2 2 9 = Some s3)"
proof -
  obtain s1 where s1: "MutexAfterLock DDBV (DDetector_Create True) 2 9 True False 0 0 (replicate 40 0) = Some s1"
    using handlers_return [OF rtranclp.rtrancl_refl [of _ "DDetector_Create True"], where t = 2 and m = 9 and unwind = 0 and utid = 0
        and added = "replicate 40 0" and wlock = True and trylock = False] Create_unlocked(1-3) [of True 2] Create_unlocked(4) [of True 9] by auto
  have r1: "(event DDBV)\<^sup>*\<^sup>* (DDetector_Create True) s1" using event.after_lock [OF s1] by blast
  obtain s2 where s2: "MutexDestroy DDBV s1 9 = Some s2" using handlers_return [OF r1, of 2 9] by blast
  have "(event DDBV)\<^sup>*\<^sup>* (DDetector_Create True) s2" using r1 event.destroy [OF s2] by (rule rtranclp.rtrancl_into_rtrancl)
  note r2 = handlers_return [OF this, where t = 2]
  have "\<exists>s3. MutexBeforeLock DDBV s2 2 7 0 0 (replicate 40 0) (replicate 20 0) = Some s3" "\<exists>s3. MutexBeforeUnlock DDBV s2 2 9 = Some s3"
    using r2 [of 7 0 0 "replicate 40 0" "replicate 20 0"] r2 [of 9] by blast+
  then show ?thesis using s1 s2 by blast
qed



text \<open>C32: a shared lock that the thread holds already passes \<open>MutexBeforeLock\<close> unchecked, and \<open>MutexAfterLock\<close> then adds the edges from
  every held lock to it: when another lock was taken under it, a graph without cycles gets one and no thread has a report pending that it had not before.\<close>

theorem recursive_read_lock:
  fixes s :: "'a::len word TwoLevelBitVector DD"
  assumes "sys_valid (TwoLevelBitVector_ops L) (tbv_shape L) (tbv_valid L) (tbv_elems L) s" "0 < LENGTH('a) * LENGTH('a) * L" "LENGTH('a) * LENGTH('a) * L \<le> 2 ^ 16"
    "acyclic (lock_graph (tbv_elems L) s)" "current (TwoLevelBitVector_ops L) s m" "index_of (TwoLevelBitVector_ops L) s m \<in> held (tbv_elems L) s t"
    "h \<in> held (tbv_elems L) s t" "(index_of (TwoLevelBitVector_ops L) s m, h) \<in> lock_graph (tbv_elems L) s"
    "MutexBeforeLock (TwoLevelBitVector_ops L) s t m unwind utid added path = Some s1"
    "MutexAfterLock (TwoLevelBitVector_ops L) s1 t m False False unwind' utid' added' = Some s2"
  shows "\<not> acyclic (lock_graph (tbv_elems L) s2) \<and> (\<forall>u. report_pending (DD_threads s2 u) = report_pending (DD_threads s u))"
proof -
  have "0 < kSize (TwoLevelBitVector_ops L :: ('a word TwoLevelBitVector, 'a word tbv_iterator) BV)"
    "kSize (TwoLevelBitVector_ops L :: ('a word TwoLevelBitVector, 'a word tbv_iterator) BV) \<le> 2 ^ 16" using assms(2,3) by (simp_all add: TwoLevelBitVector_ops_def)
  from tbv.recursive_rlock [OF assms(1) this assms(4-)] show ?thesis .
qed

theorem recursive_read_lock_witness:
  "\<exists>s1 s2. MutexBeforeLock small_bv two_locks 0 0 0 0 (replicate 40 0) (replicate 20 0) = Some s1 \<and>
    MutexAfterLock small_bv s1 0 0 False False 0 0 (replicate 40 0) = Some s2 \<and> acyclic (lock_graph (tbv_elems 1) two_locks) \<and> \<not> acyclic (lock_graph (tbv_elems 1) s2)"
proof -
  have "\<not> Option.is_none (do { s1 \<leftarrow> MutexBeforeLock small_bv two_locks 0 0 0 0 (replicate 40 0) (replicate 20 0);
      MutexAfterLock small_bv s1 0 0 False False 0 0 (replicate 40 0) })" by code_simp
  then obtain s1 s2 where s: "MutexBeforeLock small_bv two_locks 0 0 0 0 (replicate 40 0) (replicate 20 0) = Some s1"
    "MutexAfterLock small_bv s1 0 0 False False 0 0 (replicate 40 0) = Some s2"
    by (auto simp: Option.is_none_def bind_eq_Some_conv)
  have a: "acyclic (lock_graph (tbv_elems 1) two_locks)" unfolding two_locks_edges(1) by (simp add: acyclic_insert wf_acyclic)
  show ?thesis
    using recursive_read_lock [OF two_locks_ok _ _ a two_locks_state(4) _ _ _ s, of 1] s a by (simp add: two_locks_edges [unfolded One_nat_def] two_locks_state(5) [unfolded One_nat_def])
qed

section \<open>The thread registry\<close>

text \<open>C11: after any sequence of operations on a new registry the counters are the numbers of threads alive and
  running, every context stands at its index, threads in use have different unique identifiers, the quarantine lists every dead
  thread but the main one once and within its size, and the contexts listed for reuse are invalid.\<close>

theorem thread_registry_invariant:
  assumes "reg_reachable mt q mr r" "mt < 2 ^ 32"
  shows "alive_threads r = card (alive_set r) \<and> running_threads r = card (in_state r ThreadStatusRunning) \<and>
    alive_threads r \<le> GetMaxAliveThreads r \<and> (\<forall>i. i < length (threads r) \<longrightarrow> tid (threads r ! i) = i) \<and>
    inj_on (\<lambda>i. unique_id (threads r ! i)) (used_set r) \<and>
    (\<exists>ds vs. il_items (ctx_next r) (dead_threads r) = Some (map ctx_ptr ds) \<and> distinct ds \<and>
      set ds = in_state r ThreadStatusDead - {0} \<and> length ds \<le> q \<and>
      il_items (ctx_next r) (invalid_threads r) = Some (map ctx_ptr vs) \<and> distinct vs \<and> set vs \<subseteq> in_state r ThreadStatusInvalid - {0})"
proof -
  obtain ds vs where inv: "reg_inv {} r ds vs" using reg_reachable_ok [OF assms] by (auto simp: reg_ok_def)
  have "thread_quarantine_size r = q" by (rule reg_reachable_params [OF assms])
  then have "il_items (ctx_next r) (dead_threads r) = Some (map ctx_ptr ds) \<and> distinct ds \<and>
      set ds = in_state r ThreadStatusDead - {0} \<and> length ds \<le> q \<and>
      il_items (ctx_next r) (invalid_threads r) = Some (map ctx_ptr vs) \<and> distinct vs \<and> set vs \<subseteq> in_state r ThreadStatusInvalid - {0}"
    using inv reg_lists_distinct [of r ds vs] by (simp add: reg_inv_def reg_lists_def il_items_list)
  then show ?thesis using inv by (auto simp: reg_inv_def reg_counts_def reg_table_def GetMaxAliveThreads_def)
qed

theorem thread_registry_invariant_witness: "\<exists>r. one_running 1 = Some r \<and> alive_threads r = card (alive_set r) \<and> length (threads r) = 1"
  using one_running_state thread_registry_invariant [OF one_running_reachable [of 1]] by auto

text \<open>C15: in every reachable state \<open>CreateThread\<close> returns an identifier that no thread in use has, gives it the next unique
  identifier and leaves the other threads in use alone; it stops exactly when no context is left for reuse and the limit is reached.\<close>

theorem thread_creation:
  assumes "reg_reachable mt q mr r" "mt < 2 ^ 32"
  shows "if il_size (invalid_threads r) = 0 \<and> max_threads r \<le> length (threads r) then CreateThread r user det parent = None
    else \<exists>i r'. CreateThread r user det parent = Some (i, r') \<and> i \<notin> used_set r \<and> i \<in> in_state r' ThreadStatusCreated \<and>
      unique_id (threads r' ! i) = total_threads r \<and> (\<forall>j. j \<in> used_set r \<longrightarrow> threads r' ! j = threads r ! j)"
proof (cases "il_size (invalid_threads r) = 0 \<and> max_threads r \<le> length (threads r)")
  case False
  then have "0 < il_size (invalid_threads r) \<or> length (threads r) < max_threads r" by linarith
  from CreateThread_correct [OF reg_reachable_ok [OF assms] this, of user det parent] False show ?thesis
    by (metis (no_types, lifting))
qed (simp add: CreateThread_limit)

theorem thread_creation_witness: "\<exists>i r'. CreateThread (new_ThreadRegistry 4 1 0) 7 False 0 = Some (i, r') \<and> i \<in> in_state r' ThreadStatusCreated"
  using thread_creation [of 4 1 0 "new_ThreadRegistry 4 1 0" 7 False 0] by (auto simp: new_ThreadRegistry_def il_clear_def)

text \<open>C14: with a quarantine, \<open>JoinThread\<close> waits for a thread that is created or running. Once a running thread that is not detached
  has finished, its next round joins the thread and returns, and the thread is dead.\<close>

theorem thread_join:
  assumes "reg_reachable mt q mr r" "mt < 2 ^ 32" "0 < q" "i \<in> alive_set r"
  shows "JoinThread_round r i = Some (JoinYields, r) \<and>
    (status (threads r ! i) = ThreadStatusRunning \<and> \<not> detached (threads r ! i) \<longrightarrow>
      (\<exists>r1 r2. FinishThread r i = Some (ThreadStatusRunning, r1) \<and> JoinThread_round r1 i = Some (JoinReturns, r2) \<and>
        status (threads r2 ! i) = ThreadStatusDead))"
proof -
  note ok = reg_reachable_ok [OF assms(1,2)] and q = reg_reachable_params [OF assms(1,2)]
  have i: "i < length (threads r)" using assms(4) by (rule in_range)
  have "\<exists>r1 r2. FinishThread r i = Some (ThreadStatusRunning, r1) \<and> JoinThread_round r1 i = Some (JoinReturns, r2) \<and>
        status (threads r2 ! i) = ThreadStatusDead"
    if st: "status (threads r ! i) = ThreadStatusRunning" "\<not> detached (threads r ! i)"
  proof -
    obtain r1 where r1: "FinishThread r i = Some (ThreadStatusRunning, r1)" "reg_ok r1" "thread_quarantine_size r1 = q"
      "threads r1 = (threads r)[i := (threads r ! i)\<lparr>status := ThreadStatusFinished, thread_destroyed := True\<rparr>]"
      using FinishThread_joinable [OF ok i st] q by auto
    then have "i < length (threads r1)" "status (threads r1 ! i) = ThreadStatusFinished" using i by simp_all
    from JoinThread_round_finished [OF r1(2) this] r1(1,3) assms(3) show ?thesis by (metis less_irrefl)
  qed
  then show ?thesis using JoinThread_round_alive [OF ok assms(4)] assms(3) by (simp add: q)
qed

theorem thread_join_witness: "\<exists>r r1 r2. one_running 1 = Some r \<and> FinishThread r 0 = Some (ThreadStatusRunning, r1) \<and>
    JoinThread_round r1 0 = Some (JoinReturns, r2) \<and> status (threads r2 ! 0) = ThreadStatusDead"
proof -
  obtain r where r: "one_running 1 = Some r" "length (threads r) = 1" "status (threads r ! 0) = ThreadStatusRunning" "\<not> detached (threads r ! 0)"
    using one_running_state by blast
  then have "0 \<in> alive_set r" by (simp add: alive_set_def in_state_def)
  from thread_join [OF one_running_reachable [OF r(1)] _ _ this] r show ?thesis by auto
qed

text \<open>C34: without a quarantine \<open>FinishThread\<close> marks a context as destroyed after it was reset, so that a thread that
  reuses the context is not waited for: \<open>JoinThread\<close> aborts while the thread is running.\<close>

theorem join_without_quarantine:
  "\<exists>r i. reg_reachable 4 0 0 r \<and> i \<in> in_state r ThreadStatusRunning \<and> \<not> detached (threads r ! i) \<and> JoinThread_round r i = None"
proof -
  obtain r where r: "one_reused 0 = Some r" "length (threads r) = 2" "status (threads r ! 1) = ThreadStatusRunning"
      "\<not> detached (threads r ! 1)" "thread_destroyed (threads r ! 1)"
    using one_reused_state by blast
  have "JoinThread_round r 1 = None" using r by (simp add: JoinThread_round_def GetDestroyed_def SetJoined_def)
  moreover have "1 \<in> in_state r ThreadStatusRunning" using r by (simp add: in_state_def)
  ultimately show ?thesis using one_reused_reachable [OF r(1)] r(4) by blast
qed

section \<open>Memory and strings\<close>

text \<open>C17: \<open>internal_memmove\<close> copies the block as it was, also when source and destination overlap, and changes no other byte; it
  aborts exactly when the length is negative as a signed number.\<close>

theorem memmove_overlap:
  "internal_memmove m d s n = (if n < 2 ^ 63 then Some (\<lambda>a. if d \<le> a \<and> a < d + n then m (s + (a - d)) else m a) else None)"
  by (simp only: memmove_copied copied_def)

text \<open>C28: for the value of an unsigned byte, the word stores of \<open>internal_memset\<close> on aligned blocks and its byte loop both fill exactly the block.\<close>

theorem memset_paths:
  assumes "c < 256"
  shows "internal_memset m s c n = (\<lambda>a. if s \<le> a \<and> a < s + n then ucast c else m a)"
  using memset_filled [OF assms] by (simp only: filled_def)

theorem memset_paths_witness:
  "internal_memset (\<lambda>_. 7) 32 0xAB 16 = (\<lambda>a. if 32 \<le> a \<and> a < 48 then 0xAB else 7)"
  using memset_paths [of "0xAB" "\<lambda>_. 7" 32 16] by (simp add: fun_eq_iff)

text \<open>C35: for a negative character \<open>b\<close> the byte loop fills the block with \<open>b\<close>, but on a block whose address and length are multiples of 16 the
  word stores leave \<open>b\<close> only in the first byte of each word and \<open>0xFF\<close>, the sign bits, in the seven others.\<close>

theorem memset_sign:
  assumes "sint (b :: 8 word) < 0"
  shows "internal_memset m s (scast b) n = (\<lambda>a. if s \<le> a \<and> a < s + n then
    (if s mod 16 = 0 \<and> n mod 16 = 0 \<and> (a - s) mod 8 \<noteq> 0 then 0xFF else b) else m a)"
  by (rule memset_negative [OF assms])

theorem memset_sign_witness:
  "internal_memset (\<lambda>_. 7) 32 (scast (0xFE :: 8 word)) 16 = (\<lambda>a. if 32 \<le> a \<and> a < 48 then (if (a - 32) mod 8 = 0 then 0xFE else 0xFF) else 7)"
  using memset_sign [of "0xFE" "\<lambda>_. 7" 32 16] by (simp add: fun_eq_iff)

text \<open>C18: \<open>mem_is_zero\<close>, which reads the aligned middle of a block by words, answers whether every byte of the block is zero.\<close>

theorem zero_test:
  assumes "n \<le> 2 ^ 40" "a + n + 8 \<le> 2 ^ 64"
  shows "mem_is_zero m a n = Some (\<forall>i<n. m (a + i) = 0)"
  by (rule mem_is_zero_correct [OF assms])

theorem zero_test_witness: "mem_is_zero (\<lambda>a. if a = 30 then 1 else 0) 3 25 = Some True"
  using zero_test [of 25 3 "\<lambda>a. if a = 30 then 1 else 0"] by auto

text \<open>C19: \<open>internal_strlcpy\<close> and \<open>internal_strlcat\<close> return the length of the string they tried to make, leave the longest prefix of it that fits,
  terminated, in the buffer of \<open>maxlen\<close> bytes, and write nowhere else, whatever overlaps.\<close>

theorem bounded_string_copies:
  assumes "cstr m src xs" "length xs < 2 ^ 62" "cstr m dst ys" "length ys < maxlen"
  shows "(\<exists>m'. internal_strlcpy m dst src maxlen = Some (length xs, m') \<and> cstr m' dst (take (maxlen - 1) xs) \<and>
      (\<forall>a. a < dst \<or> dst + maxlen \<le> a \<longrightarrow> m' a = m a)) \<and>
    (\<exists>m'. internal_strlcat m dst src maxlen = Some (length ys + length xs, m') \<and> cstr m' dst (take (maxlen - 1) (ys @ xs)) \<and>
      (\<forall>a. a < dst \<or> dst + maxlen \<le> a \<longrightarrow> m' a = m a))"
  using strlcpy_correct [OF assms(1,2), of maxlen dst] strlcat_correct [OF assms(1,3,2,4)] assms(4) by simp

theorem bounded_string_copies_witness:
  "\<exists>m'. internal_strlcat (\<lambda>a. if a \<in> {10, 11, 12} then 65 else if a = 20 then 66 else 0) 20 10 3 = Some (4, m') \<and> cstr m' 20 [66, 65]"
  using bounded_string_copies [of "\<lambda>a. if a \<in> {10, 11, 12} then 65 else if a = 20 then 66 else 0" 10 "[65, 65, 65]" 20 "[66]" 3] by auto

text \<open>C29: \<open>internal_strcmp\<close> and \<open>internal_strncmp\<close> compare as strings of unsigned characters: they return zero exactly for equal strings and
  minus one exactly when the first comes first in lexicographic order.\<close>

theorem string_order:
  assumes "cstr m s1 xs" "cstr m s2 ys"
  shows "\<exists>r. internal_strcmp m s1 s2 = Some r \<and> r \<in> {- 1, 0, 1} \<and> (r = 0 \<longleftrightarrow> xs = ys) \<and> (r = - 1 \<longleftrightarrow> (xs, ys) \<in> lexord {(a, b). a < b}) \<and>
    (internal_strncmp m s1 s2 n = 0 \<longleftrightarrow> take n xs = take n ys) \<and> (internal_strncmp m s1 s2 n = - 1 \<longleftrightarrow> (take n xs, take n ys) \<in> lexord {(a, b). a < b})"
  using strcmp_order [OF assms] strncmp_order [OF assms, of n] str_order_0 str_order_less str_order_range by metis

theorem string_order_witness:
  "\<exists>r. internal_strcmp (\<lambda>a. if a = 0 then 0x80 else if a = 4 then 0x7F else 0) 0 4 = Some r \<and> r \<noteq> - 1 \<and> r \<noteq> 0"
  using string_order [of "\<lambda>a. if a = 0 then 0x80 else if a = 4 then 0x7F else 0" 0 "[0x80]" 4 "[0x7F]" 1] by auto

text \<open>C30: \<open>internal_strstr\<close> returns the first position at which the needle occurs, and null exactly when it occurs nowhere.\<close>

theorem substring_search:
  assumes "cstr m h xs" "cstr m p ys"
  shows "\<exists>r. internal_strstr m h p = Some r \<and>
    (case r of None \<Rightarrow> \<forall>i. \<not> prefix ys (drop i xs)
     | Some q \<Rightarrow> \<exists>i. q = h + i \<and> prefix ys (drop i xs) \<and> (\<forall>i'<i. \<not> prefix ys (drop i' xs)))"
  by (rule strstr_correct [OF assms])

theorem substring_search_witness:
  "\<exists>r. internal_strstr (\<lambda>a. if a < 3 then 65 + of_nat a else if a = 8 then 66 else 0) 0 8 = Some r \<and> r \<noteq> None"
  using substring_search [of "\<lambda>a. if a < 3 then 65 + of_nat a else if a = 8 then 66 else 0" 0 "[65, 66, 67]" 8 "[66]"]
  by (auto simp: prefix_Cons split: option.splits dest: spec [of _ 1])

text \<open>C31: \<open>internal_strlen\<close>, \<open>internal_strnlen\<close>, \<open>internal_strchr\<close>, \<open>internal_strchrnul\<close> and \<open>internal_strcspn\<close> end on every terminated string
  and return the length, the bounded length, the first occurrence, and the length of the part without rejected characters.\<close>

theorem character_search:
  assumes "cstr m s xs" "cstr m reject rs"
  shows "internal_strlen m s = Some (length xs) \<and> internal_strnlen m s n = min n (length xs) \<and>
    internal_strchr m s c = Some (if ucast c \<in> insert 0 (set xs) then Some (s + length (takeWhile (\<lambda>x. x \<noteq> ucast c) xs)) else None) \<and>
    internal_strchrnul m s c = Some (s + length (takeWhile (\<lambda>x. x \<noteq> ucast c) xs)) \<and>
    internal_strcspn m s reject = Some (length (takeWhile (\<lambda>x. x \<notin> set rs) xs))"
  using strlen_cstr [OF assms(1)] strnlen_min [OF assms(1)] strchr_cstr [OF assms(1)] strchrnul_cstr [OF assms(1)] strcspn_cstr [OF assms(2,1)] by simp

theorem character_search_witness: "internal_strcspn (\<lambda>a. if a < 3 then 65 + of_nat a else if a = 8 then 67 else 0) 0 8 = Some 2"
  using character_search [of "\<lambda>a. if a < 3 then 65 + of_nat a else if a = 8 then 67 else 0" 0 "[65, 66, 67]" 8 "[67]"] by simp

text \<open>C20: \<open>internal_simple_strtoll\<close> skips white space, reads a sign and digits, and returns their value clamped to the range of a signed 64-bit
  integer, with the end pointer after the last digit; other bases abort.\<close>

theorem decimal_saturation:
  assumes "text_at m p (sp @ sg @ ds)" "\<forall>x\<in>set sp. is_space x" "sg \<in> {[], [43], [45]}" "ds \<noteq> []" "\<forall>x\<in>set ds. is_digit x"
    "\<not> is_digit (m (p + length (sp @ sg @ ds)))" "base \<noteq> 10"
  shows "(\<exists>r. internal_simple_strtoll m p 10 = Some (r, p + length (sp @ sg @ ds)) \<and>
      sint r = max (- (2 ^ 63)) (min (2 ^ 63 - 1) (if sg = [45] then - digits_value ds else digits_value ds))) \<and>
    internal_simple_strtoll m p base = None"
  using strtoll_correct [OF assms(1-6)] assms(7) by (simp add: clamp_s64_def internal_simple_strtoll_def)

theorem decimal_saturation_witness:
  "\<exists>r. internal_simple_strtoll (\<lambda>a. if a < 4 then [32, 45, 52, 50] ! a else 0) 0 10 = Some (r, length [32, 45, 52, 50 :: 8 word]) \<and> sint r = - 42"
  using decimal_saturation [of "\<lambda>a. if a < 4 then [32, 45, 52, 50] ! a else 0" 0 "[32]" "[45]" "[52, 50]" 16]
  by (simp add: is_space_def is_digit_def digits_value_def)

end
